(* ===== verification/Prelude.thy ===== *)
theory Prelude
  imports Main "HOL-Library.Word" "HOL-Library.Char_ord" "HOL-Library.List_Lexorder"
begin

text \<open>
  Shared vocabulary of the development: the C view of byte strings (strings are lists of
  \<^typ>\<open>char\<close>, one element per byte), decimal printing as \<^verbatim>\<open>std::to_string\<close> does it, and the
  program monad: a computation takes the state and either does not return (\<^term>\<open>None\<close>),
  or returns a new state together with a value (\<^term>\<open>Inr\<close>) or the exception that left it
  (\<^term>\<open>Inl\<close>).  Effects made before an exception persist, as they do in C++.
\<close>

section \<open>Lemma collections\<close>

named_theorems prog_simps \<open>monad laws and unfoldings of the program combinators\<close>
named_theorems handler_simps \<open>running one call of a request handler\<close>

section \<open>C strings\<close>

abbreviation NUL :: char where
  "NUL \<equiv> CHR 0x00"

text \<open>What a \<^verbatim>\<open>const char*\<close> reading of a byte sequence sees: the bytes before the first NUL.\<close>

definition c_str :: "string \<Rightarrow> string" where
  "c_str s = takeWhile (\<lambda>c. c \<noteq> NUL) s"

lemma c_str_no_nul: "NUL \<notin> set (c_str s)"
  by (auto simp: c_str_def dest: set_takeWhileD)

lemma c_str_id [simp]: "NUL \<notin> set s \<Longrightarrow> c_str s = s"
  by (auto simp: c_str_def takeWhile_eq_all_conv)

lemma c_str_length: "length (c_str s) \<le> length s"
  by (simp add: c_str_def length_takeWhile_le)

lemma c_str_append_nul: "NUL \<notin> set s \<Longrightarrow> c_str (s @ NUL # t) = s"
  by (auto simp: c_str_def takeWhile_append)

lemma c_str_nil [simp]: "c_str [] = []"
  by (simp add: c_str_def)

section \<open>Positional numbers\<close>

lemma div_digit: "q < m \<Longrightarrow> (a * m + q) div m = (a :: nat)"
  by simp

lemma mod_digit: "q < m \<Longrightarrow> (a * m + q) mod m = (q :: nat)"
  by simp

section \<open>Decimal printing\<close>

definition digit_char :: "nat \<Rightarrow> char" where
  "digit_char d = char_of (48 + d)"

definition digit_val :: "char \<Rightarrow> nat" where
  "digit_val c = of_char c - 48"

definition is_digit :: "char \<Rightarrow> bool" where
  "is_digit c \<longleftrightarrow> 48 \<le> (of_char c :: nat) \<and> (of_char c :: nat) \<le> 57"

fun dec_nat :: "nat \<Rightarrow> string" where
  "dec_nat n = (if n < 10 then [digit_char n] else dec_nat (n div 10) @ [digit_char (n mod 10)])"

declare dec_nat.simps [simp del]

text \<open>\<^verbatim>\<open>std::to_string\<close> on a signed value.\<close>

definition dec_int :: "int \<Rightarrow> string" where
  "dec_int i = (if i < 0 then CHR ''-'' # dec_nat (nat (- i)) else dec_nat (nat i))"

text \<open>The value of a digit string, as \<^verbatim>\<open>strtoull\<close> computes it (before any range check).\<close>

definition undec :: "string \<Rightarrow> nat" where
  "undec s = foldl (\<lambda>a c. 10 * a + digit_val c) 0 s"

lemma of_char_digit: "d < 10 \<Longrightarrow> (of_char (digit_char d) :: nat) = 48 + d"
  by (simp add: digit_char_def)

lemma digit_val_digit_char [simp]: "d < 10 \<Longrightarrow> digit_val (digit_char d) = d"
  by (simp add: digit_val_def of_char_digit)

lemma is_digit_digit_char [simp]: "d < 10 \<Longrightarrow> is_digit (digit_char d)"
  by (simp add: is_digit_def of_char_digit)

lemma dec_nat_not_nil [simp]: "dec_nat n \<noteq> []"
  by (subst dec_nat.simps) simp

lemma dec_nat_digits: "c \<in> set (dec_nat n) \<Longrightarrow> is_digit c"
proof (induction n rule: dec_nat.induct)
  case (1 n)
  show ?case
  proof (cases "n < 10")
    case True
    with 1 show ?thesis by (simp add: dec_nat.simps [of n])
  next
    case False
    with 1 show ?thesis by (auto simp: dec_nat.simps [of n])
  qed
qed

lemma undec_append: "undec (xs @ [c]) = 10 * undec xs + digit_val c"
  by (simp add: undec_def)

lemma undec_dec_nat [simp]: "undec (dec_nat n) = n"
proof (induction n rule: dec_nat.induct)
  case (1 n)
  show ?case
  proof (cases "n < 10")
    case True
    then show ?thesis by (subst dec_nat.simps) (simp add: undec_def)
  next
    case False
    with 1 show ?thesis by (subst dec_nat.simps) (simp add: undec_append)
  qed
qed

lemma dec_nat_inj: "dec_nat m = dec_nat n \<longleftrightarrow> m = n"
  by (metis undec_dec_nat)

lemma not_is_digit_nul [simp]: "\<not> is_digit NUL"
  by (simp add: is_digit_def)

lemma nul_notin_dec_nat [simp]: "NUL \<notin> set (dec_nat n)"
  using dec_nat_digits by fastforce

text \<open>Printing never produces a leading zero, except for zero itself.\<close>

lemma dec_nat_hd: "0 < n \<Longrightarrow> hd (dec_nat n) \<noteq> CHR ''0''"
proof (induction n rule: dec_nat.induct)
  case (1 n)
  show ?case
  proof (cases "n < 10")
    case True
    have "(of_char (digit_char n) :: nat) = 48 + n" using True by (rule of_char_digit)
    moreover have "(of_char (CHR ''0'') :: nat) = 48" by simp
    ultimately have "digit_char n \<noteq> CHR ''0''" using 1 by auto
    with True show ?thesis by (simp add: dec_nat.simps [of n])
  next
    case False
    with 1 show ?thesis by (simp add: dec_nat.simps [of n])
  qed
qed

lemma dec_nat_length_bound: "n < 10 ^ k \<Longrightarrow> 0 < k \<Longrightarrow> length (dec_nat n) \<le> k"
proof (induction k arbitrary: n)
  case 0
  then show ?case by simp
next
  case (Suc k)
  show ?case
  proof (cases "n < 10")
    case True
    then show ?thesis by (simp add: dec_nat.simps [of n])
  next
    case False
    have "0 < k" using False Suc.prems by (cases k) auto
    moreover have "n div 10 < 10 ^ k"
      using Suc.prems(1) by (simp add: less_mult_imp_div_less mult.commute)
    ultimately have "length (dec_nat (n div 10)) \<le> k" by (intro Suc.IH)
    with False show ?thesis by (simp add: dec_nat.simps [of n])
  qed
qed

section \<open>Failures\<close>

text \<open>
  What can leave a function other than by returning: the exceptions of the JSON library
  (\<^verbatim>\<open>parse_error\<close>, \<^verbatim>\<open>type_error\<close> with its number), of \<^verbatim>\<open>unordered_map::at\<close>, of Boost.Asio
  (\<^verbatim>\<open>system_error\<close>), of mysql++ rows, of \<^verbatim>\<open>std::filesystem\<close>, the clock check of the id worker,
  \<^verbatim>\<open>exit\<close> with its status, and undefined behaviour, which the model makes visible as a failure of its own.
\<close>

datatype ub = Buffer_overflow | Heap_overflow | Heap_overread | Missing_terminator | Bad_float_cast

datatype exn = Json_parse_error
  | Json_type_error nat
  | Json_out_of_range
  | Json_float_dump
  | Map_at
  | Socket_error
  | Bad_index
  | Bad_conversion
  | Clock_backwards "64 word"
  | Filesystem_error
  | Exit int
  | UB ub

section \<open>The program monad\<close>

type_synonym ('e, 's, 'a) prog = "'s \<Rightarrow> (('e + 'a) \<times> 's) option"

definition ret :: "'a \<Rightarrow> ('e, 's, 'a) prog" where
  "ret a = (\<lambda>s. Some (Inr a, s))"

definition throw :: "'e \<Rightarrow> ('e, 's, 'a) prog" where
  "throw e = (\<lambda>s. Some (Inl e, s))"

definition lift_sum :: "'e + 'a \<Rightarrow> ('e, 's, 'a) prog" where
  "lift_sum x = (\<lambda>s. Some (x, s))"

definition bnd :: "('e, 's, 'a) prog \<Rightarrow> ('a \<Rightarrow> ('e, 's, 'b) prog) \<Rightarrow> ('e, 's, 'b) prog" where
  "bnd m f = (\<lambda>s. case m s of
       None \<Rightarrow> None
     | Some (Inl e, s') \<Rightarrow> Some (Inl e, s')
     | Some (Inr a, s') \<Rightarrow> f a s')"

definition get_st :: "('s \<Rightarrow> 'a) \<Rightarrow> ('e, 's, 'a) prog" where
  "get_st f = (\<lambda>s. Some (Inr (f s), s))"

definition modify_st :: "('s \<Rightarrow> 's) \<Rightarrow> ('e, 's, unit) prog" where
  "modify_st f = (\<lambda>s. Some (Inr (), f s))"

text \<open>A range-based loop over the elements of a container; an exception leaves the loop.\<close>

primrec for_each :: "'x list \<Rightarrow> ('x \<Rightarrow> ('e, 's, unit) prog) \<Rightarrow> ('e, 's, unit) prog" where
  "for_each [] f = ret ()"
| "for_each (x # xs) f = bnd (f x) (\<lambda>_. for_each xs f)"

text \<open>A loop that pushes one result per element.\<close>

primrec map_each :: "('x \<Rightarrow> ('e, 's, 'y) prog) \<Rightarrow> 'x list \<Rightarrow> ('e, 's, 'y list) prog" where
  "map_each f [] = ret []"
| "map_each f (x # xs) = bnd (f x) (\<lambda>y. bnd (map_each f xs) (\<lambda>ys. ret (y # ys)))"

lemma bnd_ret [prog_simps, simp]: "bnd (ret a) f = f a"
  by (simp add: bnd_def ret_def)

lemma bnd_throw [prog_simps, simp]: "bnd (throw e) f = throw e"
  by (simp add: bnd_def throw_def)

lemma bnd_assoc: "bnd (bnd m f) g = bnd m (\<lambda>x. bnd (f x) g)"
  by (auto simp: bnd_def fun_eq_iff split: option.splits sum.splits)

lemma bnd_ret_right: "bnd m ret = m"
  by (auto simp: bnd_def ret_def fun_eq_iff split: option.splits sum.splits)

lemma lift_sum_Inr [prog_simps, simp]: "lift_sum (Inr a) = ret a"
  by (simp add: lift_sum_def ret_def)

lemma lift_sum_Inl [prog_simps, simp]: "lift_sum (Inl e) = throw e"
  by (simp add: lift_sum_def throw_def)

lemma lift_sum_app [prog_simps, simp]: "lift_sum x s = Some (x, s)"
  by (simp add: lift_sum_def)

lemma ret_app [prog_simps, simp]: "ret a s = Some (Inr a, s)"
  by (simp add: ret_def)

lemma throw_app [prog_simps, simp]: "throw e s = Some (Inl e, s)"
  by (simp add: throw_def)

lemma get_st_app [prog_simps, simp]: "get_st f s = Some (Inr (f s), s)"
  by (simp add: get_st_def)

lemma modify_st_app [prog_simps, simp]: "modify_st f s = Some (Inr (), f s)"
  by (simp add: modify_st_def)

lemma bnd_get_st [prog_simps]: "bnd (get_st g) f s = f (g s) s"
  by (simp add: bnd_def)

lemma bnd_modify_st [prog_simps]: "bnd (modify_st g) f s = f () (g s)"
  by (simp add: bnd_def)

lemma bnd_InrI: "m s = Some (Inr a, s') \<Longrightarrow> bnd m f s = f a s'"
  by (simp add: bnd_def)

lemma bnd_InlI: "m s = Some (Inl e, s') \<Longrightarrow> bnd m f s = Some (Inl e, s')"
  by (simp add: bnd_def)

lemma bnd_NoneI: "m s = None \<Longrightarrow> bnd m f s = None"
  by (simp add: bnd_def)

lemma bnd_SomeE:
  assumes "bnd m f s = Some (r, s'')"
  obtains (exn) e where "m s = Some (Inl e, s'')" and "r = Inl e"
    | (val) a s' where "m s = Some (Inr a, s')" and "f a s' = Some (r, s'')"
  using assms by (auto simp: bnd_def split: option.splits sum.splits)

section \<open>Relations that every step of a program respects\<close>

text \<open>
  \<open>keeps R m\<close>: whenever \<open>m\<close> returns, with a value or an exception, the states before and after
  are related by \<open>R\<close>.  For a reflexive and transitive \<open>R\<close> the property is closed under the
  combinators; the closure rules are proved once, in a locale over such a relation.
\<close>

definition keeps :: "('s \<Rightarrow> 's \<Rightarrow> bool) \<Rightarrow> ('e, 's, 'a) prog \<Rightarrow> bool" where
  "keeps R m \<longleftrightarrow> (\<forall>s r s'. m s = Some (r, s') \<longrightarrow> R s s')"

text \<open>\<open>returns m\<close>: the program comes back from every state.\<close>

definition returns :: "('e, 's, 'a) prog \<Rightarrow> bool" where
  "returns m \<longleftrightarrow> (\<forall>s. m s \<noteq> None)"

lemma keepsD: "keeps R m \<Longrightarrow> m s = Some (r, s') \<Longrightarrow> R s s'"
  by (auto simp: keeps_def)

locale frame =
  fixes R :: "'s \<Rightarrow> 's \<Rightarrow> bool"
  assumes frame_refl: "R s s"
    and frame_trans: "R s t \<Longrightarrow> R t u \<Longrightarrow> R s u"
begin

lemma keeps_ret: "keeps R (ret a)"
  by (simp add: keeps_def frame_refl)

lemma keeps_throw: "keeps R (throw e)"
  by (simp add: keeps_def frame_refl)

lemma keeps_lift_sum: "keeps R (lift_sum x)"
  by (simp add: keeps_def lift_sum_def frame_refl)

lemma keeps_get_st: "keeps R (get_st f)"
  by (simp add: keeps_def frame_refl)

lemma keeps_bnd:
  assumes m: "keeps R m" and f: "\<And>a. keeps R (f a)"
  shows "keeps R (bnd m f)"
  unfolding keeps_def
proof (intro allI impI)
  fix s r s'' assume "bnd m f s = Some (r, s'')"
  then show "R s s''"
  proof (cases rule: bnd_SomeE)
    case (exn e)
    with m show ?thesis by (auto dest: keepsD)
  next
    case (val a s')
    with m f have "R s s'" and "R s' s''" by (auto dest: keepsD)
    then show ?thesis by (rule frame_trans)
  qed
qed

lemma keeps_for_each:
  assumes "\<And>x. keeps R (f x)"
  shows "keeps R (for_each xs f)"
  using assms by (induction xs) (auto intro: keeps_ret keeps_bnd)

lemma keeps_map_each:
  assumes "\<And>x. keeps R (f x)"
  shows "keeps R (map_each f xs)"
  using assms by (induction xs) (auto intro: keeps_ret keeps_bnd)

lemmas keeps_rules = keeps_ret keeps_throw keeps_lift_sum keeps_get_st keeps_bnd
  keeps_for_each keeps_map_each

end

lemma returns_ret [simp]: "returns (ret a)"
  by (simp add: returns_def)

lemma returns_throw [simp]: "returns (throw e)"
  by (simp add: returns_def)

lemma returns_lift_sum [simp]: "returns (lift_sum x)"
  by (simp add: returns_def lift_sum_def)

lemma returns_get_st [simp]: "returns (get_st f)"
  by (simp add: returns_def)

lemma returns_modify_st [simp]: "returns (modify_st f)"
  by (simp add: returns_def)

lemma returns_bnd: "returns m \<Longrightarrow> (\<And>a. returns (f a)) \<Longrightarrow> returns (bnd m f)"
  by (auto simp: returns_def bnd_def split: option.splits sum.splits)

lemma returns_for_each: "(\<And>x. returns (f x)) \<Longrightarrow> returns (for_each xs f)"
  by (induction xs) (simp_all add: returns_bnd)

lemma returns_map_each: "(\<And>x. returns (f x)) \<Longrightarrow> returns (map_each f xs)"
  by (induction xs) (simp_all add: returns_bnd)

lemmas returns_rules = returns_ret returns_throw returns_lift_sum returns_get_st
  returns_modify_st returns_bnd returns_for_each returns_map_each

end
