(* ===== verification/Config.thy ===== *)
theory Config
  imports Prelude
begin

text \<open>
  \<^verbatim>\<open>config.h\<close>: the constants, the four enums and the packet structures, with their in-memory
  (and therefore on-the-wire) layout.  Enumerators are numbered from 0 in source order; an
  enum value read from the network or from JSON is any \<open>int\<close>, so decoding is partial and the
  \<open>default\<close> branch of a \<open>switch\<close> is the \<^term>\<open>None\<close> case.  The layout is the one of the
  target (little endian, \<open>int\<close> of 32 bits, no padding in the header).
\<close>

section \<open>Constants\<close>

definition BUF_SIZE :: nat where
  "BUF_SIZE = 1024 * 10"

definition FILE_BUF_SIZE :: nat where
  "FILE_BUF_SIZE = 1024 * 1024 * 1024"

definition CHANGE_THREAD_NUMBER :: nat where
  "CHANGE_THREAD_NUMBER = 2"

definition MIN_THREAD_NUMBER :: nat where
  "MIN_THREAD_NUMBER = 3"

definition MAX_EPOLL_EVENTS :: nat where
  "MAX_EPOLL_EVENTS = 10"

definition LISTEN_PORT :: nat where
  "LISTEN_PORT = 2222"

definition LISTEN_BACKLOG :: nat where
  "LISTEN_BACKLOG = 5"

definition PROFILE_PICTURE_URL :: string where
  "PROFILE_PICTURE_URL = ''/root/my_test/MyServer/cache/profilePicture/''"

definition CHAT_PICTURE_URL :: string where
  "CHAT_PICTURE_URL = ''/root/my_test/MyServer/cache/chatPicture/''"

definition PREVIEW_PICTURE_URL :: string where
  "PREVIEW_PICTURE_URL = ''/root/my_test/MyServer/cache/previewPicture/''"

definition VIDEO_URL :: string where
  "VIDEO_URL = ''/opt/nginx-video/''"

definition NET_VIDEO_URL :: string where
  "NET_VIDEO_URL = ''http://192.168.156.74/''"

section \<open>Enums\<close>

datatype Purpose = Heart | Register | Login | SendFile | GetFile | GetInfo | ModifyInfo | Chat

datatype FileType = ProfilePicture | VideoPreviewImg | ChatImg | Video

datatype InfoType = Comment | VideoLike | CommentLike | Follow | Fans | VodList | LiveList
  | Video | NickName | VideoProfile | UserVideo | UserVideoLike | Message | VideoPush

datatype MessageType = VideoPreviewImg | ChatImg | Characters

fun purpose_int :: "Purpose \<Rightarrow> nat" where
  "purpose_int Heart = 0"
| "purpose_int Register = 1"
| "purpose_int Login = 2"
| "purpose_int SendFile = 3"
| "purpose_int GetFile = 4"
| "purpose_int GetInfo = 5"
| "purpose_int ModifyInfo = 6"
| "purpose_int Chat = 7"

fun filetype_int :: "FileType \<Rightarrow> int" where
  "filetype_int FileType.ProfilePicture = 0"
| "filetype_int FileType.VideoPreviewImg = 1"
| "filetype_int FileType.ChatImg = 2"
| "filetype_int FileType.Video = 3"

fun infotype_int :: "InfoType \<Rightarrow> int" where
  "infotype_int InfoType.Comment = 0"
| "infotype_int InfoType.VideoLike = 1"
| "infotype_int InfoType.CommentLike = 2"
| "infotype_int InfoType.Follow = 3"
| "infotype_int InfoType.Fans = 4"
| "infotype_int InfoType.VodList = 5"
| "infotype_int InfoType.LiveList = 6"
| "infotype_int InfoType.Video = 7"
| "infotype_int InfoType.NickName = 8"
| "infotype_int InfoType.VideoProfile = 9"
| "infotype_int InfoType.UserVideo = 10"
| "infotype_int InfoType.UserVideoLike = 11"
| "infotype_int InfoType.Message = 12"
| "infotype_int InfoType.VideoPush = 13"

fun messagetype_int :: "MessageType \<Rightarrow> int" where
  "messagetype_int MessageType.VideoPreviewImg = 0"
| "messagetype_int MessageType.ChatImg = 1"
| "messagetype_int MessageType.Characters = 2"

text \<open>The case an enum value selects in a \<open>switch\<close>; \<^term>\<open>None\<close> is \<open>default\<close>.\<close>

definition purpose_of :: "32 word \<Rightarrow> Purpose option" where
  "purpose_of w = (let ps = [Heart, Register, Login, SendFile, GetFile, GetInfo, ModifyInfo, Chat]
     in if unat w < length ps then Some (ps ! unat w) else None)"

definition infotype_of :: "int \<Rightarrow> InfoType option" where
  "infotype_of i = (let ts = [InfoType.Comment, InfoType.VideoLike, InfoType.CommentLike,
       InfoType.Follow, InfoType.Fans, InfoType.VodList, InfoType.LiveList, InfoType.Video,
       InfoType.NickName, InfoType.VideoProfile, InfoType.UserVideo, InfoType.UserVideoLike,
       InfoType.Message, InfoType.VideoPush]
     in if 0 \<le> i \<and> nat i < length ts then Some (ts ! nat i) else None)"

lemma purpose_of_int [simp]: "purpose_of (word_of_nat (purpose_int p)) = Some p"
  by (cases p) (simp_all add: purpose_of_def)

lemma infotype_of_int [simp]: "infotype_of (infotype_int t) = Some t"
  by (cases t) (simp_all add: infotype_of_def)

lemma infotype_of_Some: "infotype_of i = Some t \<longleftrightarrow> i = infotype_int t"
proof
  assume a: "infotype_of i = Some t"
  then have "0 \<le> i" "i < 14" by (auto simp: infotype_of_def Let_def split: if_splits)
  then have "i = 0 \<or> i = 1 \<or> i = 2 \<or> i = 3 \<or> i = 4 \<or> i = 5 \<or> i = 6 \<or> i = 7 \<or> i = 8
    \<or> i = 9 \<or> i = 10 \<or> i = 11 \<or> i = 12 \<or> i = 13" by presburger
  then show "i = infotype_int t" using a by (elim disjE) (auto simp: infotype_of_def)
next
  assume "i = infotype_int t" then show "infotype_of i = Some t" by simp
qed

section \<open>Packets and their layout\<close>

record NetPacketHeader =
  purpose :: "32 word"
  data_size :: "32 word"

definition header_size :: nat where
  "header_size = 8"

text \<open>
  A \<open>NetPacket\<close>: the header and the bytes stored in \<open>dataPacket.data\<close> by \<open>strcpy\<close> (without the
  terminator; the rest of the array is uninitialised and never sent).
\<close>

record NetPacket =
  packetHeader :: NetPacketHeader
  data :: string

definition le32 :: "32 word \<Rightarrow> string" where
  "le32 w = (let n = unat w in
     [char_of n, char_of (n div 2 ^ 8), char_of (n div 2 ^ 16), char_of (n div 2 ^ 24)])"

definition un_le32 :: "string \<Rightarrow> 32 word" where
  "un_le32 bs = word_of_nat (of_char (bs ! 0) + 2 ^ 8 * of_char (bs ! 1)
     + 2 ^ 16 * of_char (bs ! 2) + 2 ^ 24 * of_char (bs ! 3))"

definition header_bytes :: "NetPacketHeader \<Rightarrow> string" where
  "header_bytes h = le32 (purpose h) @ le32 (data_size h)"

text \<open>Reading a header back from the 8 bytes of its memory.\<close>

definition header_of_bytes :: "string \<Rightarrow> NetPacketHeader" where
  "header_of_bytes bs = \<lparr>purpose = un_le32 (take 4 bs), data_size = un_le32 (drop 4 bs)\<rparr>"

text \<open>The bytes handed to the transport: \<open>sizeof(NetPacketHeader) + data_size\<close> bytes from \<open>&p\<close>.\<close>

definition packet_bytes :: "NetPacket \<Rightarrow> string" where
  "packet_bytes p = header_bytes (packetHeader p) @ take (unat (data_size (packetHeader p))) (data p)"

lemma length_le32 [simp]: "length (le32 w) = 4"
  by (simp add: le32_def Let_def)

lemma length_header_bytes [simp]: "length (header_bytes h) = header_size"
  by (simp add: header_bytes_def header_size_def)

lemma bytes_sum:
  fixes n :: nat
  assumes "n < 2 ^ 32"
  shows "n mod 256 + 2 ^ 8 * (n div 2 ^ 8 mod 256) + 2 ^ 16 * (n div 2 ^ 16 mod 256)
    + 2 ^ 24 * (n div 2 ^ 24) = n"
proof -
  define a b c where "a = n div 256" and "b = a div 256" and "c = b div 256"
  have d: "n div 2 ^ 8 = a" "n div 2 ^ 16 = b" "n div 2 ^ 24 = c"
    by (simp_all add: a_def b_def c_def div_mult2_eq [symmetric])
  have "c < 256" using assms by (simp add: d [symmetric])
  moreover have "n = 256 * a + n mod 256" "a = 256 * b + a mod 256" "b = 256 * c + b mod 256"
    by (simp_all add: a_def b_def c_def)
  ultimately show ?thesis unfolding d by simp
qed

lemma un_le32_le32 [simp]: "un_le32 (le32 w @ r) = w"
proof -
  let ?n = "unat w"
  have lt: "?n < 2 ^ 32" by (rule order_less_le_trans [OF unsigned_less]) simp
  then have "?n div 2 ^ 24 < 256" by simp
  then have "?n div 2 ^ 24 mod 256 = ?n div 2 ^ 24" by (rule mod_less)
  with bytes_sum [OF lt] have "un_le32 (le32 w @ r) = word_of_nat ?n"
    unfolding un_le32_def le32_def Let_def
    by (intro arg_cong [where f = word_of_nat]) (simp add: of_char_of)
  then show ?thesis by simp
qed

lemma un_le32_le32' [simp]: "un_le32 (le32 w) = w"
  using un_le32_le32 [of w "[]"] by simp

lemma header_roundtrip [simp]: "header_of_bytes (header_bytes h @ r) = h"
  by (simp add: header_of_bytes_def header_bytes_def)

end
