(* ===== verification/Snowflake.thy ===== *)
theory Snowflake
  imports Prelude
begin

unbundle bit_operations_syntax

text \<open>
  \<^verbatim>\<open>snowflakeidworker.h\<close> and \<^verbatim>\<open>snowflakeidworker.cpp\<close>: the generator of the 64-bit ids used for
  videos, comments and chat images.  The clock is a parameter: a reading takes the outside
  world to a millisecond count and a new world.  Waiting for the next millisecond may not
  return, so it is a partial function.  The theory shows the layout of an id, that ids strictly
  increase, that a run of calls never repeats one, and when the call returns.
\<close>

section \<open>The code\<close>

record IdWorker =
  workerId :: "32 word"
  datacenterId :: "32 word"
  sequence :: "32 word"
  lastTimestamp :: "64 word"

type_synonym 'w clock = "'w \<Rightarrow> 64 word \<times> 'w"

definition twepoch :: "64 word" where
  "twepoch = 1514736000000"

definition sequenceMask :: "32 word" where
  "sequenceMask = (- 1) XOR (push_bit 12 (- 1))"

text \<open>The constructor: its initialiser list overrides the defaults of the class.\<close>

definition new_IdWorker :: IdWorker where
  "new_IdWorker = \<lparr>workerId = 0, datacenterId = 0, sequence = 0, lastTimestamp = 0\<rparr>"

definition setWorkerId :: "32 word \<Rightarrow> IdWorker \<Rightarrow> IdWorker" where
  "setWorkerId v s = s\<lparr>workerId := v\<rparr>"

definition setDatacenterId :: "32 word \<Rightarrow> IdWorker \<Rightarrow> IdWorker" where
  "setDatacenterId v s = s\<lparr>datacenterId := v\<rparr>"

partial_function (option) tilNextMillis :: "'w clock \<Rightarrow> 64 word \<Rightarrow> 'w \<Rightarrow> (64 word \<times> 'w) option" where
  "tilNextMillis clk lastTs w = (case clk w of (timestamp, w') \<Rightarrow>
     if timestamp \<le> lastTs then tilNextMillis clk lastTs w' else Some (timestamp, w'))"

definition compose_id :: "64 word \<Rightarrow> IdWorker \<Rightarrow> 64 word" where
  "compose_id timestamp s =
     ((push_bit 22 (timestamp - twepoch) OR ucast (push_bit 17 (datacenterId s)))
       OR ucast (push_bit 12 (workerId s))) OR ucast (sequence s)"

definition nextId :: "'w clock \<Rightarrow> IdWorker \<times> 'w \<Rightarrow> ((exn + 64 word) \<times> IdWorker \<times> 'w) option" where
  "nextId clk sw = (case sw of (s, w) \<Rightarrow> case clk w of (timestamp, w1) \<Rightarrow>
     if timestamp < lastTimestamp s
     then Some (Inl (Clock_backwards (lastTimestamp s - timestamp)), s, w1)
     else if lastTimestamp s = timestamp
     then (let s1 = s\<lparr>sequence := (sequence s + 1) AND sequenceMask\<rparr> in
           if sequence s1 = 0
           then (case tilNextMillis clk (lastTimestamp s) w1 of
                   None \<Rightarrow> None
                 | Some (t2, w2) \<Rightarrow>
                     let s2 = s1\<lparr>lastTimestamp := t2\<rparr> in Some (Inr (compose_id t2 s2), s2, w2))
           else Some (Inr (compose_id timestamp s1), s1, w1))
     else (let s1 = s\<lparr>sequence := 0, lastTimestamp := timestamp\<rparr> in
           Some (Inr (compose_id timestamp s1), s1, w1)))"

definition getId :: "'w clock \<Rightarrow> IdWorker \<times> 'w \<Rightarrow> ((exn + 64 word) \<times> IdWorker \<times> 'w) option" where
  "getId clk sw = nextId clk sw"

text \<open>A client that asks for ids in a row, and keeps those it gets until the first failure.\<close>

fun draw :: "('s \<Rightarrow> ((exn + 64 word) \<times> 's) option) \<Rightarrow> nat \<Rightarrow> 's \<Rightarrow> (64 word list \<times> 's) option" where
  "draw next_id 0 s = Some ([], s)"
| "draw next_id (Suc n) s = (case next_id s of
     None \<Rightarrow> None
   | Some (Inl e, s') \<Rightarrow> Some ([], s')
   | Some (Inr i, s') \<Rightarrow> (case draw next_id n s' of
        None \<Rightarrow> None
      | Some (ids, s'') \<Rightarrow> Some (i # ids, s'')))"

section \<open>The interface: a source of fresh ids\<close>

text \<open>
  What the controls rely on.  \<open>free s\<close> is the least number not yet handed out: an id is never
  below it, and handing one out moves it just past that id; a refused call leaves it alone.
\<close>

locale id_source =
  fixes next_id :: "'s \<Rightarrow> ((exn + 64 word) \<times> 's) option"
    and inv :: "'s \<Rightarrow> bool"
    and free :: "'s \<Rightarrow> nat"
  assumes id_fresh: "inv s \<Longrightarrow> next_id s = Some (Inr i, s') \<Longrightarrow>
      inv s' \<and> free s \<le> unat i \<and> free s' = Suc (unat i)"
    and id_refused: "inv s \<Longrightarrow> next_id s = Some (Inl e, s') \<Longrightarrow> inv s' \<and> free s' = free s"
begin

lemma next_inv: "inv s \<Longrightarrow> next_id s = Some (r, s') \<Longrightarrow> inv s'"
  by (cases r) (auto dest: id_fresh id_refused)

lemma draw_ids_spec:
  assumes "inv s" and "draw next_id n s = Some (ids, s')"
  shows "inv s' \<and> sorted_wrt (<) ids \<and> (\<forall>i \<in> set ids. free s \<le> unat i \<and> unat i < free s') \<and> free s \<le> free s'"
  using assms
proof (induction n arbitrary: s ids s')
  case 0
  then show ?case by auto
next
  case (Suc n)
  from Suc.prems(2) consider (refused) e where "next_id s = Some (Inl e, s')" "ids = []"
    | (given) i s1 ids1 where "next_id s = Some (Inr i, s1)" "draw next_id n s1 = Some (ids1, s')" "ids = i # ids1"
    by (auto split: option.splits sum.splits)
  then show ?case
  proof cases
    case refused
    with id_refused [OF Suc.prems(1)] show ?thesis by auto
  next
    case given
    from id_fresh [OF Suc.prems(1) given(1)]
    have 1: "inv s1" "free s \<le> unat i" "free s1 = Suc (unat i)" by auto
    from Suc.IH [OF 1(1) given(2)] have
      2: "inv s'" "sorted_wrt (<) ids1" "\<forall>j \<in> set ids1. free s1 \<le> unat j \<and> unat j < free s'" "free s1 \<le> free s'"
      by auto
    then have "\<forall>j \<in> set ids1. i < j" using 1(3) by (auto simp: word_less_nat_alt)
    with 1 2 given(3) show ?thesis by auto
  qed
qed

lemma draw_distinct:
  assumes "inv s" and "draw next_id n s = Some (ids, s')"
  shows "distinct ids"
proof -
  from draw_ids_spec [OF assms] have "sorted_wrt (<) ids" by simp
  then show ?thesis by (simp add: strict_sorted_iff)
qed

end

section \<open>Well-formed workers\<close>

text \<open>The fields fit their bit ranges; what \<open>setWorkerId\<close> and \<open>setDatacenterId\<close> do not check.\<close>

definition id_wf :: "IdWorker \<Rightarrow> bool" where
  "id_wf s \<longleftrightarrow> unat (workerId s) < 32 \<and> unat (datacenterId s) < 32 \<and> unat (sequence s) < 4096"

text \<open>A timestamp whose distance to the epoch fits the 42 bits left of the shift.\<close>

definition ts_ok :: "64 word \<Rightarrow> bool" where
  "ts_ok t \<longleftrightarrow> twepoch \<le> t \<and> unat (t - twepoch) < 2 ^ 42"

definition raw_id :: "nat \<Rightarrow> IdWorker \<Rightarrow> nat" where
  "raw_id d s = d * 2 ^ 22 + unat (datacenterId s) * 2 ^ 17 + unat (workerId s) * 2 ^ 12 + unat (sequence s)"

lemma sequenceMask_eq [simp]: "sequenceMask = mask 12"
  by (simp add: sequenceMask_def mask_eq_exp_minus_1)

lemma new_IdWorker_wf [simp]: "id_wf new_IdWorker"
  by (simp add: id_wf_def new_IdWorker_def)

lemma unat_and_mask: "unat (x AND mask 12 :: 32 word) = unat x mod 4096"
  by (simp flip: take_bit_eq_mask add: unsigned_take_bit_eq take_bit_eq_mod unat_mod_distrib)

lemma unat_or_plus:
  fixes a b :: "64 word"
  assumes "2 ^ n dvd unat a" and "unat b < 2 ^ n"
  shows "unat (a OR b) = unat a + unat b"
proof -
  have a: "take_bit n (unat a) = 0" using assms(1) by (simp add: take_bit_eq_mod)
  have b: "take_bit n (unat b) = unat b" using assms(2) by (simp add: take_bit_nat_eq_self_iff)
  have "unat a AND unat b = 0"
  proof (rule bit_eqI)
    fix k
    show "bit (unat a AND unat b) k \<longleftrightarrow> bit 0 k"
    proof (cases "k < n")
      case True
      with a have "\<not> bit (unat a) k" by (metis bit_take_bit_iff bit_0_eq bot_apply bot_bool_def)
      then show ?thesis by (simp only: bit_and_iff bit_0_eq) simp
    next
      case False
      with b have "\<not> bit (unat b) k" by (metis bit_take_bit_iff)
      then show ?thesis by (simp only: bit_and_iff bit_0_eq) simp
    qed
  qed
  then show ?thesis by (simp add: disjunctive_add_eq_or unsigned_or_eq)
qed

lemma unat_ucast_push:
  fixes v :: "32 word"
  assumes "unat v < 2 ^ k" and "n + k \<le> 32"
  shows "unat (ucast (push_bit n v) :: 64 word) = unat v * 2 ^ n"
proof -
  have "unat v * 2 ^ n < 2 ^ (k + n)" using assms(1) by (simp add: power_add)
  also have "(2::nat) ^ (k + n) \<le> 2 ^ 32" by (rule power_increasing) (use assms(2) in simp_all)
  finally have lt: "unat v * 2 ^ n < 2 ^ 32" .
  have "unat (push_bit n v) = take_bit 32 (push_bit n (unat v))"
    by (simp add: unsigned_push_bit_eq)
  also have "\<dots> = unat v * 2 ^ n mod 2 ^ 32"
    by (simp only: take_bit_eq_mod push_bit_eq_mult)
  finally have "unat (push_bit n v) = unat v * 2 ^ n mod 2 ^ 32" .
  with lt have "unat (push_bit n v) = unat v * 2 ^ n" by simp
  then show ?thesis by (simp add: unsigned_ucast_eq take_bit_nat_eq_self_iff order_less_trans [OF lt])
qed

lemma unat_push_64:
  fixes v :: "64 word"
  assumes "unat v < 2 ^ k" and "n + k \<le> 64"
  shows "unat (push_bit n v) = unat v * 2 ^ n"
proof -
  have "unat v * 2 ^ n < 2 ^ (k + n)" using assms(1) by (simp add: power_add)
  also have "(2::nat) ^ (k + n) \<le> 2 ^ 64" by (rule power_increasing) (use assms(2) in simp_all)
  finally have lt: "unat v * 2 ^ n < 2 ^ 64" .
  have "unat (push_bit n v) = take_bit 64 (push_bit n (unat v))"
    by (simp add: unsigned_push_bit_eq)
  also have "\<dots> = unat v * 2 ^ n mod 2 ^ 64"
    by (simp only: take_bit_eq_mod push_bit_eq_mult)
  finally show ?thesis using lt by simp
qed

section \<open>The layout of an id\<close>

lemma split_fields:
  fixes n d c k q :: nat
  assumes n: "n = ((d * 32 + c) * 32 + k) * 4096 + q" and "q < 4096" and "k < 32" and "c < 32"
  shows "n div 4194304 = d" and "n div 131072 mod 32 = c" and "n div 4096 mod 32 = k" and "n mod 4096 = q"
proof -
  obtain y where y: "y = d * 32 + c" by simp
  obtain x where x: "x = y * 32 + k" by simp
  have n': "n = x * 4096 + q" by (simp only: n x y)
  have q: "n div 4096 = x" "n mod 4096 = q" unfolding n' by (rule div_digit mod_digit, rule assms)+
  have k: "x div 32 = y" "x mod 32 = k" unfolding x by (rule div_digit mod_digit, rule assms)+
  have c: "y div 32 = d" "y mod 32 = c" unfolding y by (rule div_digit mod_digit, rule assms)+
  have "n div 131072 = n div 4096 div 32" "n div 4194304 = n div 4096 div 32 div 32"
    by (simp_all add: div_mult2_eq [symmetric])
  then show "n div 4194304 = d" "n div 131072 mod 32 = c" "n div 4096 mod 32 = k" "n mod 4096 = q"
    by (simp_all only: q k c)
qed

text \<open>The four fields occupy disjoint bit ranges, so the disjunctions are additions.\<close>

lemma unat_compose_id:
  assumes wf: "id_wf s" and d: "unat (t - twepoch) < 2 ^ 42"
  shows "unat (compose_id t s) = raw_id (unat (t - twepoch)) s"
proof -
  let ?D = "ucast (push_bit 17 (datacenterId s)) :: 64 word"
  let ?W = "ucast (push_bit 12 (workerId s)) :: 64 word"
  let ?S = "ucast (sequence s) :: 64 word"
  let ?T = "push_bit 22 (t - twepoch)"
  let ?d = "unat (t - twepoch)"
  have D: "unat ?D = unat (datacenterId s) * 2 ^ 17"
    by (rule unat_ucast_push [where k = 5]) (use wf in \<open>simp_all add: id_wf_def\<close>)
  have W: "unat ?W = unat (workerId s) * 2 ^ 12"
    by (rule unat_ucast_push [where k = 5]) (use wf in \<open>simp_all add: id_wf_def\<close>)
  have S: "unat ?S = unat (sequence s)"
    using wf by (simp add: id_wf_def unsigned_ucast_eq take_bit_nat_eq_self_iff)
  have T: "unat ?T = ?d * 2 ^ 22" by (rule unat_push_64 [OF d]) simp
  have TD: "unat (?T OR ?D) = ?d * 2 ^ 22 + unat (datacenterId s) * 2 ^ 17"
    using wf by (subst unat_or_plus [where n = 22]) (auto simp: T D id_wf_def)
  have TDW: "unat ((?T OR ?D) OR ?W) = ?d * 2 ^ 22 + unat (datacenterId s) * 2 ^ 17 + unat (workerId s) * 2 ^ 12"
    using wf by (subst unat_or_plus [where n = 17]) (auto simp: TD W id_wf_def intro: dvd_add)
  show ?thesis
    unfolding compose_id_def raw_id_def
    using wf by (subst unat_or_plus [where n = 12]) (auto simp: TDW S id_wf_def intro: dvd_add)
qed

section \<open>Ids increase\<close>

lemma tilNextMillis_gt:
  assumes "tilNextMillis clk lastTs w = Some (t, w')"
  shows "lastTs < t"
proof -
  have "lastTs < fst (t, w')"
  proof (rule tilNextMillis.raw_induct [where P = "\<lambda>clk lastTs w r. lastTs < fst r", OF _ assms])
    fix f :: "('a \<Rightarrow> 64 word \<times> 'a) \<Rightarrow> 64 word \<Rightarrow> 'a \<Rightarrow> (64 word \<times> 'a) option"
      and clk :: "'a \<Rightarrow> 64 word \<times> 'a" and lastTs w r
    assume "\<And>clk lastTs w r. f clk lastTs w = Some r \<Longrightarrow> lastTs < fst r"
      and "(case clk w of (ts, w') \<Rightarrow> if ts \<le> lastTs then f clk lastTs w' else Some (ts, w')) = Some r"
    then show "lastTs < fst r" by (auto simp: case_prod_beta split: if_splits)
  qed
  then show ?thesis by simp
qed

lemma unat_next_sequence:
  assumes "id_wf s"
  shows "unat ((sequence s + 1) AND mask 12) = Suc (unat (sequence s)) mod 4096"
proof -
  have "unat (sequence s + 1) = Suc (unat (sequence s))"
    using assms by (simp add: unat_word_ariths id_wf_def)
  then show ?thesis by (simp add: unat_and_mask)
qed

text \<open>What a successful call does to the worker.\<close>

lemma nextId_Inr:
  assumes call: "nextId clk (s, w) = Some (Inr i, s', w')" and wf: "id_wf s"
  shows "i = compose_id (lastTimestamp s') s'" and "workerId s' = workerId s"
    and "datacenterId s' = datacenterId s" and "id_wf s'"
    and "lastTimestamp s < lastTimestamp s' \<and> sequence s' = 0
       \<or> lastTimestamp s' = lastTimestamp s \<and> unat (sequence s') = Suc (unat (sequence s))"
proof -
  obtain t w1 where clk: "clk w = (t, w1)" by force
  note seq = unat_next_sequence [OF wf]
  let ?n = "(sequence s + 1) AND mask 12"
  from call clk consider
      (tick) "lastTimestamp s < t" "s' = s\<lparr>sequence := 0, lastTimestamp := t\<rparr>" "i = compose_id t s'"
    | (same) "t = lastTimestamp s" "?n \<noteq> 0" "s' = s\<lparr>sequence := ?n\<rparr>" "i = compose_id t s'"
    | (full) t2 w2 where "t = lastTimestamp s" "?n = 0" "tilNextMillis clk (lastTimestamp s) w1 = Some (t2, w2)"
        "s' = s\<lparr>sequence := ?n, lastTimestamp := t2\<rparr>" "i = compose_id t2 s'"
    by (auto simp: nextId_def Let_def not_less order.order_iff_strict split: if_splits option.splits)
  then have "i = compose_id (lastTimestamp s') s' \<and> workerId s' = workerId s \<and> datacenterId s' = datacenterId s
    \<and> id_wf s' \<and> (lastTimestamp s < lastTimestamp s' \<and> sequence s' = 0
       \<or> lastTimestamp s' = lastTimestamp s \<and> unat (sequence s') = Suc (unat (sequence s)))"
  proof cases
    case tick
    with wf show ?thesis by (simp add: id_wf_def)
  next
    case same
    then have "Suc (unat (sequence s)) mod 4096 \<noteq> 0" using seq by (metis unat_eq_zero)
    moreover have "Suc (unat (sequence s)) \<le> 4096" using wf by (simp add: id_wf_def Suc_le_eq)
    ultimately have "unat ?n = Suc (unat (sequence s))" and "unat ?n < 4096"
      unfolding seq by (auto simp: le_less)
    with same wf show ?thesis by (simp add: id_wf_def)
  next
    case full
    with wf tilNextMillis_gt [OF full(3)] show ?thesis by (simp add: id_wf_def)
  qed
  then show "i = compose_id (lastTimestamp s') s'" and "workerId s' = workerId s"
    and "datacenterId s' = datacenterId s" and "id_wf s'"
    and "lastTimestamp s < lastTimestamp s' \<and> sequence s' = 0
       \<or> lastTimestamp s' = lastTimestamp s \<and> unat (sequence s') = Suc (unat (sequence s))" by blast+
qed

text \<open>A refused call (the clock went back) leaves the worker as it was.\<close>

lemma nextId_Inl:
  assumes "nextId clk (s, w) = Some (Inl e, s', w')"
  shows "s' = s" and "\<exists>t. e = Clock_backwards (lastTimestamp s - t) \<and> t < lastTimestamp s \<and> t = fst (clk w)"
  using assms by (auto simp: nextId_def Let_def split: if_splits option.splits prod.splits)

section \<open>The worker is an id source\<close>

definition clock_in_range :: "'w clock \<Rightarrow> bool" where
  "clock_in_range clk \<longleftrightarrow> (\<forall>w. ts_ok (fst (clk w)))"

definition snow_inv :: "'w clock \<Rightarrow> IdWorker \<times> 'w \<Rightarrow> bool" where
  "snow_inv clk sw \<longleftrightarrow> clock_in_range clk \<and> id_wf (fst sw)
     \<and> (lastTimestamp (fst sw) < twepoch \<or> ts_ok (lastTimestamp (fst sw)))"

definition snow_free :: "IdWorker \<times> 'w \<Rightarrow> nat" where
  "snow_free sw = (if lastTimestamp (fst sw) < twepoch then 0
     else Suc (raw_id (unat (lastTimestamp (fst sw) - twepoch)) (fst sw)))"

lemma unat_since_epoch:
  "twepoch \<le> t \<Longrightarrow> unat (t - twepoch) = unat t - unat twepoch"
  by (simp add: unat_sub)

lemma since_epoch_mono:
  assumes "twepoch \<le> t" and "t < u"
  shows "unat (t - twepoch) < unat (u - twepoch)"
proof -
  have "twepoch \<le> u" using assms by simp
  with assms show ?thesis
    by (simp add: unat_since_epoch word_le_nat_alt word_less_nat_alt diff_less_mono)
qed

lemma raw_id_less:
  assumes "id_wf s" and "id_wf s'" and "workerId s' = workerId s" and "datacenterId s' = datacenterId s"
    and "d < d' \<or> d = d' \<and> unat (sequence s) < unat (sequence s')"
  shows "raw_id d s < raw_id d' s'"
  using assms(5)
proof
  assume "d < d'"
  then have "Suc d * 2 ^ 22 \<le> d' * 2 ^ 22" by (intro mult_right_mono) auto
  with assms(1-4) show ?thesis by (simp add: raw_id_def id_wf_def)
next
  assume "d = d' \<and> unat (sequence s) < unat (sequence s')"
  with assms(3,4) show ?thesis by (simp add: raw_id_def)
qed

text \<open>The timestamp a successful call records was read from the clock or was already recorded.\<close>

lemma tilNextMillis_read:
  assumes "clock_in_range clk" and "tilNextMillis clk lastTs w = Some (t, w')"
  shows "ts_ok t"
proof -
  have "clock_in_range clk \<longrightarrow> ts_ok (fst (t, w'))"
  proof (rule tilNextMillis.raw_induct
      [where P = "\<lambda>clk lastTs w r. clock_in_range clk \<longrightarrow> ts_ok (fst r)", OF _ assms(2)])
    fix f :: "('a \<Rightarrow> 64 word \<times> 'a) \<Rightarrow> 64 word \<Rightarrow> 'a \<Rightarrow> (64 word \<times> 'a) option"
      and clk :: "'a \<Rightarrow> 64 word \<times> 'a" and lastTs w r
    assume IH: "\<And>clk lastTs w r. f clk lastTs w = Some r \<Longrightarrow> clock_in_range clk \<longrightarrow> ts_ok (fst r)"
      and eq: "(case clk w of (ts, w') \<Rightarrow> if ts \<le> lastTs then f clk lastTs w' else Some (ts, w')) = Some r"
    show "clock_in_range clk \<longrightarrow> ts_ok (fst r)"
    proof (cases "fst (clk w) \<le> lastTs")
      case True
      with eq have "f clk lastTs (snd (clk w)) = Some r" by (simp add: case_prod_beta)
      then show ?thesis by (rule IH)
    next
      case False
      with eq have "r = clk w" by (simp add: case_prod_beta)
      then show ?thesis by (simp add: clock_in_range_def)
    qed
  qed
  with assms(1) show ?thesis by simp
qed

lemma nextId_ts_ok:
  assumes "nextId clk (s, w) = Some (Inr i, s', w')" and "clock_in_range clk"
  shows "ts_ok (lastTimestamp s')"
proof -
  have "ts_ok (fst (clk w))" using assms(2) by (simp add: clock_in_range_def)
  with assms show ?thesis
    by (cases "clk w") (auto simp: nextId_def Let_def dest: tilNextMillis_read split: if_splits option.splits)
qed

interpretation snow: id_source "nextId clk" "snow_inv clk" snow_free for clk :: "'w clock"
proof
  fix sw i sw' assume inv: "snow_inv clk sw" and call: "nextId clk sw = Some (Inr i, sw')"
  obtain s w s' w' where sw: "sw = (s, w)" "sw' = (s', w')" by (metis surj_pair)
  from inv sw have wf: "id_wf s" and clk: "clock_in_range clk"
    and old: "lastTimestamp s < twepoch \<or> ts_ok (lastTimestamp s)" by (auto simp: snow_inv_def)
  note step = nextId_Inr [OF call [unfolded sw] wf]
  from nextId_ts_ok [OF call [unfolded sw] clk] have new: "ts_ok (lastTimestamp s')" .
  then have i: "unat i = raw_id (unat (lastTimestamp s' - twepoch)) s'"
    unfolding step(1) by (intro unat_compose_id step(4)) (simp add: ts_ok_def)
  have free: "snow_free sw' = Suc (unat i)"
    using new by (simp add: snow_free_def sw i ts_ok_def not_less)
  have "snow_free sw \<le> unat i"
  proof (cases "lastTimestamp s < twepoch")
    case True
    then show ?thesis by (simp add: snow_free_def sw)
  next
    case False
    then have "twepoch \<le> lastTimestamp s" by simp
    with step(5) have "unat (lastTimestamp s - twepoch) < unat (lastTimestamp s' - twepoch) \<or>
        unat (lastTimestamp s - twepoch) = unat (lastTimestamp s' - twepoch) \<and> unat (sequence s) < unat (sequence s')"
      by (auto simp: since_epoch_mono)
    from raw_id_less [OF wf step(4) step(2) step(3) this] False show ?thesis
      by (simp add: snow_free_def sw i)
  qed
  with new clk step(4) free show "snow_inv clk sw' \<and> snow_free sw \<le> unat i \<and> snow_free sw' = Suc (unat i)"
    by (simp add: snow_inv_def sw)
next
  fix sw e sw' assume "snow_inv clk sw" and call: "nextId clk sw = Some (Inl e, sw')"
  moreover have "fst sw' = fst sw"
    using call nextId_Inl(1) by (metis prod.collapse)
  ultimately show "snow_inv clk sw' \<and> snow_free sw' = snow_free sw"
    by (simp add: snow_inv_def snow_free_def)
qed

section \<open>When the wait for the next millisecond ends\<close>

text \<open>The \<open>k\<close>-th reading of a clock from a world.\<close>

definition reading :: "'w clock \<Rightarrow> 'w \<Rightarrow> nat \<Rightarrow> 64 word" where
  "reading clk w k = fst (clk (((\<lambda>w. snd (clk w)) ^^ k) w))"

lemma reading_Suc: "reading clk w (Suc k) = reading clk (snd (clk w)) k"
  by (simp add: reading_def funpow_Suc_right del: funpow.simps)

lemma tilNextMillis_advances:
  "\<exists>k. lastTs < reading clk w k \<Longrightarrow> \<exists>r. tilNextMillis clk lastTs w = Some r"
proof -
  assume "\<exists>k. lastTs < reading clk w k"
  then obtain k where "lastTs < reading clk w k" by blast
  then show ?thesis
  proof (induction k arbitrary: w)
    case 0
    then show ?case
      by (subst tilNextMillis.simps) (simp add: reading_def case_prod_beta not_le [symmetric])
  next
    case (Suc k)
    then have "\<exists>r. tilNextMillis clk lastTs (snd (clk w)) = Some r" by (simp add: reading_Suc)
    then show ?case by (subst tilNextMillis.simps) (simp add: case_prod_beta)
  qed
qed

lemma tilNextMillis_reading:
  assumes "tilNextMillis clk lastTs w = Some r"
  shows "\<exists>k. lastTs < reading clk w k"
proof (rule tilNextMillis.raw_induct [where P = "\<lambda>clk lastTs w r. \<exists>k. lastTs < reading clk w k", OF _ assms])
  fix f :: "('a \<Rightarrow> 64 word \<times> 'a) \<Rightarrow> 64 word \<Rightarrow> 'a \<Rightarrow> (64 word \<times> 'a) option"
    and clk :: "'a \<Rightarrow> 64 word \<times> 'a" and lastTs w r
  assume IH: "\<And>clk lastTs w r. f clk lastTs w = Some r \<Longrightarrow> \<exists>k. lastTs < reading clk w k"
    and eq: "(case clk w of (ts, w') \<Rightarrow> if ts \<le> lastTs then f clk lastTs w' else Some (ts, w')) = Some r"
  show "\<exists>k. lastTs < reading clk w k"
  proof (cases "fst (clk w) \<le> lastTs")
    case True
    with eq have "\<exists>k. lastTs < reading clk (snd (clk w)) k" by (intro IH) (simp add: case_prod_beta)
    then show ?thesis by (metis reading_Suc)
  next
    case False
    then have "lastTs < reading clk w 0" by (simp add: reading_def)
    then show ?thesis ..
  qed
qed

section \<open>Properties\<close>



text \<open>
  the layout of an id.  Shifting and masking an id recovers the milliseconds since the epoch,
  the data centre, the worker and the sequence number it was made from.
\<close>

theorem snowflake_layout:
  assumes "id_wf s" and "unat (t - twepoch) < 2 ^ 42"
  shows "unat (compose_id t s) div 2 ^ 22 = unat (t - twepoch)
    \<and> unat (compose_id t s) div 2 ^ 17 mod 2 ^ 5 = unat (datacenterId s)
    \<and> unat (compose_id t s) div 2 ^ 12 mod 2 ^ 5 = unat (workerId s)
    \<and> unat (compose_id t s) mod 2 ^ 12 = unat (sequence s)"
proof -
  let ?d = "unat (t - twepoch)" and ?c = "unat (datacenterId s)" and ?k = "unat (workerId s)" and ?q = "unat (sequence s)"
  have b: "?c < 32" "?k < 32" "?q < 4096" using assms(1) by (simp_all add: id_wf_def)
  have "unat (compose_id t s) = ((?d * 32 + ?c) * 32 + ?k) * 4096 + ?q"
    by (simp add: unat_compose_id [OF assms] raw_id_def algebra_simps)
  from split_fields [OF this b(3,2,1)] show ?thesis by simp
qed

theorem snowflake_layout_witness:
  "unat (compose_id (twepoch + 7) (setWorkerId 5 (setDatacenterId 12 new_IdWorker))) div 2 ^ 17 mod 2 ^ 5 = 12"
  using snowflake_layout [of "setWorkerId 5 (setDatacenterId 12 new_IdWorker)" "twepoch + 7"]
  by (simp add: id_wf_def new_IdWorker_def setWorkerId_def setDatacenterId_def)

text \<open>
  C17: A call for an id comes back exactly when it does not have to wait, or the clock eventually
  reads a later millisecond: it hangs on a full sequence (4096 ids in one millisecond) with a
  clock that never advances, and only then.
\<close>

theorem nextId_returns:
  "nextId clk (s, w) = None \<longleftrightarrow>
     lastTimestamp s = reading clk w 0 \<and> (sequence s + 1) AND sequenceMask = 0
     \<and> (\<forall>k. reading clk w (Suc k) \<le> lastTimestamp s)"
proof -
  obtain t w1 where clk: "clk w = (t, w1)" by force
  have wait: "tilNextMillis clk (lastTimestamp s) w1 = None \<longleftrightarrow> (\<forall>k. reading clk w1 k \<le> lastTimestamp s)"
    using tilNextMillis_advances [of "lastTimestamp s" clk w1] tilNextMillis_reading [of clk "lastTimestamp s" w1]
    by (metis not_None_eq not_less)
  show ?thesis
    using wait by (auto simp: nextId_def Let_def clk reading_Suc reading_def [of clk w 0] split: option.splits)
qed

end
