(* ===== verification/Runtime.thy ===== *)
theory Runtime
  imports Config Snowflake
begin

text \<open>
  The state of the server process and its surroundings.  Everything outside this repository is
  a parameter: the record \<open>ext\<close> holds the POSIX socket calls, the Boost.Asio calls, the database
  client, the file system, the clock and the iteration order of \<^verbatim>\<open>std::unordered_map\<close>, each a
  function on an abstract outside world \<^typ>\<open>'w\<close>.  Besides that world the state holds the
  program's own data (one field per singleton) and \<open>calls\<close>, the record of the visible calls made
  so far in order; \<open>calls\<close> is never read by the program.
\<close>

section \<open>Services outside the program\<close>

datatype recv_result = Received string | Recv_eintr | Recv_error

datatype send_result = Accepted nat | Send_eintr | Send_error

text \<open>How an asynchronous receive completes, and what a non-blocking accept returns.\<close>

datatype receive_event = Bytes string | Eof | Aborted | Failed

datatype accept_result = New_connection int string | No_connection

text \<open>What the status evaluator keeps of a connection: address, user, missed heartbeats.\<close>

record Info =
  ip :: string
  userId :: string
  num :: int

record 'w ext =
  sys_recv :: "int \<Rightarrow> nat \<Rightarrow> bool \<Rightarrow> 'w \<Rightarrow> recv_result \<times> 'w"
  sys_send :: "int \<Rightarrow> string \<Rightarrow> 'w \<Rightarrow> send_result \<times> 'w"
  sys_close :: "int \<Rightarrow> 'w \<Rightarrow> 'w"
  epoll_add :: "int \<Rightarrow> bool \<Rightarrow> 'w \<Rightarrow> 'w"
  epoll_del :: "int \<Rightarrow> 'w \<Rightarrow> 'w"
  sys_accept :: "int \<Rightarrow> 'w \<Rightarrow> accept_result \<times> 'w"
  asio_receive :: "nat \<Rightarrow> nat \<Rightarrow> 'w \<Rightarrow> receive_event \<times> 'w"
  asio_read :: "nat \<Rightarrow> nat \<Rightarrow> 'w \<Rightarrow> string option \<times> 'w"
  asio_write :: "nat \<Rightarrow> string \<Rightarrow> 'w \<Rightarrow> nat option \<times> 'w"
  asio_close :: "nat \<Rightarrow> 'w \<Rightarrow> 'w"
  asio_endpoint :: "nat \<Rightarrow> 'w \<Rightarrow> bool"
  mysql_execute :: "string \<Rightarrow> 'w \<Rightarrow> bool \<times> 'w"
  mysql_store :: "string \<Rightarrow> 'w \<Rightarrow> string list list option \<times> 'w"
  cell_int :: "string \<Rightarrow> int option"
  cell_bool :: "string \<Rightarrow> bool option"
  file_stat :: "string \<Rightarrow> 'w \<Rightarrow> nat option"
  file_is_open :: "string \<Rightarrow> 'w \<Rightarrow> bool"
  file_read :: "string \<Rightarrow> nat \<Rightarrow> 'w \<Rightarrow> string"
  file_write :: "string \<Rightarrow> string \<Rightarrow> 'w \<Rightarrow> 'w"
  file_remove :: "string \<Rightarrow> 'w \<Rightarrow> bool \<times> 'w"
  clock_ms :: "'w \<Rightarrow> 64 word \<times> 'w"
  fresh_heap :: "nat \<Rightarrow> 'w \<Rightarrow> string"
  map_order :: "(string \<rightharpoonup> string) \<Rightarrow> (string \<times> string) list"
  fd_order :: "(int \<rightharpoonup> Info) \<Rightarrow> (int \<times> Info) list"
  sock_order :: "(nat \<rightharpoonup> Info) \<Rightarrow> (nat \<times> Info) list"
  make_directory :: "string \<Rightarrow> 'w \<Rightarrow> bool \<times> 'w"
  mysql_connect :: "'w \<Rightarrow> bool \<times> 'w"
  asio_listen :: "nat \<Rightarrow> 'w \<Rightarrow> bool \<times> 'w"
  sys_socket :: "'w \<Rightarrow> int \<times> 'w"
  sys_bind :: "int \<Rightarrow> nat \<Rightarrow> 'w \<Rightarrow> bool \<times> 'w"
  sys_listen :: "int \<Rightarrow> nat \<Rightarrow> 'w \<Rightarrow> bool \<times> 'w"
  sys_epoll_create :: "'w \<Rightarrow> int \<times> 'w"
  sys_epoll_wait :: "nat \<Rightarrow> 'w \<Rightarrow> int list option \<times> 'w"

text \<open>
  The order in which an \<^verbatim>\<open>unordered_map\<close> is walked is not specified; what is documented is that
  every entry comes up exactly once.
\<close>

definition enumerates :: "('k \<times> 'v) list \<Rightarrow> ('k \<rightharpoonup> 'v) \<Rightarrow> bool" where
  "enumerates es m \<longleftrightarrow> distinct (map fst es) \<and> map_of es = m"

definition walks :: "(('k \<rightharpoonup> 'v) \<Rightarrow> ('k \<times> 'v) list) \<Rightarrow> bool" where
  "walks order \<longleftrightarrow> (\<forall>m. finite (dom m) \<longrightarrow> enumerates (order m) m)"

lemma walksD: "walks order \<Longrightarrow> finite (dom m) \<Longrightarrow> enumerates (order m) m"
  by (simp add: walks_def)

text \<open>One such order, by increasing key.\<close>

definition sorted_entries :: "('k :: linorder \<rightharpoonup> 'v) \<Rightarrow> ('k \<times> 'v) list" where
  "sorted_entries m = map (\<lambda>k. (k, the (m k))) (sorted_list_of_set (dom m))"

lemma walks_sorted_entries [simp]: "walks sorted_entries"
  unfolding walks_def enumerates_def
proof (intro allI impI conjI)
  fix m :: "'a :: linorder \<rightharpoonup> 'b" assume fin: "finite (dom m)"
  show "distinct (map fst (sorted_entries m))"
    by (simp add: sorted_entries_def comp_def)
  show "map_of (sorted_entries m) = m"
  proof
    fix k
    have "map_of (sorted_entries m) k = (if k \<in> dom m then Some (the (m k)) else None)"
      using fin by (simp add: sorted_entries_def map_of_map_restrict restrict_map_def)
    then show "map_of (sorted_entries m) k = m k" by (cases "m k") (simp_all add: dom_def)
  qed
qed

section \<open>The state of the process\<close>

datatype peer = Fd int | Sock nat

datatype call =
    Execute string
  | Store string
  | Sent peer string
  | Write_file string string
  | Remove_file string
  | Close peer
  | Watch int bool
  | Unwatch int
  | Make_dir string
  | Db_connect
  | Open_port nat

type_synonym 'k users = "'k \<rightharpoonup> Info"

record 'w server =
  world :: 'w
  calls :: "call list"
  m_map :: "int users"
  m_map_boost :: "nat users"
  m_liveList :: "string \<rightharpoonup> string"
  worker :: IdWorker

type_synonym ('w, 'a) srv = "(exn, 'w server, 'a) prog"

definition log_call :: "call \<Rightarrow> 'w server \<Rightarrow> 'w server" where
  "log_call c s = s\<lparr>calls := calls s @ [c]\<rparr>"

text \<open>The bytes handed to one peer, in order, over a stretch of calls.\<close>

fun sent_bytes :: "peer \<Rightarrow> call list \<Rightarrow> string" where
  "sent_bytes p [] = []"
| "sent_bytes p (Sent q bs # cs) = (if q = p then bs @ sent_bytes p cs else sent_bytes p cs)"
| "sent_bytes p (c # cs) = sent_bytes p cs"

lemma sent_bytes_append: "sent_bytes p (cs @ ds) = sent_bytes p cs @ sent_bytes p ds"
  by (induction p cs rule: sent_bytes.induct) auto

section \<open>Calls to the outside\<close>

text \<open>\<^verbatim>\<open>DbBroker::query_execute\<close> and \<^verbatim>\<open>DbBroker::query_store\<close>.\<close>

definition query_execute :: "'w ext \<Rightarrow> string \<Rightarrow> ('w, bool) srv" where
  "query_execute E command s = (case mysql_execute E command (world s) of (ok, w) \<Rightarrow>
     Some (Inr ok, log_call (Execute command) (s\<lparr>world := w\<rparr>)))"

definition query_store :: "'w ext \<Rightarrow> string \<Rightarrow> ('w, string list list option) srv" where
  "query_store E command s = (case mysql_store E command (world s) of (res, w) \<Rightarrow>
     Some (Inr res, log_call (Store command) (s\<lparr>world := w\<rparr>)))"

text \<open>\<^verbatim>\<open>row[i]\<close> of mysql++, and the conversion of a cell to \<open>int\<close> and \<open>bool\<close>.\<close>

definition row_at :: "string list \<Rightarrow> nat \<Rightarrow> exn + string" where
  "row_at row i = (if i < length row then Inr (row ! i) else Inl Bad_index)"

definition as_int :: "'w ext \<Rightarrow> string \<Rightarrow> exn + int" where
  "as_int E c = (case cell_int E c of None \<Rightarrow> Inl Bad_conversion | Some i \<Rightarrow> Inr i)"

definition as_bool :: "'w ext \<Rightarrow> string \<Rightarrow> exn + bool" where
  "as_bool E c = (case cell_bool E c of None \<Rightarrow> Inl Bad_conversion | Some b \<Rightarrow> Inr b)"

text \<open>\<^verbatim>\<open>boost::asio::read\<close> and \<^verbatim>\<open>boost::asio::write\<close> on a socket: both throw on an error.\<close>

definition boost_read :: "'w ext \<Rightarrow> nat \<Rightarrow> nat \<Rightarrow> ('w, string) srv" where
  "boost_read E sock n s = (case asio_read E sock n (world s) of
     (None, w) \<Rightarrow> Some (Inl Socket_error, s\<lparr>world := w\<rparr>)
   | (Some bs, w) \<Rightarrow> Some (Inr bs, s\<lparr>world := w\<rparr>))"

definition boost_write :: "'w ext \<Rightarrow> nat \<Rightarrow> string \<Rightarrow> ('w, nat) srv" where
  "boost_write E sock bs s = (case asio_write E sock bs (world s) of
     (None, w) \<Rightarrow> Some (Inl Socket_error, s\<lparr>world := w\<rparr>)
   | (Some n, w) \<Rightarrow> Some (Inr n, log_call (Sent (Sock sock) (take n bs)) (s\<lparr>world := w\<rparr>)))"

definition write_file :: "'w ext \<Rightarrow> string \<Rightarrow> string \<Rightarrow> ('w, unit) srv" where
  "write_file E path bs s =
     Some (Inr (), log_call (Write_file path bs) (s\<lparr>world := file_write E path bs (world s)\<rparr>))"

definition remove_file :: "'w ext \<Rightarrow> string \<Rightarrow> ('w, bool) srv" where
  "remove_file E path s = (case file_remove E path (world s) of (ok, w) \<Rightarrow>
     Some (Inr ok, log_call (Remove_file path) (s\<lparr>world := w\<rparr>)))"

definition close_fd :: "'w ext \<Rightarrow> int \<Rightarrow> ('w, unit) srv" where
  "close_fd E fd s = Some (Inr (), log_call (Close (Fd fd)) (s\<lparr>world := sys_close E fd (world s)\<rparr>))"

text \<open>
  \<^verbatim>\<open>close()\<close> of a Boost socket throws when the system call fails; it is taken to succeed on the
  open sockets the server closes.
\<close>

definition close_socket :: "'w ext \<Rightarrow> nat \<Rightarrow> ('w, unit) srv" where
  "close_socket E sock s =
     Some (Inr (), log_call (Close (Sock sock)) (s\<lparr>world := asio_close E sock (world s)\<rparr>))"

text \<open>\<^verbatim>\<open>EpollOperator::addFd\<close> (the flag is edge-triggered mode) and \<^verbatim>\<open>EpollOperator::deleteFd\<close>.\<close>

definition addFd :: "'w ext \<Rightarrow> int \<Rightarrow> bool \<Rightarrow> ('w, unit) srv" where
  "addFd E fd edge s = Some (Inr (), log_call (Watch fd edge) (s\<lparr>world := epoll_add E fd edge (world s)\<rparr>))"

definition deleteFd :: "'w ext \<Rightarrow> int \<Rightarrow> ('w, unit) srv" where
  "deleteFd E fd s = Some (Inr (), log_call (Unwatch fd) (s\<lparr>world := epoll_del E fd (world s)\<rparr>))"

text \<open>\<^verbatim>\<open>Singleton<IdWorker>::getInstance()->nextId()\<close>.\<close>

definition next_id :: "'w ext \<Rightarrow> ('w, 64 word) srv" where
  "next_id E s = (case nextId (clock_ms E) (worker s, world s) of
     None \<Rightarrow> None
   | Some (r, wk, w) \<Rightarrow> Some (r, s\<lparr>worker := wk, world := w\<rparr>))"

text \<open>\<^verbatim>\<open>std::to_string\<close> of an id.\<close>

definition id_string :: "64 word \<Rightarrow> string" where
  "id_string i = dec_nat (unat i)"

section \<open>my_recv and my_send\<close>

text \<open>
  The loops of \<^verbatim>\<open>config.cpp\<close>.  \<open>left\<close> is \<open>bytes_left\<close>, \<open>got\<close> what was stored at \<open>buf\<close> so far.
  An interrupted call counts as 0 bytes and is repeated, so a signal storm keeps the loop going.
  The result is the return value (-1 on an error) and the bytes stored, which an error leaves
  in the buffer.
\<close>

partial_function (option) my_recv_loop ::
  "'w ext \<Rightarrow> int \<Rightarrow> bool \<Rightarrow> nat \<Rightarrow> string \<Rightarrow> 'w \<Rightarrow> (bool \<times> string \<times> 'w) option" where
  "my_recv_loop E fd dontwait left got w =
     (if left = 0 then Some (True, got, w)
      else case sys_recv E fd left dontwait w of (r, w') \<Rightarrow>
        (case r of
           Recv_eintr \<Rightarrow> my_recv_loop E fd dontwait left got w'
         | Recv_error \<Rightarrow> Some (False, got, w')
         | Received bs \<Rightarrow> if bs = [] then Some (True, got, w')
             else my_recv_loop E fd dontwait (left - length bs) (got @ bs) w'))"

definition my_recv :: "'w ext \<Rightarrow> int \<Rightarrow> int \<Rightarrow> bool \<Rightarrow> ('w, int \<times> string) srv" where
  "my_recv E fd len dontwait s = (case my_recv_loop E fd dontwait (nat len) [] (world s) of
     None \<Rightarrow> None
   | Some (ok, got, w) \<Rightarrow>
       Some (Inr (if ok then int (length got) else - 1, got), s\<lparr>world := w\<rparr>))"

text \<open>The state passed along is the outside world and the bytes accepted so far.\<close>

partial_function (option) my_send_loop ::
  "'w ext \<Rightarrow> int \<Rightarrow> string \<Rightarrow> string \<Rightarrow> 'w \<Rightarrow> (bool \<times> string \<times> 'w) option" where
  "my_send_loop E fd bs done_bytes w =
     (if bs = [] then Some (True, done_bytes, w)
      else case sys_send E fd bs w of (r, w') \<Rightarrow>
        (case r of
           Send_eintr \<Rightarrow> my_send_loop E fd bs done_bytes w'
         | Send_error \<Rightarrow> Some (False, done_bytes, w')
         | Accepted n \<Rightarrow> if n = 0 then Some (True, done_bytes, w')
             else my_send_loop E fd (drop n bs) (done_bytes @ take n bs) w'))"

text \<open>The result is the return value: -1 on an error, else the number of bytes accepted.\<close>

definition my_send :: "'w ext \<Rightarrow> int \<Rightarrow> string \<Rightarrow> ('w, int) srv" where
  "my_send E fd bs s = (case my_send_loop E fd bs [] (world s) of
     None \<Rightarrow> None
   | Some (ok, sent, w) \<Rightarrow>
       Some (Inr (if ok then int (length sent) else - 1),
             log_call (Sent (Fd fd) sent) (s\<lparr>world := w\<rparr>)))"

end
