(* ===== verification/Scenario.thy ===== *)
theory Scenario
  imports Runtime
begin

text \<open>
  A concrete instance of the services outside the program, used to show that the hypotheses of
  the theorems can hold: a peer whose bytes are in \<open>inbox\<close>, a database that answers from a
  table of commands, a clock that advances by a millisecond per reading, a file system in which
  every file holds five bytes, and maps walked by increasing key.
\<close>

record sample =
  inbox :: string
  now :: "64 word"
  answers :: "string \<Rightarrow> string list list option"

definition sample_ext :: "sample ext" where
  "sample_ext = \<lparr>
     sys_recv = (\<lambda>fd n dontwait w. if inbox w = [] then (Recv_error, w)
       else (Received (take n (inbox w)), w\<lparr>inbox := drop n (inbox w)\<rparr>)),
     sys_send = (\<lambda>fd bs w. (Accepted (length bs), w)),
     sys_close = (\<lambda>fd w. w),
     epoll_add = (\<lambda>fd edge w. w),
     epoll_del = (\<lambda>fd w. w),
     sys_accept = (\<lambda>fd w. (No_connection, w)),
     asio_receive = (\<lambda>k n w. if inbox w = [] then (Eof, w)
       else (Bytes (take n (inbox w)), w\<lparr>inbox := drop n (inbox w)\<rparr>)),
     asio_read = (\<lambda>k n w. if n \<le> length (inbox w)
       then (Some (take n (inbox w)), w\<lparr>inbox := drop n (inbox w)\<rparr>) else (None, w)),
     asio_write = (\<lambda>k bs w. (Some (length bs), w)),
     asio_close = (\<lambda>k w. w),
     asio_endpoint = (\<lambda>k w. True),
     mysql_execute = (\<lambda>c w. (True, w)),
     mysql_store = (\<lambda>c w. (answers w c, w)),
     cell_int = (\<lambda>c. Some (int (undec c))),
     cell_bool = (\<lambda>c. Some (undec c \<noteq> 0)),
     file_stat = (\<lambda>p w. Some 5),
     file_is_open = (\<lambda>p w. True),
     file_read = (\<lambda>p n w. replicate (min n 5) CHR ''x''),
     file_write = (\<lambda>p bs w. w),
     file_remove = (\<lambda>p w. (True, w)),
     clock_ms = (\<lambda>w. (now w, w\<lparr>now := now w + 1\<rparr>)),
     fresh_heap = (\<lambda>n w. replicate n NUL),
     map_order = sorted_entries,
     fd_order = sorted_entries,
     sock_order = sorted_entries,
     make_directory = (\<lambda>p w. (True, w)),
     mysql_connect = (\<lambda>w. (True, w)),
     asio_listen = (\<lambda>port w. (True, w)),
     sys_socket = (\<lambda>w. (3, w)),
     sys_bind = (\<lambda>fd port w. (True, w)),
     sys_listen = (\<lambda>fd backlog w. (True, w)),
     sys_epoll_create = (\<lambda>w. (5, w)),
     sys_epoll_wait = (\<lambda>n w. (None, w))\<rparr>"

definition sample_world :: sample where
  "sample_world = \<lparr>inbox = [], now = 1514736000000, answers = (\<lambda>c. Some [])\<rparr>"

definition sample_server :: "sample server" where
  "sample_server = \<lparr>world = sample_world, calls = [], m_map = Map.empty, m_map_boost = Map.empty,
     m_liveList = Map.empty, worker = new_IdWorker\<rparr>"

lemma sample_walks [simp]:
  "walks (map_order sample_ext)" "walks (fd_order sample_ext)" "walks (sock_order sample_ext)"
  by (simp_all add: sample_ext_def)

lemmas sample_defs = sample_ext_def sample_world_def sample_server_def

end
