(* ===== verification/UserStatus.thy ===== *)
theory UserStatus
  imports Scenario
begin

text \<open>
  \<^verbatim>\<open>userstatusevaluator.cpp\<close>: the table of connections with their missed heartbeats, once keyed by
  file descriptor (\<open>m_map\<close>) and once by Boost socket (\<open>m_map_boost\<close>); every operation has an
  overload for each.  \<^verbatim>\<open>insert\<close> leaves an existing entry alone, \<^verbatim>\<open>at\<close> throws for a missing one.
  The operations are shown against the locale \<open>heartbeat\<close>, which fixes what a check and a
  heartbeat do to the counters and derives who survives which schedule of checks and beats.
\<close>

section \<open>The operations\<close>

definition fresh_info :: "string \<Rightarrow> Info" where
  "fresh_info addr = \<lparr>ip = addr, userId = [], num = 0\<rparr>"

definition map_insert :: "'k \<Rightarrow> 'v \<Rightarrow> ('k \<rightharpoonup> 'v) \<Rightarrow> ('k \<rightharpoonup> 'v)" where
  "map_insert k v m = (case m k of None \<Rightarrow> m(k \<mapsto> v) | Some _ \<Rightarrow> m)"

definition map_at :: "('k \<rightharpoonup> 'v) \<Rightarrow> 'k \<Rightarrow> exn + 'v" where
  "map_at m k = (case m k of None \<Rightarrow> Inl Map_at | Some v \<Rightarrow> Inr v)"

text \<open>The overloads for file descriptors.\<close>

definition add_fd :: "int \<Rightarrow> string \<Rightarrow> ('w, unit) srv" where
  "add_fd fd addr = modify_st (\<lambda>s. s\<lparr>m_map := map_insert fd (fresh_info addr) (m_map s)\<rparr>)"

definition remove_fd :: "int \<Rightarrow> ('w, unit) srv" where
  "remove_fd fd = modify_st (\<lambda>s. s\<lparr>m_map := (m_map s)(fd := None)\<rparr>)"

definition at_fd :: "int \<Rightarrow> ('w, Info) srv" where
  "at_fd fd = bnd (get_st m_map) (\<lambda>m. lift_sum (map_at m fd))"

definition put_fd :: "int \<Rightarrow> Info \<Rightarrow> ('w, unit) srv" where
  "put_fd fd i = modify_st (\<lambda>s. s\<lparr>m_map := (m_map s)(fd \<mapsto> i)\<rparr>)"

definition set_0_fd :: "int \<Rightarrow> ('w, unit) srv" where
  "set_0_fd fd = bnd (at_fd fd) (\<lambda>i. put_fd fd (i\<lparr>num := 0\<rparr>))"

definition add_userId_fd :: "int \<Rightarrow> string \<Rightarrow> ('w, unit) srv" where
  "add_userId_fd fd uid = bnd (at_fd fd) (\<lambda>i. put_fd fd (i\<lparr>userId := uid\<rparr>))"

definition get_ip_fd :: "int \<Rightarrow> ('w, string) srv" where
  "get_ip_fd fd = bnd (at_fd fd) (\<lambda>i. ret (ip i))"

definition get_userId_fd :: "int \<Rightarrow> ('w, string) srv" where
  "get_userId_fd fd = bnd (at_fd fd) (\<lambda>i. ret (userId i))"

text \<open>The overloads for Boost sockets.\<close>

definition add_sock :: "nat \<Rightarrow> ('w, unit) srv" where
  "add_sock k = modify_st (\<lambda>s. s\<lparr>m_map_boost := map_insert k (fresh_info []) (m_map_boost s)\<rparr>)"

definition remove_sock :: "nat \<Rightarrow> ('w, unit) srv" where
  "remove_sock k = modify_st (\<lambda>s. s\<lparr>m_map_boost := (m_map_boost s)(k := None)\<rparr>)"

definition at_sock :: "nat \<Rightarrow> ('w, Info) srv" where
  "at_sock k = bnd (get_st m_map_boost) (\<lambda>m. lift_sum (map_at m k))"

definition put_sock :: "nat \<Rightarrow> Info \<Rightarrow> ('w, unit) srv" where
  "put_sock k i = modify_st (\<lambda>s. s\<lparr>m_map_boost := (m_map_boost s)(k \<mapsto> i)\<rparr>)"

definition set_0_sock :: "nat \<Rightarrow> ('w, unit) srv" where
  "set_0_sock k = bnd (at_sock k) (\<lambda>i. put_sock k (i\<lparr>num := 0\<rparr>))"

definition add_userId_sock :: "nat \<Rightarrow> string \<Rightarrow> ('w, unit) srv" where
  "add_userId_sock k uid = bnd (at_sock k) (\<lambda>i. put_sock k (i\<lparr>userId := uid\<rparr>))"

definition get_ip_sock :: "nat \<Rightarrow> ('w, string) srv" where
  "get_ip_sock k = bnd (at_sock k) (\<lambda>i. ret (ip i))"

definition get_userId_sock :: "nat \<Rightarrow> ('w, string) srv" where
  "get_userId_sock k = bnd (at_sock k) (\<lambda>i. ret (userId i))"

section \<open>One check of all connections\<close>

text \<open>
  The body of the loop of the checking thread: it walks a copy of the table and changes the
  table itself.  \<open>data\<close> is the copied entry.
\<close>

definition check_entry_fd :: "'w ext \<Rightarrow> int \<times> Info \<Rightarrow> ('w, unit) srv" where
  "check_entry_fd E d = (case d of (fd, i) \<Rightarrow>
     if num i = 3
     then bnd (remove_fd fd) (\<lambda>_. bnd (deleteFd E fd) (\<lambda>_. close_fd E fd))
     else if num i < 3 \<and> 0 \<le> num i
     then bnd (at_fd fd) (\<lambda>j. put_fd fd (j\<lparr>num := num j + 1\<rparr>))
     else ret ())"

definition check_fd :: "'w ext \<Rightarrow> ('w, unit) srv" where
  "check_fd E = bnd (get_st m_map) (\<lambda>map_copy. for_each (fd_order E map_copy) (check_entry_fd E))"

definition check_entry_sock :: "'w ext \<Rightarrow> nat \<times> Info \<Rightarrow> ('w, unit) srv" where
  "check_entry_sock E d = (case d of (k, i) \<Rightarrow>
     if num i = 3
     then bnd (remove_sock k) (\<lambda>_. close_socket E k)
     else if num i < 3 \<and> 0 \<le> num i
     then bnd (at_sock k) (\<lambda>j. put_sock k (j\<lparr>num := num j + 1\<rparr>))
     else ret ())"

definition check_sock :: "'w ext \<Rightarrow> ('w, unit) srv" where
  "check_sock E = bnd (get_st m_map_boost)
     (\<lambda>map_copy. for_each (sock_order E map_copy) (check_entry_sock E))"

section \<open>The interface: who is alive\<close>

text \<open>What a check does to one counter, and to one entry; \<^term>\<open>None\<close> is no entry.\<close>

definition tick :: "int \<Rightarrow> int option" where
  "tick n = (if n = 3 then None else if n < 3 \<and> 0 \<le> n then Some (n + 1) else Some n)"

definition tick_info :: "Info \<Rightarrow> Info option" where
  "tick_info i = map_option (\<lambda>n. i\<lparr>num := n\<rparr>) (tick (num i))"

text \<open>
  A schedule is a list of checks (\<^term>\<open>None\<close>) and heartbeats of named connections.  Starting
  with \<open>c\<close> missed heartbeats, \<open>survives c k es\<close> says that \<open>k\<close> is never silent for more than
  \<open>3 - c\<close>, then 3, checks in a row.
\<close>

fun survives :: "nat \<Rightarrow> 'k \<Rightarrow> 'k option list \<Rightarrow> bool" where
  "survives c k [] = True"
| "survives c k (None # es) = (c < 3 \<and> survives (c + 1) k es)"
| "survives c k (Some k' # es) = survives (if k' = k then 0 else c) k es"

fun run_schedule ::
  "('e, 's, unit) prog \<Rightarrow> ('k \<Rightarrow> ('e, 's, unit) prog) \<Rightarrow> 'k option list \<Rightarrow> ('e, 's, unit) prog" where
  "run_schedule check beat [] = ret ()"
| "run_schedule check beat (None # es) = bnd check (\<lambda>_. run_schedule check beat es)"
| "run_schedule check beat (Some k # es) = bnd (beat k) (\<lambda>_. run_schedule check beat es)"

locale heartbeat =
  fixes entries :: "'s \<Rightarrow> 'k \<rightharpoonup> Info"
    and check :: "(exn, 's, unit) prog"
    and beat :: "'k \<Rightarrow> (exn, 's, unit) prog"
    and ok :: "'s \<Rightarrow> bool"
  assumes check_counts: "ok s \<Longrightarrow> \<exists>s'. check s = Some (Inr (), s') \<and> ok s'
      \<and> (\<forall>k. entries s' k = Option.bind (entries s k) tick_info)"
    and beat_live: "entries s k = Some i \<Longrightarrow> \<exists>s'. beat k s = Some (Inr (), s')
      \<and> (ok s \<longrightarrow> ok s') \<and> entries s' = (entries s)(k \<mapsto> i\<lparr>num := 0\<rparr>)"
    and beat_dead: "entries s k = None \<Longrightarrow> beat k s = Some (Inl Map_at, s)"
begin

lemma check_step:
  assumes "ok s"
  obtains s' where "check s = Some (Inr (), s')" and "ok s'"
    and "\<And>k. entries s' k = Option.bind (entries s k) tick_info"
  using check_counts [OF assms] by blast

lemma beat_step:
  assumes "beat k s = Some (Inr (), s')"
  obtains i where "entries s k = Some i" and "entries s' = (entries s)(k \<mapsto> i\<lparr>num := 0\<rparr>)"
    and "ok s \<longrightarrow> ok s'"
proof (cases "entries s k")
  case None
  with beat_dead assms show ?thesis by simp
next
  case (Some i)
  with beat_live [OF Some] assms that show ?thesis by auto
qed

lemma gone_stays:
  assumes "run_schedule check beat es s = Some (Inr (), s')" and "ok s"
    and "entries s k = None"
  shows "entries s' k = None"
  using assms
proof (induction es arbitrary: s)
  case (Cons e es)
  show ?case
  proof (cases e)
    case None
    obtain t where t: "check s = Some (Inr (), t)" "ok t"
      and e: "\<And>k. entries t k = Option.bind (entries s k) tick_info"
      using check_step [OF Cons.prems(2)] by blast
    then have "run_schedule check beat es t = Some (Inr (), s')" using Cons.prems None
      by (simp add: bnd_InrI)
    then show ?thesis by (rule Cons.IH) (use t(2) e [of k] Cons.prems(3) in simp_all)
  next
    case (Some k')
    then obtain t where t: "beat k' s = Some (Inr (), t)" "run_schedule check beat es t = Some (Inr (), s')"
      using Cons.prems by (auto elim!: bnd_SomeE)
    obtain i where "entries s k' = Some i" "entries t = (entries s)(k' \<mapsto> i\<lparr>num := 0\<rparr>)" "ok s \<longrightarrow> ok t"
      using beat_step [OF t(1)] .
    with Cons.prems show ?thesis by (intro Cons.IH [OF t(2)]) auto
  qed
qed simp

text \<open>A connection is still there after a schedule exactly when it was never silent too long.\<close>

lemma survives_iff:
  assumes "run_schedule check beat es s = Some (Inr (), s')" and "ok s"
    and "entries s k = Some i" and "num i = int c" and "c \<le> 3"
  shows "entries s' k \<noteq> None \<longleftrightarrow> survives c k es"
  using assms
proof (induction es arbitrary: s i c)
  case (Cons e es)
  show ?case
  proof (cases e)
    case None
    obtain t where t: "check s = Some (Inr (), t)" "ok t"
      and e: "\<And>k. entries t k = Option.bind (entries s k) tick_info"
      using check_step [OF Cons.prems(2)] by blast
    have run: "run_schedule check beat es t = Some (Inr (), s')"
      using Cons.prems t None by (simp add: bnd_InrI)
    show ?thesis
    proof (cases "c < 3")
      case True
      then have "entries t k = Some (i\<lparr>num := int (c + 1)\<rparr>)"
        using e [of k] Cons.prems by (simp add: tick_info_def tick_def add.commute)
      from Cons.IH [OF run t(2) this] True None show ?thesis by simp
    next
      case False
      then have "entries t k = None" using e [of k] Cons.prems by (simp add: tick_info_def tick_def)
      with gone_stays [OF run t(2)] False None show ?thesis by simp
    qed
  next
    case (Some k')
    then obtain t where t: "beat k' s = Some (Inr (), t)" "run_schedule check beat es t = Some (Inr (), s')"
      using Cons.prems by (auto elim!: bnd_SomeE)
    obtain j where j: "entries s k' = Some j" "entries t = (entries s)(k' \<mapsto> j\<lparr>num := 0\<rparr>)" "ok s \<longrightarrow> ok t"
      using beat_step [OF t(1)] .
    define i' where "i' = (if k' = k then i\<lparr>num := 0\<rparr> else i)"
    have "entries t k = Some i'" and "num i' = int (if k' = k then 0 else c)"
      using j Cons.prems by (auto simp: i'_def)
    moreover have "ok t" using j Cons.prems by simp
    ultimately have "entries s' k \<noteq> None \<longleftrightarrow> survives (if k' = k then 0 else c) k es"
      using Cons.prems by (intro Cons.IH [OF t(2)]) auto
    with Some show ?thesis by simp
  qed
qed simp

text \<open>If every heartbeat of the schedule comes from a survivor, the schedule runs to its end.\<close>

lemma schedule_returns:
  assumes "ok s"
    and "\<And>p k q. es = p @ Some k # q \<Longrightarrow>
      \<exists>i c. entries s k = Some i \<and> num i = int c \<and> c \<le> 3 \<and> survives c k p"
  shows "\<exists>s'. run_schedule check beat es s = Some (Inr (), s') \<and> ok s'"
  using assms(2)
proof (induction es rule: rev_induct)
  case Nil
  with assms(1) show ?case by simp
next
  case (snoc e es)
  have split: "run_schedule check beat (es @ [e]) s
      = bnd (run_schedule check beat es) (\<lambda>_. run_schedule check beat [e]) s" for e s
  proof (induction es arbitrary: s)
    case (Cons d es)
    then have *: "run_schedule check beat (es @ [e]) = bnd (run_schedule check beat es) (\<lambda>_. run_schedule check beat [e])"
      by (intro ext)
    show ?case using * by (cases d) (simp_all add: bnd_assoc)
  qed simp
  obtain t where t: "run_schedule check beat es s = Some (Inr (), t)" "ok t"
    using snoc.IH snoc.prems by fastforce
  show ?case
  proof (cases e)
    case None
    obtain u where "check t = Some (Inr (), u)" "ok u"
      using check_step [OF t(2)] by blast
    with t None show ?thesis unfolding split by (auto simp: bnd_InrI)
  next
    case (Some k)
    obtain i c where "entries s k = Some i" "num i = int c" "c \<le> 3" "survives c k es"
      using snoc.prems [of es k "[]"] Some by auto
    then have "entries t k \<noteq> None" using survives_iff [OF t(1) assms(1)] by blast
    then obtain j where "entries t k = Some j" by blast
    from beat_live [OF this] t Some show ?thesis unfolding split by (auto simp: bnd_InrI)
  qed
qed

end

section \<open>The code provides the interface\<close>

lemma check_loop:
  fixes T :: "'w server \<Rightarrow> 'k \<rightharpoonup> Info"
  assumes step: "\<And>k i s. T s k = Some i \<Longrightarrow> \<exists>s'. f (k, i) s = Some (Inr (), s')
        \<and> T s' = (T s)(k := tick_info i) \<and> calls s' = calls s @ cs (k, i) \<and> rest s' = rest s"
    and "distinct (map fst es)" and "\<And>k i. (k, i) \<in> set es \<Longrightarrow> T s k = Some i"
  shows "\<exists>s'. for_each es f s = Some (Inr (), s')
    \<and> (\<forall>k. T s' k = (case map_of es k of None \<Rightarrow> T s k | Some i \<Rightarrow> tick_info i))
    \<and> calls s' = calls s @ concat (map cs es) \<and> rest s' = rest s"
  using assms(2,3)
proof (induction es arbitrary: s)
  case (Cons e es)
  obtain k i where e: "e = (k, i)" by (cases e)
  then have "T s k = Some i" using Cons.prems by simp
  from step [OF this] obtain t where t: "f (k, i) s = Some (Inr (), t)" "T t = (T s)(k := tick_info i)"
    "calls t = calls s @ cs (k, i)" "rest t = rest s" by blast
  have k: "k \<notin> fst ` set es" using Cons.prems e by simp
  have "distinct (map fst es)" using Cons.prems by simp
  moreover have "T t k' = Some i'" if "(k', i') \<in> set es" for k' i'
    using that Cons.prems t k by (auto simp: image_iff)
  ultimately obtain s' where s': "for_each es f t = Some (Inr (), s')"
    "\<forall>k. T s' k = (case map_of es k of None \<Rightarrow> T t k | Some i \<Rightarrow> tick_info i)"
    "calls s' = calls t @ concat (map cs es)" "rest s' = rest t"
    using Cons.IH [of t] by blast
  have "map_of es k = None" using k by (simp add: map_of_eq_None_iff)
  with s' t e show ?case by (auto simp: bnd_InrI split: option.split)
qed simp

definition check_calls_fd :: "int \<times> Info \<Rightarrow> call list" where
  "check_calls_fd d = (if num (snd d) = 3 then [Unwatch (fst d), Close (Fd (fst d))] else [])"

definition check_calls_sock :: "nat \<times> Info \<Rightarrow> call list" where
  "check_calls_sock d = (if num (snd d) = 3 then [Close (Sock (fst d))] else [])"

lemmas table_op_defs = at_fd_def put_fd_def remove_fd_def set_0_fd_def add_userId_fd_def
  get_ip_fd_def get_userId_fd_def at_sock_def put_sock_def remove_sock_def set_0_sock_def
  add_userId_sock_def get_ip_sock_def get_userId_sock_def map_at_def

lemma check_entry_fd_step:
  assumes "m_map s fd = Some i"
  shows "\<exists>s'. check_entry_fd E (fd, i) s = Some (Inr (), s') \<and> m_map s' = (m_map s)(fd := tick_info i)
    \<and> calls s' = calls s @ check_calls_fd (fd, i)
    \<and> (m_map_boost s', m_liveList s', worker s') = (m_map_boost s, m_liveList s, worker s)"
  using assms
  by (auto simp: check_entry_fd_def check_calls_fd_def table_op_defs deleteFd_def close_fd_def
      log_call_def tick_info_def tick_def bnd_def)

lemma check_entry_sock_step:
  assumes "m_map_boost s k = Some i"
  shows "\<exists>s'. check_entry_sock E (k, i) s = Some (Inr (), s')
    \<and> m_map_boost s' = (m_map_boost s)(k := tick_info i)
    \<and> calls s' = calls s @ check_calls_sock (k, i)
    \<and> (m_map s', m_liveList s', worker s') = (m_map s, m_liveList s, worker s)"
  using assms
  by (auto simp: check_entry_sock_def check_calls_sock_def table_op_defs close_socket_def
      log_call_def tick_info_def tick_def bnd_def)

lemma map_of_entry: "enumerates es m \<Longrightarrow> (k, i) \<in> set es \<Longrightarrow> m k = Some i"
  by (auto simp: enumerates_def)

lemma enumerated_case: "enumerates es m \<Longrightarrow>
    (case map_of es k of None \<Rightarrow> m k | Some i \<Rightarrow> f i) = Option.bind (m k) f"
  by (auto simp: enumerates_def split: option.split)

lemma check_fd_spec:
  assumes "walks (fd_order E)" and "finite (dom (m_map s))"
  shows "\<exists>s'. check_fd E s = Some (Inr (), s')
    \<and> (\<forall>k. m_map s' k = Option.bind (m_map s k) tick_info)
    \<and> calls s' = calls s @ concat (map check_calls_fd (fd_order E (m_map s)))
    \<and> (m_map_boost s', m_liveList s', worker s') = (m_map_boost s, m_liveList s, worker s)"
proof -
  have en: "enumerates (fd_order E (m_map s)) (m_map s)" using assms by (rule walksD)
  have "\<exists>s'. for_each (fd_order E (m_map s)) (check_entry_fd E) s = Some (Inr (), s')
    \<and> (\<forall>k. m_map s' k = (case map_of (fd_order E (m_map s)) k of None \<Rightarrow> m_map s k | Some i \<Rightarrow> tick_info i))
    \<and> calls s' = calls s @ concat (map check_calls_fd (fd_order E (m_map s)))
    \<and> (m_map_boost s', m_liveList s', worker s') = (m_map_boost s, m_liveList s, worker s)"
    using en by (intro check_loop check_entry_fd_step) (auto simp: enumerates_def [of _ "m_map s"] map_of_entry [OF en])
  then show ?thesis unfolding check_fd_def bnd_get_st enumerated_case [OF en] .
qed

lemma check_sock_spec:
  assumes "walks (sock_order E)" and "finite (dom (m_map_boost s))"
  shows "\<exists>s'. check_sock E s = Some (Inr (), s')
    \<and> (\<forall>k. m_map_boost s' k = Option.bind (m_map_boost s k) tick_info)
    \<and> calls s' = calls s @ concat (map check_calls_sock (sock_order E (m_map_boost s)))
    \<and> (m_map s', m_liveList s', worker s') = (m_map s, m_liveList s, worker s)"
proof -
  let ?es = "sock_order E (m_map_boost s)"
  have en: "enumerates ?es (m_map_boost s)" using assms by (rule walksD)
  have "\<exists>s'. for_each ?es (check_entry_sock E) s = Some (Inr (), s')
    \<and> (\<forall>k. m_map_boost s' k = (case map_of ?es k of None \<Rightarrow> m_map_boost s k | Some i \<Rightarrow> tick_info i))
    \<and> calls s' = calls s @ concat (map check_calls_sock ?es)
    \<and> (m_map s', m_liveList s', worker s') = (m_map s, m_liveList s, worker s)"
    using en by (intro check_loop check_entry_sock_step) (auto simp: enumerates_def map_of_entry [OF en])
  then show ?thesis unfolding check_sock_def bnd_get_st enumerated_case [OF en] .
qed

lemma set_0_fd_live: "m_map s fd = Some i \<Longrightarrow>
    \<exists>s'. set_0_fd fd s = Some (Inr (), s') \<and> m_map s' = (m_map s)(fd \<mapsto> i\<lparr>num := 0\<rparr>)"
  by (auto simp: table_op_defs bnd_def)

lemma set_0_fd_dead: "m_map s fd = None \<Longrightarrow> set_0_fd fd s = Some (Inl Map_at, s)"
  by (auto simp: table_op_defs bnd_def)

lemma set_0_sock_live: "m_map_boost s k = Some i \<Longrightarrow>
    \<exists>s'. set_0_sock k s = Some (Inr (), s') \<and> m_map_boost s' = (m_map_boost s)(k \<mapsto> i\<lparr>num := 0\<rparr>)"
  by (auto simp: table_op_defs bnd_def)

lemma set_0_sock_dead: "m_map_boost s k = None \<Longrightarrow> set_0_sock k s = Some (Inl Map_at, s)"
  by (auto simp: table_op_defs bnd_def)

interpretation fd_beats: heartbeat m_map "check_fd E" set_0_fd
  "\<lambda>s. walks (fd_order E) \<and> finite (dom (m_map s))" for E :: "'w ext"
proof unfold_locales
  fix s :: "'w server" assume ok: "walks (fd_order E) \<and> finite (dom (m_map s))"
  then obtain s' where s': "check_fd E s = Some (Inr (), s')"
    "\<forall>k. m_map s' k = Option.bind (m_map s k) tick_info" using check_fd_spec by blast
  moreover from s'(2) have "dom (m_map s') \<subseteq> dom (m_map s)"
    by (auto simp: dom_def Option.bind_eq_Some_conv)
  ultimately show "\<exists>s'. check_fd E s = Some (Inr (), s')
      \<and> (walks (fd_order E) \<and> finite (dom (m_map s')))
      \<and> (\<forall>k. m_map s' k = Option.bind (m_map s k) tick_info)"
    using ok by (auto intro: finite_subset)
next
  fix s :: "'w server" and k i assume "m_map s k = Some i"
  from set_0_fd_live [OF this] show "\<exists>s'. set_0_fd k s = Some (Inr (), s')
      \<and> (walks (fd_order E) \<and> finite (dom (m_map s)) \<longrightarrow> walks (fd_order E) \<and> finite (dom (m_map s')))
      \<and> m_map s' = (m_map s)(k \<mapsto> i\<lparr>num := 0\<rparr>)" by auto
qed (rule set_0_fd_dead)

interpretation sock_beats: heartbeat m_map_boost "check_sock E" set_0_sock
  "\<lambda>s. walks (sock_order E) \<and> finite (dom (m_map_boost s))" for E :: "'w ext"
proof unfold_locales
  fix s :: "'w server" assume ok: "walks (sock_order E) \<and> finite (dom (m_map_boost s))"
  then obtain s' where s': "check_sock E s = Some (Inr (), s')"
    "\<forall>k. m_map_boost s' k = Option.bind (m_map_boost s k) tick_info" using check_sock_spec by blast
  moreover from s'(2) have "dom (m_map_boost s') \<subseteq> dom (m_map_boost s)"
    by (auto simp: dom_def Option.bind_eq_Some_conv)
  ultimately show "\<exists>s'. check_sock E s = Some (Inr (), s')
      \<and> (walks (sock_order E) \<and> finite (dom (m_map_boost s')))
      \<and> (\<forall>k. m_map_boost s' k = Option.bind (m_map_boost s k) tick_info)"
    using ok by (auto intro: finite_subset)
next
  fix s :: "'w server" and k i assume "m_map_boost s k = Some i"
  from set_0_sock_live [OF this] show "\<exists>s'. set_0_sock k s = Some (Inr (), s')
      \<and> (walks (sock_order E) \<and> finite (dom (m_map_boost s))
          \<longrightarrow> walks (sock_order E) \<and> finite (dom (m_map_boost s')))
      \<and> m_map_boost s' = (m_map_boost s)(k \<mapsto> i\<lparr>num := 0\<rparr>)" by auto
qed (rule set_0_sock_dead)

section \<open>The table as a transition system\<close>

text \<open>Everything the program does to the table of Boost sockets, one operation per step.\<close>

inductive sock_step :: "'w ext \<Rightarrow> 'w server \<Rightarrow> 'w server \<Rightarrow> bool" for E :: "'w ext" where
  connect: "add_sock k s = Some (r, s') \<Longrightarrow> sock_step E s s'"
| disconnect: "remove_sock k s = Some (r, s') \<Longrightarrow> sock_step E s s'"
| heart: "set_0_sock k s = Some (r, s') \<Longrightarrow> sock_step E s s'"
| login: "add_userId_sock k uid s = Some (r, s') \<Longrightarrow> sock_step E s s'"
| sweep: "check_sock E s = Some (r, s') \<Longrightarrow> sock_step E s s'"

definition counters_ok :: "'k users \<Rightarrow> bool" where
  "counters_ok m \<longleftrightarrow> finite (dom m) \<and> (\<forall>k i. m k = Some i \<longrightarrow> 0 \<le> num i \<and> num i \<le> 3)"

lemma counters_okI:
  "finite (dom m) \<Longrightarrow> (\<And>k i. m k = Some i \<Longrightarrow> 0 \<le> num i \<and> num i \<le> 3) \<Longrightarrow> counters_ok m"
  by (simp add: counters_ok_def)

lemma counters_okD: "counters_ok m \<Longrightarrow> m k = Some i \<Longrightarrow> 0 \<le> num i \<and> num i \<le> 3"
  by (simp add: counters_ok_def)

lemma counters_ok_upd:
  "counters_ok m \<Longrightarrow> 0 \<le> num i \<Longrightarrow> num i \<le> 3 \<Longrightarrow> counters_ok (m(k \<mapsto> i))"
  by (auto simp: counters_ok_def)

lemma counters_ok_keep:
  "counters_ok m \<Longrightarrow> m k = Some i \<Longrightarrow> counters_ok (m(k \<mapsto> i\<lparr>userId := u\<rparr>))"
  by (auto simp: counters_ok_def)

lemma counters_ok_delete: "counters_ok m \<Longrightarrow> counters_ok (m(k := None))"
  by (auto simp: counters_ok_def)

lemma tick_info_bounds: "tick_info i = Some j \<Longrightarrow> 0 \<le> num i \<Longrightarrow> num i \<le> 3 \<Longrightarrow> 0 \<le> num j \<and> num j \<le> 3"
  by (auto simp: tick_info_def tick_def split: if_splits)

lemma sock_step_counters:
  assumes "sock_step E s s'" and "walks (sock_order E)" and ok: "counters_ok (m_map_boost s)"
  shows "counters_ok (m_map_boost s')"
  using assms(1)
proof cases
  case (connect k r)
  then show ?thesis using ok
    by (auto simp: add_sock_def map_insert_def fresh_info_def intro!: counters_ok_upd split: option.splits)
next
  case (disconnect k r)
  then show ?thesis using ok by (auto simp: table_op_defs intro: counters_ok_delete)
next
  case (heart k r)
  then show ?thesis using ok
    by (auto simp: table_op_defs bnd_def intro!: counters_ok_upd split: option.splits)
next
  case (login k uid r)
  then show ?thesis using ok
    by (auto simp: table_op_defs bnd_def intro!: counters_ok_keep split: option.splits)
next
  case (sweep r)
  have fin: "finite (dom (m_map_boost s))" using ok by (simp add: counters_ok_def)
  from check_sock_spec [OF assms(2) fin] sweep
  have e: "\<forall>k. m_map_boost s' k = Option.bind (m_map_boost s k) tick_info" by auto
  then have "dom (m_map_boost s') \<subseteq> dom (m_map_boost s)" by (auto simp: dom_def Option.bind_eq_Some_conv)
  with fin have "finite (dom (m_map_boost s'))" by (rule rev_finite_subset)
  moreover have "0 \<le> num j \<and> num j \<le> 3" if j: "m_map_boost s' k = Some j" for k j
    using that e ok by (auto simp: Option.bind_eq_Some_conv dest: counters_okD tick_info_bounds)
  ultimately show ?thesis by (rule counters_okI)
qed

lemma sock_reachable_counters:
  assumes "(sock_step E)\<^sup>*\<^sup>* s0 s" and "walks (sock_order E)" and "counters_ok (m_map_boost s0)"
  shows "counters_ok (m_map_boost s)"
  using assms by (induction rule: rtranclp_induct) (auto intro: sock_step_counters)

section \<open>Properties\<close>

text \<open>
  One check of the file descriptor table always returns.  Every entry with three missed
  heartbeats disappears, every other one misses one more, and the calls made to the outside are
  exactly the removal from epoll and the close of the disappearing descriptors, in the order of
  the walk; the socket table, the live list and the id worker are untouched.
\<close>

theorem check_fd_effect:
  assumes "walks (fd_order E)" and "finite (dom (m_map s))"
  shows "\<exists>s'. check_fd E s = Some (Inr (), s')
    \<and> (\<forall>k. m_map s' k = (case m_map s k of None \<Rightarrow> None | Some i \<Rightarrow>
          if num i = 3 then None
          else if 0 \<le> num i \<and> num i < 3 then Some (i\<lparr>num := num i + 1\<rparr>) else Some i))
    \<and> calls s' = calls s @ concat (map (\<lambda>(fd, i). if num i = 3 then [Unwatch fd, Close (Fd fd)] else [])
          (fd_order E (m_map s)))
    \<and> m_map_boost s' = m_map_boost s \<and> m_liveList s' = m_liveList s \<and> worker s' = worker s"
proof -
  obtain s' where s': "check_fd E s = Some (Inr (), s')"
    "\<forall>k. m_map s' k = Option.bind (m_map s k) tick_info"
    "calls s' = calls s @ concat (map check_calls_fd (fd_order E (m_map s)))"
    "(m_map_boost s', m_liveList s', worker s') = (m_map_boost s, m_liveList s, worker s)"
    using check_fd_spec [OF assms] by blast
  have "check_calls_fd = (\<lambda>(fd, i). if num i = 3 then [Unwatch fd, Close (Fd fd)] else [])"
    by (auto simp: check_calls_fd_def fun_eq_iff)
  with s' show ?thesis by (auto simp: tick_info_def tick_def split: option.split)
qed

theorem check_fd_effect_witness:
  "\<exists>s'. check_fd sample_ext (sample_server\<lparr>m_map := [4 \<mapsto> \<lparr>ip = ''a'', userId = [], num = 3\<rparr>,
        7 \<mapsto> \<lparr>ip = ''b'', userId = [], num = 2\<rparr>]\<rparr>) = Some (Inr (), s')
    \<and> m_map s' 4 = None \<and> m_map s' 7 = Some \<lparr>ip = ''b'', userId = [], num = 3\<rparr>
    \<and> calls s' = [Unwatch 4, Close (Fd 4)]"
proof -
  let ?m = "[4 \<mapsto> \<lparr>ip = ''a'', userId = [], num = 3\<rparr>, 7 \<mapsto> \<lparr>ip = ''b'', userId = [], num = 2\<rparr>] :: int users"
  have "dom ?m = {4, 7}" by auto
  then have "sorted_list_of_set (dom ?m) = [4, 7]" by simp
  then have "fd_order sample_ext ?m = [(4, \<lparr>ip = ''a'', userId = [], num = 3\<rparr>), (7, \<lparr>ip = ''b'', userId = [], num = 2\<rparr>)]"
    by (simp add: sample_ext_def sorted_entries_def)
  then show ?thesis
    using check_fd_effect [of sample_ext "sample_server\<lparr>m_map := ?m\<rparr>"]
    by (auto simp: sample_server_def)
qed

text \<open>
  C2: Along any run of checks and heartbeats on the socket table that comes to its end, a
  connection with \<open>c\<close> missed heartbeats is still in the table exactly when it was never silent
  for too long: a fresh connection is dropped by the fourth check in a row without a heartbeat,
  not by the third.
\<close>

theorem heartbeat_survival:
  assumes "run_schedule (check_sock E) set_0_sock es s = Some (Inr (), s')"
    and "walks (sock_order E)" and "finite (dom (m_map_boost s))"
    and "m_map_boost s k = Some i" and "num i = int c" and "c \<le> 3"
  shows "m_map_boost s' k \<noteq> None \<longleftrightarrow> survives c k es"
  by (rule sock_beats.survives_iff [OF assms(1) _ assms(4-6)]) (use assms in simp)

text \<open>The hypotheses at work: one connection, three checks, a heartbeat, then four checks.\<close>

lemma schedule_example:
  defines "es \<equiv> [None, None, None, Some (1 :: nat), None, None, None, None]"
    and "s \<equiv> sample_server\<lparr>m_map_boost := [1 \<mapsto> fresh_info []]\<rparr>"
  shows "\<exists>s'. run_schedule (check_sock sample_ext) set_0_sock es s = Some (Inr (), s')"
proof -
  have "\<exists>i c. m_map_boost s k = Some i \<and> num i = int c \<and> c \<le> 3 \<and> survives c k p"
    if "es = p @ Some k # q" for p k q
  proof -
    have "k = 1 \<and> p = [None, None, None]" using that unfolding es_def by (simp add: Cons_eq_append_conv)
    then show ?thesis by (simp add: s_def fresh_info_def)
  qed
  moreover have "walks (sock_order sample_ext) \<and> finite (dom (m_map_boost s))" by (simp add: s_def)
  ultimately have "\<exists>s'. run_schedule (check_sock sample_ext) set_0_sock es s = Some (Inr (), s')
      \<and> walks (sock_order sample_ext) \<and> finite (dom (m_map_boost s'))"
    by (intro sock_beats.schedule_returns)
  then show ?thesis by blast
qed

theorem heartbeat_survival_witness:
  "\<exists>s'. run_schedule (check_sock sample_ext) set_0_sock
      [None, None, None, Some 1, None, None, None, None]
      (sample_server\<lparr>m_map_boost := [1 \<mapsto> fresh_info []]\<rparr>) = Some (Inr (), s')
    \<and> m_map_boost s' 1 = None \<and> survives 0 1 [None, None, None, Some (1 :: nat), None, None, None]"
proof -
  obtain s' where s': "run_schedule (check_sock sample_ext) set_0_sock
      [None, None, None, Some 1, None, None, None, None]
      (sample_server\<lparr>m_map_boost := [1 \<mapsto> fresh_info []]\<rparr>) = Some (Inr (), s')"
    using schedule_example by blast
  from heartbeat_survival [OF this, of 1 "fresh_info []" 0] have "m_map_boost s' 1 = None"
    by (simp add: fresh_info_def)
  with s' show ?thesis by simp
qed

text \<open>
  Starting from an empty socket table, whatever sequence of connects, disconnects, heartbeats,
  logins and checks is executed, the table stays finite, every counter stays between 0 and 3, and
  a further check returns without an exception.
\<close>

theorem sock_table_invariant:
  assumes "(sock_step E)\<^sup>*\<^sup>* s0 s" and "m_map_boost s0 = Map.empty" and "walks (sock_order E)"
  shows "finite (dom (m_map_boost s)) \<and> (\<forall>k i. m_map_boost s k = Some i \<longrightarrow> 0 \<le> num i \<and> num i \<le> 3)
    \<and> (\<exists>s'. check_sock E s = Some (Inr (), s'))"
proof -
  have "counters_ok (m_map_boost s0)" using assms(2) by (simp add: counters_ok_def)
  with assms have ok: "counters_ok (m_map_boost s)" by (auto intro: sock_reachable_counters)
  with check_sock_spec [OF assms(3), of s] show ?thesis by (auto simp: counters_ok_def)
qed

theorem sock_table_invariant_witness:
  "\<exists>s. (sock_step sample_ext)\<^sup>*\<^sup>* sample_server s \<and> m_map_boost s 1 = Some (fresh_info [])
    \<and> (\<exists>s'. check_sock sample_ext s = Some (Inr (), s'))"
proof -
  let ?s = "sample_server\<lparr>m_map_boost := [1 \<mapsto> fresh_info []]\<rparr>"
  have "add_sock 1 sample_server = Some (Inr (), ?s)"
    by (simp add: add_sock_def map_insert_def sample_server_def)
  then have r: "(sock_step sample_ext)\<^sup>*\<^sup>* sample_server ?s"
    by (intro r_into_rtranclp sock_step.connect)
  from sock_table_invariant [OF this] have "\<exists>s'. check_sock sample_ext ?s = Some (Inr (), s')"
    by (simp add: sample_server_def)
  with r show ?thesis by (intro exI [of _ ?s]) simp
qed

text \<open>
  A schedule of checks and heartbeats on the file descriptor table runs to its end, without an
  exception, whenever each of its heartbeats comes from a connection that has not been dropped by
  then; the table stays finite, so that checking can go on.
\<close>

theorem schedule_completes:
  assumes "walks (fd_order E)" and "finite (dom (m_map s))"
    and "\<And>p k q. es = p @ Some k # q \<Longrightarrow>
      \<exists>i c. m_map s k = Some i \<and> num i = int c \<and> c \<le> 3 \<and> survives c k p"
  shows "\<exists>s'. run_schedule (check_fd E) set_0_fd es s = Some (Inr (), s') \<and> finite (dom (m_map s'))"
  using fd_beats.schedule_returns [of E s es] assms by blast

theorem schedule_completes_witness:
  "\<exists>s'. run_schedule (check_fd sample_ext) set_0_fd [None, None, None, Some 4, None, None]
      (sample_server\<lparr>m_map := [4 \<mapsto> fresh_info ''a'']\<rparr>) = Some (Inr (), s')"
proof -
  let ?s = "sample_server\<lparr>m_map := [4 \<mapsto> fresh_info ''a'']\<rparr>"
  have "\<exists>i c. m_map ?s k = Some i \<and> num i = int c \<and> c \<le> 3 \<and> survives c k p"
    if "[None, None, None, Some 4, None, None] = p @ Some k # q" for p k q
  proof -
    have "k = 4 \<and> p = [None, None, None]" using that by (auto simp: Cons_eq_append_conv)
    then show ?thesis by (simp add: fresh_info_def)
  qed
  then have "\<exists>s'. run_schedule (check_fd sample_ext) set_0_fd [None, None, None, Some 4, None, None] ?s = Some (Inr (), s')
      \<and> finite (dom (m_map s'))"
    by (intro schedule_completes) simp_all
  then show ?thesis by blast
qed

end
