(* ===== verification/LiveList.thy ===== *)
theory LiveList
  imports UserStatus
begin

text \<open>
  \<^verbatim>\<open>livelistmonitor.cpp\<close>: the list of running live streams, user id to url.  The contract of a
  table filled by \<^verbatim>\<open>insert\<close> and emptied by \<^verbatim>\<open>erase\<close> is the locale \<open>registry\<close>; the live list and
  both connection tables are shown to satisfy it.
\<close>

section \<open>The operations\<close>

definition live_add :: "string \<Rightarrow> string \<Rightarrow> ('w, unit) srv" where
  "live_add uid url = modify_st (\<lambda>s. s\<lparr>m_liveList := map_insert uid url (m_liveList s)\<rparr>)"

definition live_remove :: "string \<Rightarrow> ('w, unit) srv" where
  "live_remove uid = modify_st (\<lambda>s. s\<lparr>m_liveList := (m_liveList s)(uid := None)\<rparr>)"

definition getLiveList :: "('w, string \<rightharpoonup> string) srv" where
  "getLiveList = get_st m_liveList"

section \<open>The interface: a table of first registrations\<close>

datatype ('k, 'a) reg_op = Reg 'k 'a | Unreg 'k

fun run_history ::
  "('k \<Rightarrow> 'a \<Rightarrow> ('e, 's, unit) prog) \<Rightarrow> ('k \<Rightarrow> ('e, 's, unit) prog) \<Rightarrow> ('k, 'a) reg_op list
    \<Rightarrow> ('e, 's, unit) prog" where
  "run_history ins del [] = ret ()"
| "run_history ins del (Reg k a # h) = bnd (ins k a) (\<lambda>_. run_history ins del h)"
| "run_history ins del (Unreg k # h) = bnd (del k) (\<lambda>_. run_history ins del h)"

text \<open>
  The argument of the first registration of \<open>k\<close> after its last removal, scanning a history
  backwards: an earlier registration wins over a later one, a removal hides what is before it.
\<close>

fun first_since :: "'k \<Rightarrow> ('k, 'a) reg_op list \<Rightarrow> 'a option" where
  "first_since k [] = None"
| "first_since k (Unreg k' # h) = (if k' = k then None else first_since k h)"
| "first_since k (Reg k' a # h) = (if k' = k then
     (case first_since k h of None \<Rightarrow> Some a | Some b \<Rightarrow> Some b) else first_since k h)"

locale registry =
  fixes entries :: "'s \<Rightarrow> 'k \<rightharpoonup> 'v"
    and ins :: "'k \<Rightarrow> 'a \<Rightarrow> ('e, 's, unit) prog"
    and del :: "'k \<Rightarrow> ('e, 's, unit) prog"
    and mk :: "'a \<Rightarrow> 'v"
  assumes ins_law: "\<exists>s'. ins k a s = Some (Inr (), s') \<and> entries s' = map_insert k (mk a) (entries s)"
    and del_law: "\<exists>s'. del k s = Some (Inr (), s') \<and> entries s' = (entries s)(k := None)"
begin

lemma run_history_snoc:
  "run_history ins del (h @ [op1]) s
    = bnd (run_history ins del h) (\<lambda>_. run_history ins del [op1]) s"
proof (induction h arbitrary: s)
  case (Cons d h)
  then have *: "run_history ins del (h @ [op1])
      = bnd (run_history ins del h) (\<lambda>_. run_history ins del [op1])"
    by (intro ext)
  show ?case using * by (cases d) (simp_all add: bnd_assoc)
qed simp

lemma history_result:
  assumes "entries s = Map.empty"
  shows "\<exists>s'. run_history ins del h s = Some (Inr (), s')
    \<and> (\<forall>k. entries s' k = map_option mk (first_since k (rev h)))"
proof (induction h rule: rev_induct)
  case Nil
  with assms show ?case by simp
next
  case (snoc e h)
  then obtain t where t: "run_history ins del h s = Some (Inr (), t)"
    "\<And>k. entries t k = map_option mk (first_since k (rev h))" by blast
  show ?case
  proof (cases e)
    case (Reg k a)
    obtain u where "ins k a t = Some (Inr (), u)" "entries u = map_insert k (mk a) (entries t)"
      using ins_law by blast
    with t Reg show ?thesis unfolding run_history_snoc
      by (auto simp: bnd_InrI map_insert_def split: option.splits)
  next
    case (Unreg k)
    obtain u where "del k t = Some (Inr (), u)" "entries u = (entries t)(k := None)"
      using del_law by blast
    with t Unreg show ?thesis unfolding run_history_snoc by (auto simp: bnd_InrI)
  qed
qed

end

interpretation live: registry m_liveList live_add live_remove "\<lambda>url. url"
  by unfold_locales (auto simp: live_add_def live_remove_def)

interpretation fd_table: registry m_map add_fd remove_fd fresh_info
  by unfold_locales (auto simp: add_fd_def remove_fd_def)

interpretation sock_table: registry m_map_boost "\<lambda>k (_ :: unit). add_sock k" remove_sock
  "\<lambda>_. fresh_info []"
  by unfold_locales (auto simp: add_sock_def remove_sock_def)

section \<open>Properties\<close>

text \<open>
  C11: After any history of stream starts and stops on an empty live list, every operation has
  returned and the url listed for a user is the one of the user's first start since the last
  stop: a second start does not replace the url, a stop removes it, other users do not matter.
\<close>

theorem live_list_history:
  assumes "m_liveList s = Map.empty"
  shows "\<exists>s'. run_history live_add live_remove h s = Some (Inr (), s')
    \<and> (\<forall>uid. getLiveList s' = Some (Inr (m_liveList s'), s')
        \<and> m_liveList s' uid = first_since uid (rev h))"
  using live.history_result [OF assms, of h] by (auto simp: getLiveList_def option.map_ident)

theorem live_list_history_witness:
  "\<exists>s'. run_history live_add live_remove
      [Reg ''u'' ''one'', Reg ''u'' ''two'', Reg ''v'' ''x'', Unreg ''v''] sample_server = Some (Inr (), s')
    \<and> m_liveList s' ''u'' = Some ''one'' \<and> m_liveList s' ''v'' = None"
  using live_list_history [of sample_server "[Reg ''u'' ''one'', Reg ''u'' ''two'', Reg ''v'' ''x'', Unreg ''v'']"]
  by (auto simp: sample_server_def)

end
