(* ===== verification/Json.thy ===== *)
theory Json
  imports Prelude
begin

text \<open>
  The JSON value type of the bundled library (\<^verbatim>\<open>json/include/nlohmann/json.hpp\<close>) and the accesses
  the server makes: \<open>operator[]\<close> with a string key, conversions to \<open>string\<close>, \<open>int\<close>, \<open>bool\<close> and
  enums, comparison with an enum, insertion and \<open>push_back\<close>.  Integers keep their 64 bits; a
  double is a sign, a mantissa and a binary exponent.  An object is an association list sorted by
  key, as the \<^verbatim>\<open>std::map\<close> it is in the library.
\<close>

section \<open>Values\<close>

datatype json =
    JNull
  | JBool bool
  | JInteger "64 word"
  | JUnsigned "64 word"
  | JFloat bool nat int
  | JString string
  | JArray "json list"
  | JObject "(string \<times> json) list"

text \<open>\<open>std::map::operator[](k) = v\<close>: overwrite, or insert at the place of the key.\<close>

fun kv_insert :: "string \<Rightarrow> 'v \<Rightarrow> (string \<times> 'v) list \<Rightarrow> (string \<times> 'v) list" where
  "kv_insert k v [] = [(k, v)]"
| "kv_insert k v ((k', v') # kvs) =
     (if k < k' then (k, v) # (k', v') # kvs
      else if k = k' then (k, v) # kvs
      else (k', v') # kv_insert k v kvs)"

text \<open>\<open>j[k] = v\<close> on a value the code builds up from null.\<close>

definition json_set :: "string \<Rightarrow> json \<Rightarrow> json \<Rightarrow> exn + json" where
  "json_set k v j = (case j of
     JNull \<Rightarrow> Inr (JObject [(k, v)])
   | JObject kvs \<Rightarrow> Inr (JObject (kv_insert k v kvs))
   | _ \<Rightarrow> Inl (Json_type_error 305))"

definition json_push_back :: "json \<Rightarrow> json \<Rightarrow> exn + json" where
  "json_push_back j v = (case j of
     JNull \<Rightarrow> Inr (JArray [v])
   | JArray vs \<Rightarrow> Inr (JArray (vs @ [v]))
   | _ \<Rightarrow> Inl (Json_type_error 308))"

text \<open>
  A run of assignments \<open>j["k1"] = v1; j["k2"] = v2; \<dots>\<close> on a fresh value, and a run of
  \<open>push_back\<close>s on a fresh value: a value that receives none stays null.
\<close>

definition json_object :: "(string \<times> json) list \<Rightarrow> json" where
  "json_object kvs = (if kvs = [] then JNull
     else JObject (foldl (\<lambda>acc kv. kv_insert (fst kv) (snd kv) acc) [] kvs))"

definition json_array :: "json list \<Rightarrow> json" where
  "json_array vs = (if vs = [] then JNull else JArray vs)"

section \<open>Access\<close>

definition json_index :: "json \<Rightarrow> string \<Rightarrow> exn + json" where
  "json_index j k = (case j of
     JNull \<Rightarrow> Inr JNull
   | JObject kvs \<Rightarrow> Inr (case map_of kvs k of None \<Rightarrow> JNull | Some v \<Rightarrow> v)
   | _ \<Rightarrow> Inl (Json_type_error 305))"

definition json_string :: "json \<Rightarrow> exn + string" where
  "json_string j = (case j of JString s \<Rightarrow> Inr s | _ \<Rightarrow> Inl (Json_type_error 302))"

definition json_bool :: "json \<Rightarrow> exn + bool" where
  "json_bool j = (case j of JBool b \<Rightarrow> Inr b | _ \<Rightarrow> Inl (Json_type_error 302))"

text \<open>\<^verbatim>\<open>static_cast<int>\<close> of the stored number.\<close>

definition float_trunc :: "bool \<Rightarrow> nat \<Rightarrow> int \<Rightarrow> int" where
  "float_trunc neg m e = (let a = (if 0 \<le> e then int (m * 2 ^ nat e) else int (m div 2 ^ nat (- e)))
     in if neg then - a else a)"

definition float_to_int :: "bool \<Rightarrow> nat \<Rightarrow> int \<Rightarrow> exn + int" where
  "float_to_int neg m e = (let v = float_trunc neg m e
     in if - (2 ^ 31) \<le> v \<and> v < 2 ^ 31 then Inr v else Inl (UB Bad_float_cast))"

definition word_to_int :: "64 word \<Rightarrow> int" where
  "word_to_int w = sint (ucast w :: 32 word)"

text \<open>\<^verbatim>\<open>get_arithmetic_value\<close> at \<open>int\<close>, the underlying type of the enums.\<close>

definition get_arithmetic_value :: "json \<Rightarrow> exn + int" where
  "get_arithmetic_value j = (case j of
     JUnsigned w \<Rightarrow> Inr (word_to_int w)
   | JInteger w \<Rightarrow> Inr (word_to_int w)
   | JFloat neg m e \<Rightarrow> float_to_int neg m e
   | _ \<Rightarrow> Inl (Json_type_error 302))"

text \<open>\<^verbatim>\<open>from_json\<close> for \<open>int\<close> accepts a boolean as well.\<close>

definition json_int :: "json \<Rightarrow> exn + int" where
  "json_int j = (case j of
     JBool b \<Rightarrow> Inr (if b then 1 else 0)
   | _ \<Rightarrow> get_arithmetic_value j)"

definition json_enum :: "json \<Rightarrow> exn + int" where
  "json_enum j = get_arithmetic_value j"

text \<open>\<open>j == e\<close> for an enumerator of value \<open>i\<close>: the enumerator becomes a \<open>number_integer\<close>.\<close>

definition json_eq_enum :: "json \<Rightarrow> int \<Rightarrow> bool" where
  "json_eq_enum j i = (case j of
     JInteger w \<Rightarrow> sint w = i
   | JUnsigned w \<Rightarrow> sint w = i
   | JFloat neg m e \<Rightarrow> (let a = (if neg then - int m else int m)
       in if 0 \<le> e then a * 2 ^ nat e = i else a = i * 2 ^ nat (- e))
   | _ \<Rightarrow> False)"

text \<open>Conversions to JSON of what the server stores: an enumerator, an \<open>int\<close>.\<close>

definition enum_json :: "int \<Rightarrow> json" where
  "enum_json i = JInteger (word_of_int i)"

text \<open>The usual read \<open>string x = j["k"]\<close>, and its siblings.\<close>

definition field_with :: "(json \<Rightarrow> exn + 'a) \<Rightarrow> json \<Rightarrow> string \<Rightarrow> exn + 'a" where
  "field_with conv j k = (case json_index j k of Inl e \<Rightarrow> Inl e | Inr v \<Rightarrow> conv v)"

definition str_field :: "json \<Rightarrow> string \<Rightarrow> exn + string" where
  "str_field = field_with json_string"

definition bool_field :: "json \<Rightarrow> string \<Rightarrow> exn + bool" where
  "bool_field = field_with json_bool"

definition int_field :: "json \<Rightarrow> string \<Rightarrow> exn + int" where
  "int_field = field_with json_int"

definition enum_field :: "json \<Rightarrow> string \<Rightarrow> exn + int" where
  "enum_field = field_with json_enum"

section \<open>Well-formed values\<close>

fun keys_sorted :: "(string \<times> 'v) list \<Rightarrow> bool" where
  "keys_sorted [] = True"
| "keys_sorted [kv] = True"
| "keys_sorted (kv # kv' # kvs) = (fst kv < fst kv' \<and> keys_sorted (kv' # kvs))"

lemma keys_sorted_iff: "keys_sorted kvs \<longleftrightarrow> sorted_wrt (<) (map fst kvs)"
  by (induction kvs rule: keys_sorted.induct) (auto intro: order.strict_trans)

lemma kv_insert_keys: "fst ` set (kv_insert k v kvs) = insert k (fst ` set kvs)"
  by (induction k v kvs rule: kv_insert.induct) auto

lemma kv_insert_sorted: "keys_sorted kvs \<Longrightarrow> keys_sorted (kv_insert k v kvs)"
proof (induction k v kvs rule: kv_insert.induct)
  case (2 k v k' v' kvs)
  have "x \<in> fst ` set kvs \<Longrightarrow> k' < x" for x
    using 2(2) by (auto simp: keys_sorted_iff)
  moreover have "keys_sorted kvs" using 2(2) by (simp add: keys_sorted_iff)
  ultimately show ?case
    using 2 by (auto simp: keys_sorted_iff kv_insert_keys neq_iff intro: order.strict_trans)
qed simp

lemma map_of_kv_insert: "keys_sorted kvs \<Longrightarrow> map_of (kv_insert k v kvs) = (map_of kvs)(k \<mapsto> v)"
proof (induction k v kvs rule: kv_insert.induct)
  case (2 k v k' v' kvs)
  have "k < k' \<Longrightarrow> map_of kvs k = None"
    using 2(2) by (auto simp: keys_sorted_iff map_of_eq_None_iff dest: order.strict_trans)
  with 2 show ?case by (cases kvs) (auto simp: fun_eq_iff)
qed (simp add: fun_eq_iff)

lemma json_index_set:
  assumes "json_set k v j = Inr j'" and "\<And>kvs. j = JObject kvs \<Longrightarrow> keys_sorted kvs"
  shows "json_index j' k' = (if k' = k then Inr v else json_index j k')"
  using assms by (auto simp: json_set_def json_index_def map_of_kv_insert split: json.splits)

end
