(* ===== verification/Json_Lexer.thy ===== *)
theory Json_Lexer
  imports Json
begin

unbundle bit_operations_syntax

text \<open>
  The scanner of the bundled JSON library (\<^verbatim>\<open>json/include/nlohmann/detail/input/lexer.hpp\<close>).
  The input is the list of bytes not yet read; reading a character is taking its head and
  \<open>unget\<close> is leaving it there.  A scan function returns what it put in \<open>token_buffer\<close> and the
  rest of the input; \<^term>\<open>None\<close> is \<^verbatim>\<open>token_type::parse_error\<close>.  The locale is the C locale, so the
  decimal point is a dot, and comments are not ignored (the defaults of \<^verbatim>\<open>json::parse\<close>).
\<close>

section \<open>Tokens\<close>

datatype token =
    Literal_true
  | Literal_false
  | Literal_null
  | Value_string string
  | Value_unsigned "64 word"
  | Value_integer "64 word"
  | Value_float "(bool \<times> nat \<times> int) option"
  | Begin_array
  | Begin_object
  | End_array
  | End_object
  | Name_separator
  | Value_separator
  | Parse_error
  | End_of_input

abbreviation code :: "char \<Rightarrow> nat" where
  "code c \<equiv> of_char c"

section \<open>Strings\<close>

definition hex_val :: "char \<Rightarrow> nat option" where
  "hex_val c = (let n = code c in
     if 48 \<le> n \<and> n \<le> 57 then Some (n - 48)
     else if 65 \<le> n \<and> n \<le> 70 then Some (n - 55)
     else if 97 \<le> n \<and> n \<le> 102 then Some (n - 87)
     else None)"

definition get_codepoint :: "string \<Rightarrow> (nat \<times> string) option" where
  "get_codepoint cs = (case cs of
     a # b # c # d # rest \<Rightarrow> (case (hex_val a, hex_val b, hex_val c, hex_val d) of
        (Some w, Some x, Some y, Some z) \<Rightarrow>
          Some (w * 2 ^ 12 + x * 2 ^ 8 + y * 2 ^ 4 + z, rest)
      | _ \<Rightarrow> None)
   | _ \<Rightarrow> None)"

text \<open>The bytes of a code point in UTF-8, as \<open>scan_string\<close> adds them.\<close>

definition codepoint_bytes :: "nat \<Rightarrow> string" where
  "codepoint_bytes cp =
     (if cp < 0x80 then [char_of cp]
      else if cp \<le> 0x7FF then [char_of (0xC0 OR cp div 2 ^ 6), char_of (0x80 OR cp mod 2 ^ 6)]
      else if cp \<le> 0xFFFF then [char_of (0xE0 OR cp div 2 ^ 12),
        char_of (0x80 OR cp div 2 ^ 6 mod 2 ^ 6), char_of (0x80 OR cp mod 2 ^ 6)]
      else [char_of (0xF0 OR cp div 2 ^ 18), char_of (0x80 OR cp div 2 ^ 12 mod 2 ^ 6),
        char_of (0x80 OR cp div 2 ^ 6 mod 2 ^ 6), char_of (0x80 OR cp mod 2 ^ 6)])"

text \<open>A \<open>\\u\<close> escape after the \<open>u\<close>, with its low surrogate when it starts with a high one.\<close>

definition scan_unicode :: "string \<Rightarrow> (string \<times> string) option" where
  "scan_unicode cs = (case get_codepoint cs of
     None \<Rightarrow> None
   | Some (cp1, rest) \<Rightarrow>
       if 0xD800 \<le> cp1 \<and> cp1 \<le> 0xDBFF then
         (case rest of
            b # u # rest' \<Rightarrow>
              if b = CHR 0x5C \<and> u = CHR ''u'' then
                (case get_codepoint rest' of
                   None \<Rightarrow> None
                 | Some (cp2, rest'') \<Rightarrow>
                     if 0xDC00 \<le> cp2 \<and> cp2 \<le> 0xDFFF
                     then Some (codepoint_bytes (cp1 * 2 ^ 10 + cp2 - 0x35FDC00), rest'')
                     else None)
              else None
          | _ \<Rightarrow> None)
       else if 0xDC00 \<le> cp1 \<and> cp1 \<le> 0xDFFF then None
       else Some (codepoint_bytes cp1, rest))"

text \<open>The character after a backslash, and what follows it.\<close>

definition scan_escape :: "string \<Rightarrow> (string \<times> string) option" where
  "scan_escape cs = (case cs of
     [] \<Rightarrow> None
   | c # rest \<Rightarrow>
       if c = CHR 0x22 then Some ([CHR 0x22], rest)
       else if c = CHR 0x5C then Some ([CHR 0x5C], rest)
       else if c = CHR ''/'' then Some (''/'', rest)
       else if c = CHR ''b'' then Some ([CHR 0x08], rest)
       else if c = CHR ''f'' then Some ([CHR 0x0C], rest)
       else if c = CHR ''n'' then Some ([CHR 0x0A], rest)
       else if c = CHR ''r'' then Some ([CHR 0x0D], rest)
       else if c = CHR ''t'' then Some ([CHR 0x09], rest)
       else if c = CHR ''u'' then scan_unicode rest
       else None)"

text \<open>Adds the current byte, then one byte per range.\<close>

fun next_bytes :: "(nat \<times> nat) list \<Rightarrow> string \<Rightarrow> (string \<times> string) option" where
  "next_bytes [] cs = Some ([], cs)"
| "next_bytes ((lo, hi) # rs) [] = None"
| "next_bytes ((lo, hi) # rs) (c # cs) =
     (if lo \<le> code c \<and> code c \<le> hi
      then (case next_bytes rs cs of None \<Rightarrow> None | Some (bs, rest) \<Rightarrow> Some (c # bs, rest))
      else None)"

definition next_byte_in_range :: "char \<Rightarrow> (nat \<times> nat) list \<Rightarrow> string \<Rightarrow> (string \<times> string) option" where
  "next_byte_in_range c ranges cs = (case next_bytes ranges cs of
     None \<Rightarrow> None | Some (bs, rest) \<Rightarrow> Some (c # bs, rest))"

text \<open>The ranges of the continuation bytes after a leading byte; \<^term>\<open>None\<close>: ill-formed.\<close>

definition utf8_ranges :: "nat \<Rightarrow> (nat \<times> nat) list option" where
  "utf8_ranges n =
     (if 0xC2 \<le> n \<and> n \<le> 0xDF then Some [(0x80, 0xBF)]
      else if n = 0xE0 then Some [(0xA0, 0xBF), (0x80, 0xBF)]
      else if 0xE1 \<le> n \<and> n \<le> 0xEC \<or> n = 0xEE \<or> n = 0xEF then Some [(0x80, 0xBF), (0x80, 0xBF)]
      else if n = 0xED then Some [(0x80, 0x9F), (0x80, 0xBF)]
      else if n = 0xF0 then Some [(0x90, 0xBF), (0x80, 0xBF), (0x80, 0xBF)]
      else if 0xF1 \<le> n \<and> n \<le> 0xF3 then Some [(0x80, 0xBF), (0x80, 0xBF), (0x80, 0xBF)]
      else if n = 0xF4 then Some [(0x80, 0x8F), (0x80, 0xBF), (0x80, 0xBF)]
      else None)"

text \<open>One character of a string other than the closing quote.\<close>

definition scan_char :: "char \<Rightarrow> string \<Rightarrow> (string \<times> string) option" where
  "scan_char c cs =
     (if c = CHR 0x5C then scan_escape cs
      else if code c \<le> 0x1F then None
      else if code c \<le> 0x7F then Some ([c], cs)
      else (case utf8_ranges (code c) of
              None \<Rightarrow> None
            | Some ranges \<Rightarrow> next_byte_in_range c ranges cs))"

lemma next_bytes_length: "next_bytes rs cs = Some (bs, rest) \<Longrightarrow> length cs = length bs + length rest"
  by (induction rs cs arbitrary: bs rule: next_bytes.induct) (auto split: if_splits option.splits)

lemma next_byte_in_range_length:
  "next_byte_in_range c rs cs = Some (bs, rest) \<Longrightarrow> length rest \<le> length cs"
  by (auto simp: next_byte_in_range_def dest: next_bytes_length split: option.splits)

lemma get_codepoint_length: "get_codepoint cs = Some (cp, rest) \<Longrightarrow> length rest < length cs"
  by (auto simp: get_codepoint_def split: list.splits option.splits)

lemma scan_unicode_length: "scan_unicode cs = Some (bs, rest) \<Longrightarrow> length rest < length cs"
  by (auto simp: scan_unicode_def dest!: get_codepoint_length split: option.splits if_splits list.splits)

lemma scan_escape_length: "scan_escape cs = Some (bs, rest) \<Longrightarrow> length rest < length cs"
  by (auto simp: scan_escape_def dest!: scan_unicode_length split: list.splits if_splits)

lemma scan_char_length: "scan_char c cs = Some (bs, rest) \<Longrightarrow> length rest \<le> length cs"
  by (auto simp: scan_char_def dest: scan_escape_length next_byte_in_range_length
      split: if_splits option.splits)

text \<open>\<open>scan_string\<close> after the opening quote; \<open>buf\<close> is \<open>token_buffer\<close>.\<close>

function scan_string :: "string \<Rightarrow> string \<Rightarrow> (string \<times> string) option" where
  "scan_string buf [] = None"
| "scan_string buf (c # cs) =
     (if c = CHR 0x22 then Some (buf, cs)
      else (case scan_char c cs of
              None \<Rightarrow> None
            | Some (bs, rest) \<Rightarrow> scan_string (buf @ bs) rest))"
  by pat_completeness auto
termination
  by (relation "measure (\<lambda>(buf, cs). length cs)") (auto dest: scan_char_length)

lemma scan_string_length: "scan_string buf cs = Some (s, rest) \<Longrightarrow> length rest < length cs"
proof (induction buf cs rule: scan_string.induct)
  case (2 buf c cs)
  then show ?case by (fastforce dest: scan_char_length split: if_splits option.splits)
qed simp

section \<open>Numbers\<close>

datatype number_type = Unsigned | Integer | Float

datatype number_state = Minus | Zero | Any1 | Decimal1 | Decimal2 | Exponent | Sign | Any2

definition is_exp :: "char \<Rightarrow> bool" where
  "is_exp c \<longleftrightarrow> c = CHR ''e'' \<or> c = CHR ''E''"

text \<open>
  The state machine: one equation per label of the source.  A state looks at the next character;
  it adds it and moves on, or the number is done and the character is left unread.
\<close>

fun number_step :: "number_state \<Rightarrow> number_type \<Rightarrow> string \<Rightarrow> string \<Rightarrow> (number_type \<times> string \<times> string) option" where
  "number_step Minus t buf (c # cs) =
     (if c = CHR ''0'' then number_step Zero Integer (buf @ [c]) cs
      else if is_digit c then number_step Any1 Integer (buf @ [c]) cs
      else None)"
| "number_step Minus t buf [] = None"
| "number_step Zero t buf (c # cs) =
     (if c = CHR ''.'' then number_step Decimal1 t (buf @ [c]) cs
      else if is_exp c then number_step Exponent t (buf @ [c]) cs
      else Some (t, buf, c # cs))"
| "number_step Zero t buf [] = Some (t, buf, [])"
| "number_step Any1 t buf (c # cs) =
     (if is_digit c then number_step Any1 t (buf @ [c]) cs
      else if c = CHR ''.'' then number_step Decimal1 t (buf @ [c]) cs
      else if is_exp c then number_step Exponent t (buf @ [c]) cs
      else Some (t, buf, c # cs))"
| "number_step Any1 t buf [] = Some (t, buf, [])"
| "number_step Decimal1 t buf (c # cs) =
     (if is_digit c then number_step Decimal2 Float (buf @ [c]) cs else None)"
| "number_step Decimal1 t buf [] = None"
| "number_step Decimal2 t buf (c # cs) =
     (if is_digit c then number_step Decimal2 t (buf @ [c]) cs
      else if is_exp c then number_step Exponent t (buf @ [c]) cs
      else Some (t, buf, c # cs))"
| "number_step Decimal2 t buf [] = Some (t, buf, [])"
| "number_step Exponent t buf (c # cs) =
     (if c = CHR ''+'' \<or> c = CHR ''-'' then number_step Sign Float (buf @ [c]) cs
      else if is_digit c then number_step Any2 Float (buf @ [c]) cs
      else None)"
| "number_step Exponent t buf [] = None"
| "number_step Sign t buf (c # cs) =
     (if is_digit c then number_step Any2 t (buf @ [c]) cs else None)"
| "number_step Sign t buf [] = None"
| "number_step Any2 t buf (c # cs) =
     (if is_digit c then number_step Any2 t (buf @ [c]) cs else Some (t, buf, c # cs))"
| "number_step Any2 t buf [] = Some (t, buf, [])"

text \<open>
  \<^verbatim>\<open>strtod\<close>: the literal denotes a rational \<open>n / d\<close>, rounded to the nearest double, ties to even,
  with gradual underflow; \<^term>\<open>None\<close> is an infinite result.
\<close>

fun bit_length :: "nat \<Rightarrow> nat" where
  "bit_length n = (if n = 0 then 0 else Suc (bit_length (n div 2)))"

declare bit_length.simps [simp del]

definition scale :: "nat \<Rightarrow> nat \<Rightarrow> int \<Rightarrow> nat \<times> nat" where
  "scale n d e = (if 0 \<le> e then (n, d * 2 ^ nat e) else (n * 2 ^ nat (- e), d))"

definition round_double :: "nat \<Rightarrow> nat \<Rightarrow> (nat \<times> int) option" where
  "round_double n d =
     (if n = 0 then Some (0, 0)
      else let e0 = int (bit_length n) - int (bit_length d) - 53;
               e1 = (case scale n d e0 of (a, b) \<Rightarrow> if a div b < 2 ^ 53 then e0 else e0 + 1);
               e = max e1 (- 1074)
           in (case scale n d e of (a, b) \<Rightarrow>
                 let q = a div b; r = a mod b;
                     q' = (if b < 2 * r \<or> 2 * r = b \<and> odd q then Suc q else q)
                 in if 0 \<le> e \<and> 2 ^ 1024 \<le> q' * 2 ^ nat e then None else Some (q', e)))"

text \<open>The parts of a number literal: sign, digits, and the power of ten they are scaled by.\<close>

definition float_parts :: "string \<Rightarrow> bool \<times> nat \<times> int" where
  "float_parts buf = (let neg = (buf \<noteq> [] \<and> hd buf = CHR ''-'');
       body = (if neg then tl buf else buf);
       whole = takeWhile is_digit body;
       r1 = dropWhile is_digit body;
       frac = (if r1 \<noteq> [] \<and> hd r1 = CHR ''.'' then takeWhile is_digit (tl r1) else []);
       r2 = (if r1 \<noteq> [] \<and> hd r1 = CHR ''.'' then dropWhile is_digit (tl r1) else r1);
       ex = (if r2 \<noteq> [] then tl r2 else []);
       ex_neg = (ex \<noteq> [] \<and> hd ex = CHR ''-'');
       ex_digits = (if ex \<noteq> [] \<and> (hd ex = CHR ''-'' \<or> hd ex = CHR ''+'') then tl ex else ex);
       x = int (undec ex_digits)
     in (neg, undec (whole @ frac), (if ex_neg then - x else x) - int (length frac)))"

definition strtod :: "string \<Rightarrow> (bool \<times> nat \<times> int) option" where
  "strtod buf = (case float_parts buf of (neg, digits, x) \<Rightarrow>
     map_option (\<lambda>(m, e). (neg, m, e))
       (if 0 \<le> x then round_double (digits * 10 ^ nat x) 1 else round_double digits (10 ^ nat (- x))))"

text \<open>The conversion at the end of \<open>scan_number\<close>: integers first, doubles when they do not fit.\<close>

definition number_token :: "number_type \<Rightarrow> string \<Rightarrow> token" where
  "number_token t buf = (case t of
     Unsigned \<Rightarrow> (let n = undec buf in
       if n < 2 ^ 64 then Value_unsigned (word_of_nat n) else Value_float (strtod buf))
   | Integer \<Rightarrow> (let n = undec (tl buf) in
       if n \<le> 2 ^ 63 then Value_integer (- word_of_nat n) else Value_float (strtod buf))
   | Float \<Rightarrow> Value_float (strtod buf))"

definition scan_number :: "char \<Rightarrow> string \<Rightarrow> (token \<times> string) option" where
  "scan_number c cs = map_option (\<lambda>(t, buf, rest). (number_token t buf, rest))
     (if c = CHR ''-'' then number_step Minus Unsigned [c] cs
      else if c = CHR ''0'' then number_step Zero Unsigned [c] cs
      else number_step Any1 Unsigned [c] cs)"

lemma number_step_length:
  "number_step st t buf cs = Some (t', buf', rest) \<Longrightarrow> length rest \<le> length cs"
  by (induction st t buf cs rule: number_step.induct) (auto split: if_splits dest: le_SucI)

section \<open>The scanner\<close>

definition is_ws :: "char \<Rightarrow> bool" where
  "is_ws c \<longleftrightarrow> c = CHR '' '' \<or> c = CHR 0x09 \<or> c = CHR 0x0A \<or> c = CHR 0x0D"

definition skip_whitespace :: "string \<Rightarrow> string" where
  "skip_whitespace = dropWhile is_ws"

fun scan_literal :: "string \<Rightarrow> token \<Rightarrow> string \<Rightarrow> token \<times> string" where
  "scan_literal [] tok cs = (tok, cs)"
| "scan_literal (l # ls) tok [] = (Parse_error, [])"
| "scan_literal (l # ls) tok (c # cs) = (if c = l then scan_literal ls tok cs else (Parse_error, cs))"

text \<open>\<^verbatim>\<open>lexer::scan\<close> after the byte order mark: the next token and the rest of the input.\<close>

definition scan :: "string \<Rightarrow> token \<times> string" where
  "scan inp = (case skip_whitespace inp of
     [] \<Rightarrow> (End_of_input, [])
   | c # cs \<Rightarrow>
       if c = CHR ''['' then (Begin_array, cs)
       else if c = CHR '']'' then (End_array, cs)
       else if c = CHR ''{'' then (Begin_object, cs)
       else if c = CHR ''}'' then (End_object, cs)
       else if c = CHR '':'' then (Name_separator, cs)
       else if c = CHR '','' then (Value_separator, cs)
       else if c = CHR ''t'' then scan_literal ''rue'' Literal_true cs
       else if c = CHR ''f'' then scan_literal ''alse'' Literal_false cs
       else if c = CHR ''n'' then scan_literal ''ull'' Literal_null cs
       else if c = CHR 0x22 then
         (case scan_string [] cs of None \<Rightarrow> (Parse_error, cs) | Some (s, rest) \<Rightarrow> (Value_string s, rest))
       else if c = CHR ''-'' \<or> is_digit c then
         (case scan_number c cs of None \<Rightarrow> (Parse_error, cs) | Some (tok, rest) \<Rightarrow> (tok, rest))
       else if c = NUL then (End_of_input, cs)
       else (Parse_error, cs))"

text \<open>\<^verbatim>\<open>skip_bom\<close>, done once before the first token; \<^term>\<open>None\<close> is a broken mark.\<close>

definition skip_bom :: "string \<Rightarrow> string option" where
  "skip_bom inp = (case inp of
     [] \<Rightarrow> Some []
   | c # cs \<Rightarrow> if code c = 0xEF
       then (case cs of
               b # d # rest \<Rightarrow> if code b = 0xBB \<and> code d = 0xBF then Some rest else None
             | _ \<Rightarrow> None)
       else Some inp)"

lemma scan_literal_length: "scan_literal ls tok cs = (t, rest) \<Longrightarrow> length rest \<le> length cs"
  by (induction ls tok cs rule: scan_literal.induct) (auto split: if_splits dest: le_SucI)

lemma scan_number_length: "scan_number c cs = Some (tok, rest) \<Longrightarrow> length rest \<le> length cs"
  by (auto simp: scan_number_def dest: number_step_length split: if_splits)

text \<open>Every token but the end of the input consumes at least one byte.\<close>

lemma if_rest:
  "length (snd x) \<le> n \<Longrightarrow> length (snd y) \<le> n \<Longrightarrow> length (snd (if b then x else y)) \<le> n"
  by simp

lemma scan_rest:
  assumes "skip_whitespace inp = c # cs"
  shows "length (snd (scan inp)) \<le> length cs"
proof -
  have literal: "length (snd (scan_literal ls t cs)) \<le> length cs" for ls t
    using scan_literal_length [of ls t cs] by (cases "scan_literal ls t cs") auto
  have str: "length (snd (case scan_string [] cs of None \<Rightarrow> (Parse_error, cs) | Some (s, r) \<Rightarrow> (Value_string s, r)))
      \<le> length cs"
    using scan_string_length [of "[]" cs] by (auto split: option.splits dest: less_imp_le)
  have number: "length (snd (case scan_number c cs of None \<Rightarrow> (Parse_error, cs) | Some (t, r) \<Rightarrow> (t, r))) \<le> length cs"
    using scan_number_length [of c cs] by (auto split: option.splits)
  show ?thesis
    unfolding scan_def assms list.case
    by (intro if_rest literal str number) simp_all
qed

lemma scan_length:
  assumes "scan inp = (tok, rest)" and "tok \<noteq> End_of_input"
  shows "length rest < length inp"
proof (cases "skip_whitespace inp")
  case Nil
  with assms show ?thesis by (simp add: scan_def)
next
  case (Cons c cs)
  then have "length cs < length inp"
    using length_dropWhile_le [of is_ws inp] by (simp add: skip_whitespace_def)
  with scan_rest [OF Cons] assms(1) show ?thesis by simp
qed

lemma scan_le: "scan inp = (tok, rest) \<Longrightarrow> length rest \<le> length inp"
proof (cases "skip_whitespace inp")
  case Nil
  moreover assume "scan inp = (tok, rest)"
  ultimately show ?thesis by (simp add: scan_def)
next
  case (Cons c cs)
  assume "scan inp = (tok, rest)"
  with scan_rest [OF Cons] length_dropWhile_le [of is_ws inp] Cons show ?thesis
    by (simp add: skip_whitespace_def)
qed

end
