(* ===== verification/Json_Parser.thy ===== *)
theory Json_Parser
  imports Json_Lexer
begin

text \<open>
  The parser of the bundled JSON library (\<^verbatim>\<open>detail/input/parser.hpp\<close>) together with the SAX handler
  that builds the value (\<^verbatim>\<open>json_sax_dom_parser\<close> in \<^verbatim>\<open>detail/input/json_sax.hpp\<close>).  The source is one
  loop over an explicit stack of open containers; so is the model, with the container under
  construction kept on the stack.  A parse error throws, as \<open>allow_exceptions\<close> is on.
\<close>

section \<open>The loop\<close>

datatype open_container = Open_array "json list" | Open_object "(string \<times> json) list" string

text \<open>
  Where the loop is: about to look at \<open>last_token\<close>, or past a complete value, evaluating the
  state on top of the stack (\<open>skip_to_state_evaluation\<close>).
\<close>

datatype position = At_token token | After_value json

definition pos_weight :: "position \<Rightarrow> nat" where
  "pos_weight p = (case p of After_value v \<Rightarrow> 0 | At_token t \<Rightarrow> if t = End_of_input then 0 else 1)"

lemma pos_weight_simps [simp]:
  "pos_weight (After_value v) = 0" "pos_weight (At_token End_of_input) = 0"
  "t \<noteq> End_of_input \<Longrightarrow> pos_weight (At_token t) = 1" "pos_weight p \<le> 1"
  by (auto simp: pos_weight_def split: position.splits)

lemma scan_weight: "scan inp = (t, r) \<Longrightarrow> 2 * length r + pos_weight (At_token t) \<le> 2 * length inp"
  using scan_le [of inp t r] scan_length [of inp t r] by (cases "t = End_of_input") auto

function parse_loop :: "position \<Rightarrow> open_container list \<Rightarrow> string \<Rightarrow> exn + (json \<times> string)" where
  "parse_loop (At_token tok) states inp = (case tok of
     Begin_object \<Rightarrow> (case scan inp of (t1, r1) \<Rightarrow> (case t1 of
         End_object \<Rightarrow> parse_loop (After_value (JObject [])) states r1
       | Value_string k \<Rightarrow> (case scan r1 of (t2, r2) \<Rightarrow>
           if t2 = Name_separator
           then (case scan r2 of (t3, r3) \<Rightarrow> parse_loop (At_token t3) (Open_object [] k # states) r3)
           else Inl Json_parse_error)
       | _ \<Rightarrow> Inl Json_parse_error))
   | Begin_array \<Rightarrow> (case scan inp of (t1, r1) \<Rightarrow>
       if t1 = End_array then parse_loop (After_value (JArray [])) states r1
       else parse_loop (At_token t1) (Open_array [] # states) r1)
   | Value_float None \<Rightarrow> Inl Json_out_of_range
   | Value_float (Some (neg, m, e)) \<Rightarrow> parse_loop (After_value (JFloat neg m e)) states inp
   | Literal_false \<Rightarrow> parse_loop (After_value (JBool False)) states inp
   | Literal_null \<Rightarrow> parse_loop (After_value JNull) states inp
   | Literal_true \<Rightarrow> parse_loop (After_value (JBool True)) states inp
   | Value_integer w \<Rightarrow> parse_loop (After_value (JInteger w)) states inp
   | Value_string s \<Rightarrow> parse_loop (After_value (JString s)) states inp
   | Value_unsigned w \<Rightarrow> parse_loop (After_value (JUnsigned w)) states inp
   | _ \<Rightarrow> Inl Json_parse_error)"
| "parse_loop (After_value v) [] inp = Inr (v, inp)"
| "parse_loop (After_value v) (Open_array vs # states) inp = (case scan inp of (t1, r1) \<Rightarrow>
     if t1 = Value_separator
     then (case scan r1 of (t2, r2) \<Rightarrow> parse_loop (At_token t2) (Open_array (vs @ [v]) # states) r2)
     else if t1 = End_array then parse_loop (After_value (JArray (vs @ [v]))) states r1
     else Inl Json_parse_error)"
| "parse_loop (After_value v) (Open_object kvs k # states) inp = (case scan inp of (t1, r1) \<Rightarrow>
     if t1 = Value_separator
     then (case scan r1 of (t2, r2) \<Rightarrow> (case t2 of
         Value_string k' \<Rightarrow> (case scan r2 of (t3, r3) \<Rightarrow>
           if t3 = Name_separator
           then (case scan r3 of (t4, r4) \<Rightarrow>
                  parse_loop (At_token t4) (Open_object (kv_insert k v kvs) k' # states) r4)
           else Inl Json_parse_error)
       | _ \<Rightarrow> Inl Json_parse_error))
     else if t1 = End_object then parse_loop (After_value (JObject (kv_insert k v kvs))) states r1
     else Inl Json_parse_error)"
  by pat_completeness auto


termination
proof (relation "measure (\<lambda>(p, states, inp). 2 * length inp + pos_weight p)", goal_cases)
  case 1
  show ?case by simp
qed (auto dest!: scan_weight [OF sym] scan_length [OF sym])

declare parse_loop.simps(1) [simp del]

section \<open>The entry point\<close>

text \<open>\<^verbatim>\<open>json::parse\<close> of a byte sequence: strict, so only the end of the input may follow the value.\<close>

definition json_parse :: "string \<Rightarrow> exn + json" where
  "json_parse inp = (case skip_bom inp of
     None \<Rightarrow> Inl Json_parse_error
   | Some inp' \<Rightarrow> (case scan inp' of (t, r) \<Rightarrow>
       (case parse_loop (At_token t) [] r of
          Inl e \<Rightarrow> Inl e
        | Inr (v, r') \<Rightarrow> if fst (scan r') = End_of_input then Inr v else Inl Json_parse_error)))"

end
