(* ===== verification/Json_Dump.thy ===== *)
theory Json_Dump
  imports Json
begin

unbundle bit_operations_syntax

text \<open>
  The serialiser of the bundled JSON library (\<^verbatim>\<open>detail/output/serializer.hpp\<close>) as \<^verbatim>\<open>json::dump\<close>
  calls it: no indentation, \<open>ensure_ascii\<close> off, the strict error handler.  A string that is not
  well-formed UTF-8 makes it throw.  The byte tables of the source are kept as tables.  Doubles
  are not printed (the server never sends one); the model reports them as a failure of its own.
\<close>

section \<open>UTF-8 decoding\<close>

definition UTF8_ACCEPT :: nat where
  "UTF8_ACCEPT = 0"

definition UTF8_REJECT :: nat where
  "UTF8_REJECT = 1"

text \<open>The first 256 entries of the table classify a byte, the rest are the transitions.\<close>

definition utf8d :: "nat list" where
  "utf8d = replicate 128 0
     @ replicate 16 1 @ replicate 16 9 @ replicate 32 7
     @ [8, 8] @ replicate 30 2
     @ [0xA, 0x3, 0x3, 0x3, 0x3, 0x3, 0x3, 0x3, 0x3, 0x3, 0x3, 0x3, 0x3, 0x4, 0x3, 0x3]
     @ [0xB, 0x6, 0x6, 0x6, 0x5, 0x8, 0x8, 0x8, 0x8, 0x8, 0x8, 0x8, 0x8, 0x8, 0x8, 0x8]
     @ [0x0, 0x1, 0x2, 0x3, 0x5, 0x8, 0x7, 0x1, 0x1, 0x1, 0x4, 0x6, 0x1, 0x1, 0x1, 0x1]
     @ [1, 1, 1, 1, 1, 1, 1, 1, 1, 1, 1, 1, 1, 1, 1, 1, 1, 0, 1, 1, 1, 1, 1, 0, 1, 0, 1, 1, 1, 1, 1, 1]
     @ [1, 2, 1, 1, 1, 1, 1, 2, 1, 2, 1, 1, 1, 1, 1, 1, 1, 1, 1, 1, 1, 1, 1, 2, 1, 1, 1, 1, 1, 1, 1, 1]
     @ [1, 2, 1, 1, 1, 1, 1, 1, 1, 2, 1, 1, 1, 1, 1, 1, 1, 1, 1, 1, 1, 1, 1, 3, 1, 3, 1, 1, 1, 1, 1, 1]
     @ [1, 3, 1, 1, 1, 1, 1, 3, 1, 3, 1, 1, 1, 1, 1, 1, 1, 3, 1, 1, 1, 1, 1, 1, 1, 1, 1, 1, 1, 1, 1, 1]"

definition decode :: "nat \<times> nat \<Rightarrow> nat \<Rightarrow> nat \<times> nat" where
  "decode sc byte = (case sc of (state, codep) \<Rightarrow>
     let type = utf8d ! byte;
         codep' = (if state \<noteq> UTF8_ACCEPT then (byte AND 0x3F) OR codep * 2 ^ 6
                   else (0xFF div 2 ^ type) AND byte)
     in (utf8d ! (256 + state * 16 + type), codep'))"

section \<open>Strings\<close>

definition hex_digit :: "nat \<Rightarrow> char" where
  "hex_digit d = (if d < 10 then char_of (48 + d) else char_of (87 + d))"

text \<open>\<^verbatim>\<open>snprintf\<close> with the format \<open>\\u%04x\<close>.\<close>

definition unicode_escape :: "nat \<Rightarrow> string" where
  "unicode_escape cp = [CHR 0x5C, CHR ''u'', hex_digit (cp div 2 ^ 12 mod 16), hex_digit (cp div 2 ^ 8 mod 16),
     hex_digit (cp div 2 ^ 4 mod 16), hex_digit (cp mod 16)]"

text \<open>What is written when \<open>decode\<close> has accepted a code point at the byte \<open>c\<close>.\<close>

definition accept_bytes :: "nat \<Rightarrow> char \<Rightarrow> string" where
  "accept_bytes codepoint c =
     (if codepoint = 0x08 then [CHR 0x5C, CHR ''b'']
      else if codepoint = 0x09 then [CHR 0x5C, CHR ''t'']
      else if codepoint = 0x0A then [CHR 0x5C, CHR ''n'']
      else if codepoint = 0x0C then [CHR 0x5C, CHR ''f'']
      else if codepoint = 0x0D then [CHR 0x5C, CHR ''r'']
      else if codepoint = 0x22 then [CHR 0x5C, CHR 0x22]
      else if codepoint = 0x5C then [CHR 0x5C, CHR 0x5C]
      else if codepoint \<le> 0x1F then unicode_escape codepoint
      else [c])"

text \<open>
  The loop of \<open>dump_escaped\<close> from a decoder state, returning what it writes.  The chunks in
  which \<open>string_buffer\<close> is flushed do not show in the output.
\<close>

fun dump_escaped_from :: "nat \<times> nat \<Rightarrow> string \<Rightarrow> exn + string" where
  "dump_escaped_from sc [] = (if fst sc = UTF8_ACCEPT then Inr [] else Inl (Json_type_error 316))"
| "dump_escaped_from sc (c # cs) = (case decode sc (of_char c) of (state, codepoint) \<Rightarrow>
     if state = UTF8_REJECT then Inl (Json_type_error 316)
     else (case dump_escaped_from (state, codepoint) cs of
             Inl e \<Rightarrow> Inl e
           | Inr out \<Rightarrow> Inr ((if state = UTF8_ACCEPT then accept_bytes codepoint c else [c]) @ out)))"

definition dump_escaped :: "string \<Rightarrow> exn + string" where
  "dump_escaped s = dump_escaped_from (UTF8_ACCEPT, 0) s"

section \<open>Integers\<close>

text \<open>
  \<open>dump_integer\<close> fills the buffer from its end, two digits at a time from a table of pairs.
\<close>

definition digits_to_99 :: "nat \<Rightarrow> string" where
  "digits_to_99 i = [digit_char (i div 10), digit_char (i mod 10)]"

fun count_digits :: "nat \<Rightarrow> nat" where
  "count_digits x = (if x < 10 then 1 else if x < 100 then 2 else if x < 1000 then 3
     else if x < 10000 then 4 else count_digits (x div 10000) + 4)"

declare count_digits.simps [simp del]

fun fill_digits :: "nat \<Rightarrow> string \<Rightarrow> string" where
  "fill_digits abs_value out =
     (if 100 \<le> abs_value then fill_digits (abs_value div 100) (digits_to_99 (abs_value mod 100) @ out)
      else if 10 \<le> abs_value then digits_to_99 abs_value @ out
      else digit_char abs_value # out)"

declare fill_digits.simps [simp del]

text \<open>\<open>remove_sign\<close>: the absolute value of a negative number, without overflow at the minimum.\<close>

definition remove_sign :: "64 word \<Rightarrow> 64 word" where
  "remove_sign x = (- (x + 1)) + 1"

definition dump_unsigned :: "64 word \<Rightarrow> string" where
  "dump_unsigned x = (if x = 0 then ''0'' else fill_digits (unat x) [])"

definition dump_integer :: "64 word \<Rightarrow> string" where
  "dump_integer x = (if x = 0 then ''0''
     else if x <s 0 then CHR ''-'' # fill_digits (unat (remove_sign x)) []
     else fill_digits (unat x) [])"

section \<open>Values\<close>

fun dump :: "json \<Rightarrow> exn + string"
  and dump_elements :: "json list \<Rightarrow> exn + string"
  and dump_members :: "(string \<times> json) list \<Rightarrow> exn + string" where
  "dump (JObject kvs) = (if kvs = [] then Inr ''{}''
     else (case dump_members kvs of Inl e \<Rightarrow> Inl e | Inr out \<Rightarrow> Inr (''{'' @ out @ ''}'')))"
| "dump (JArray vs) = (if vs = [] then Inr ''[]''
     else (case dump_elements vs of Inl e \<Rightarrow> Inl e | Inr out \<Rightarrow> Inr (''['' @ out @ '']'')))"
| "dump (JString s) = (case dump_escaped s of Inl e \<Rightarrow> Inl e | Inr out \<Rightarrow> Inr ([CHR 0x22] @ out @ [CHR 0x22]))"
| "dump (JBool b) = Inr (if b then ''true'' else ''false'')"
| "dump (JInteger w) = Inr (dump_integer w)"
| "dump (JUnsigned w) = Inr (dump_unsigned w)"
| "dump (JFloat neg m e) = Inl Json_float_dump"
| "dump JNull = Inr ''null''"
| "dump_elements [] = Inr []"
| "dump_elements (v # vs) = (case dump v of Inl e \<Rightarrow> Inl e | Inr out \<Rightarrow>
     if vs = [] then Inr out
     else (case dump_elements vs of Inl e \<Rightarrow> Inl e | Inr out' \<Rightarrow> Inr (out @ '','' @ out')))"
| "dump_members [] = Inr []"
| "dump_members ((k, v) # kvs) = (case dump_escaped k of Inl e \<Rightarrow> Inl e | Inr key \<Rightarrow>
     (case dump v of Inl e \<Rightarrow> Inl e | Inr out \<Rightarrow>
        (let member = [CHR 0x22] @ key @ [CHR 0x22, CHR '':''] @ out in
         if kvs = [] then Inr member
         else (case dump_members kvs of Inl e \<Rightarrow> Inl e | Inr out' \<Rightarrow> Inr (member @ '','' @ out')))))"

end
