(* ===== verification/Json_Utf8.thy ===== *)
theory Json_Utf8
  imports Json_Dump Json_Lexer
begin

unbundle bit_operations_syntax

text \<open>
  The serialiser and the scanner of the JSON library check UTF-8 in two different ways: \<open>decode\<close>
  runs a table-driven automaton, \<open>scan_char\<close> follows hard-wired byte ranges.  This theory shows
  that they accept the same byte sequences, and that \<open>dump_escaped\<close> escapes exactly so that
  \<open>scan_string\<close> reads the original bytes back.
\<close>

section \<open>Bit operations on small numbers\<close>

lemma or_ge1: "(m :: nat) \<le> m OR n"
proof -
  have "int m \<le> int m OR int n" by (rule or_greater_eq) simp
  then show ?thesis by (simp flip: of_nat_or_eq)
qed

lemma or_ge2: "(n :: nat) \<le> m OR n"
  using or_ge1 [of n m] by (simp add: or.commute)

lemma and_mask_nat: "(2 ^ k - 1) AND (n :: nat) = n mod 2 ^ k"
  using take_bit_eq_mask [of k n] by (simp add: take_bit_eq_mod mask_eq_exp_minus_1 and.commute)

lemma and_mask6: "(n :: nat) AND 0x3F = n mod 64"
  using and_mask_nat [of 6 n] by (simp add: and.commute)

section \<open>The automaton\<close>

lemma byte_class:
  assumes "b < 256"
  shows "utf8d ! b =
    (if b < 128 then 0 else if b < 144 then 1 else if b < 160 then 9 else if b < 192 then 7
     else if b < 194 then 8 else if b < 224 then 2 else if b = 224 then 10 else if b = 237 then 4
     else if b < 240 then 3 else if b = 240 then 11 else if b < 244 then 6 else if b = 244 then 5 else 8)"
proof -
  consider "b < 128" | "128 \<le> b" "b < 144" | "144 \<le> b" "b < 160" | "160 \<le> b" "b < 192"
    | "b = 192" | "b = 193" | "194 \<le> b" "b < 224" | "b \<in> {224..255}"
    using assms by fastforce
  then show ?thesis
  proof cases
    case 8
    moreover have "[224..<256] = [224, 225, 226, 227, 228, 229, 230, 231, 232, 233, 234, 235, 236, 237, 238, 239, 240, 241,
      242, 243, 244, 245, 246, 247, 248, 249, 250, 251, 252, 253, 254, 255]"
      by (simp add: upt_conv_Cons)
    moreover have "{224..255} = {224..<256 :: nat}" by auto
    then have "{224..255} = set [224..<256 :: nat]" by (simp only: set_upt)
    ultimately have "b \<in> set [224, 225, 226, 227, 228, 229, 230, 231, 232, 233, 234, 235, 236, 237, 238, 239, 240, 241,
      242, 243, 244, 245, 246, 247, 248, 249, 250, 251, 252, 253, 254, 255]" by (simp only:)
    then show ?thesis unfolding set_simps insert_iff empty_iff
      by (elim disjE) (simp_all add: utf8d_def nth_append)
  qed (auto simp: utf8d_def nth_append)
qed

text \<open>The entries of the transition table, by state and byte class.\<close>

lemma transition:
  "utf8d ! 256 = 0" "utf8d ! 257 = 1" "utf8d ! 258 = 2" "utf8d ! 259 = 3" "utf8d ! 260 = 5"
  "utf8d ! 261 = 8" "utf8d ! 262 = 7" "utf8d ! 263 = 1" "utf8d ! 264 = 1" "utf8d ! 265 = 1"
  "utf8d ! 266 = 4" "utf8d ! 267 = 6" "utf8d ! 288 = 1" "utf8d ! 289 = 0" "utf8d ! 290 = 1"
  "utf8d ! 291 = 1" "utf8d ! 292 = 1" "utf8d ! 293 = 1" "utf8d ! 294 = 1" "utf8d ! 295 = 0"
  "utf8d ! 296 = 1" "utf8d ! 297 = 0" "utf8d ! 298 = 1" "utf8d ! 299 = 1" "utf8d ! 304 = 1"
  "utf8d ! 305 = 2" "utf8d ! 306 = 1" "utf8d ! 307 = 1" "utf8d ! 308 = 1" "utf8d ! 309 = 1"
  "utf8d ! 310 = 1" "utf8d ! 311 = 2" "utf8d ! 312 = 1" "utf8d ! 313 = 2" "utf8d ! 314 = 1"
  "utf8d ! 315 = 1" "utf8d ! 320 = 1" "utf8d ! 321 = 1" "utf8d ! 322 = 1" "utf8d ! 323 = 1"
  "utf8d ! 324 = 1" "utf8d ! 325 = 1" "utf8d ! 326 = 1" "utf8d ! 327 = 2" "utf8d ! 328 = 1"
  "utf8d ! 329 = 1" "utf8d ! 330 = 1" "utf8d ! 331 = 1" "utf8d ! 336 = 1" "utf8d ! 337 = 2"
  "utf8d ! 338 = 1" "utf8d ! 339 = 1" "utf8d ! 340 = 1" "utf8d ! 341 = 1" "utf8d ! 342 = 1"
  "utf8d ! 343 = 1" "utf8d ! 344 = 1" "utf8d ! 345 = 2" "utf8d ! 346 = 1" "utf8d ! 347 = 1"
  "utf8d ! 352 = 1" "utf8d ! 353 = 1" "utf8d ! 354 = 1" "utf8d ! 355 = 1" "utf8d ! 356 = 1"
  "utf8d ! 357 = 1" "utf8d ! 358 = 1" "utf8d ! 359 = 3" "utf8d ! 360 = 1" "utf8d ! 361 = 3"
  "utf8d ! 362 = 1" "utf8d ! 363 = 1" "utf8d ! 368 = 1" "utf8d ! 369 = 3" "utf8d ! 370 = 1"
  "utf8d ! 371 = 1" "utf8d ! 372 = 1" "utf8d ! 373 = 1" "utf8d ! 374 = 1" "utf8d ! 375 = 3"
  "utf8d ! 376 = 1" "utf8d ! 377 = 3" "utf8d ! 378 = 1" "utf8d ! 379 = 1" "utf8d ! 384 = 1"
  "utf8d ! 385 = 3" "utf8d ! 386 = 1" "utf8d ! 387 = 1" "utf8d ! 388 = 1" "utf8d ! 389 = 1"
  "utf8d ! 390 = 1" "utf8d ! 391 = 1" "utf8d ! 392 = 1" "utf8d ! 393 = 1" "utf8d ! 394 = 1"
  "utf8d ! 395 = 1"
  by (simp_all add: utf8d_def nth_append)

text \<open>The continuation bytes an automaton state still waits for.\<close>

definition pending :: "nat \<Rightarrow> (nat \<times> nat) list" where
  "pending s = (if s = 2 then [(0x80, 0xBF)]
     else if s = 3 then [(0x80, 0xBF), (0x80, 0xBF)]
     else if s = 4 then [(0xA0, 0xBF), (0x80, 0xBF)]
     else if s = 5 then [(0x80, 0x9F), (0x80, 0xBF)]
     else if s = 6 then [(0x90, 0xBF), (0x80, 0xBF), (0x80, 0xBF)]
     else if s = 7 then [(0x80, 0xBF), (0x80, 0xBF), (0x80, 0xBF)]
     else if s = 8 then [(0x80, 0x8F), (0x80, 0xBF), (0x80, 0xBF)]
     else [])"

definition waiting :: "nat \<Rightarrow> bool" where
  "waiting s \<longleftrightarrow> s \<in> {2, 3, 4, 5, 6, 7, 8}"

text \<open>The state after the first byte of a character.\<close>

lemma start_state:
  assumes "b < 256"
  shows "utf8d ! (256 + utf8d ! b) =
    (if b < 128 then 0 else if b < 194 then 1 else if b < 224 then 2 else if b = 224 then 4
     else if b = 237 then 5 else if b < 240 then 3 else if b = 240 then 6 else if b < 244 then 7
     else if b = 244 then 8 else 1)"
  unfolding byte_class [OF assms] by (simp add: transition)

lemma start_pending:
  assumes "b < 256" and "128 \<le> b"
  shows "case utf8_ranges b of
      None \<Rightarrow> utf8d ! (256 + utf8d ! b) = 1
    | Some rs \<Rightarrow> waiting (utf8d ! (256 + utf8d ! b)) \<and> pending (utf8d ! (256 + utf8d ! b)) = rs"
  unfolding start_state [OF assms(1)] using assms
  by (auto simp: utf8_ranges_def waiting_def pending_def)

text \<open>The state after a continuation byte: one range less to wait for, or rejection.\<close>

lemma class_less: "b < 256 \<Longrightarrow> utf8d ! b < 12"
  by (simp add: byte_class)

lemma class_iff:
  assumes "b < 256"
  shows "utf8d ! b = 1 \<longleftrightarrow> 128 \<le> b \<and> b < 144" and "utf8d ! b = 9 \<longleftrightarrow> 144 \<le> b \<and> b < 160"
    and "utf8d ! b = 7 \<longleftrightarrow> 160 \<le> b \<and> b < 192"
  unfolding byte_class [OF assms] by simp_all

lemma next_row:
  assumes "t < 12"
  shows "utf8d ! (288 + t) = (if t = 1 \<or> t = 7 \<or> t = 9 then 0 else 1)"
    and "utf8d ! (304 + t) = (if t = 1 \<or> t = 7 \<or> t = 9 then 2 else 1)"
    and "utf8d ! (320 + t) = (if t = 7 then 2 else 1)"
    and "utf8d ! (336 + t) = (if t = 1 \<or> t = 9 then 2 else 1)"
    and "utf8d ! (352 + t) = (if t = 7 \<or> t = 9 then 3 else 1)"
    and "utf8d ! (368 + t) = (if t = 1 \<or> t = 7 \<or> t = 9 then 3 else 1)"
    and "utf8d ! (384 + t) = (if t = 1 then 3 else 1)"
proof -
  have "t = 0 \<or> t = 1 \<or> t = 2 \<or> t = 3 \<or> t = 4 \<or> t = 5 \<or> t = 6 \<or> t = 7 \<or> t = 8 \<or> t = 9
    \<or> t = 10 \<or> t = 11" using assms by presburger
  note cases = this
  show "utf8d ! (288 + t) = (if t = 1 \<or> t = 7 \<or> t = 9 then 0 else 1)"
    using cases by (elim disjE) (simp_all add: transition)
  show "utf8d ! (304 + t) = (if t = 1 \<or> t = 7 \<or> t = 9 then 2 else 1)"
    using cases by (elim disjE) (simp_all add: transition)
  show "utf8d ! (320 + t) = (if t = 7 then 2 else 1)"
    using cases by (elim disjE) (simp_all add: transition)
  show "utf8d ! (336 + t) = (if t = 1 \<or> t = 9 then 2 else 1)"
    using cases by (elim disjE) (simp_all add: transition)
  show "utf8d ! (352 + t) = (if t = 7 \<or> t = 9 then 3 else 1)"
    using cases by (elim disjE) (simp_all add: transition)
  show "utf8d ! (368 + t) = (if t = 1 \<or> t = 7 \<or> t = 9 then 3 else 1)"
    using cases by (elim disjE) (simp_all add: transition)
  show "utf8d ! (384 + t) = (if t = 1 then 3 else 1)"
    using cases by (elim disjE) (simp_all add: transition)
qed

lemma next_state_is:
  assumes "waiting s" and "b < 256" and "pending s = (lo, hi) # ps"
  shows "utf8d ! (256 + s * 16 + utf8d ! b) =
    (if lo \<le> b \<and> b \<le> hi then (if s = 2 then 0 else if s = 3 \<or> s = 4 \<or> s = 5 then 2 else 3) else 1)"
  using assms(1,3) unfolding waiting_def insert_iff empty_iff
  by (elim disjE) (auto simp: next_row class_less class_iff class_iff(1) [unfolded One_nat_def] pending_def assms(2))

lemma next_state:
  assumes "waiting s" and "b < 256"
  shows "\<exists>lo hi ps. pending s = (lo, hi) # ps \<and>
    (if lo \<le> b \<and> b \<le> hi
     then pending (utf8d ! (256 + s * 16 + utf8d ! b)) = ps \<and>
       (utf8d ! (256 + s * 16 + utf8d ! b) = 0 \<and> ps = [] \<or> waiting (utf8d ! (256 + s * 16 + utf8d ! b)))
     else utf8d ! (256 + s * 16 + utf8d ! b) = 1)"
proof -
  obtain lo hi ps where ps: "pending s = (lo, hi) # ps"
    using assms(1) by (cases "pending s") (auto simp: waiting_def pending_def split: if_splits)
  have "pending (if s = 2 then 0 else if s = 3 \<or> s = 4 \<or> s = 5 then 2 else 3) = ps"
    "s = 2 \<longrightarrow> ps = []"
    using assms(1) ps unfolding waiting_def insert_iff empty_iff
    by (elim disjE, auto simp: pending_def)+
  then have "if lo \<le> b \<and> b \<le> hi
     then pending (utf8d ! (256 + s * 16 + utf8d ! b)) = ps \<and>
       (utf8d ! (256 + s * 16 + utf8d ! b) = 0 \<and> ps = [] \<or> waiting (utf8d ! (256 + s * 16 + utf8d ! b)))
     else utf8d ! (256 + s * 16 + utf8d ! b) = 1"
    unfolding next_state_is [OF assms ps] by (auto simp: waiting_def split: if_splits)
  with ps show ?thesis by blast
qed

text \<open>
  A lower bound of the code point collected so far, by state: it makes the code point of a
  multi-byte character at least 128, so that no such character is ever escaped.
\<close>

definition cp_bound :: "nat \<Rightarrow> nat \<Rightarrow> bool" where
  "cp_bound s cp \<longleftrightarrow> (s = 2 \<longrightarrow> 2 \<le> cp) \<and> (s \<in> {3, 5, 7, 8} \<longrightarrow> 1 \<le> cp) \<and> (s = 0 \<longrightarrow> 128 \<le> cp)"

lemma start_bound:
  assumes "b < 256" and "128 \<le> b"
  shows "cp_bound (utf8d ! (256 + utf8d ! b)) ((0xFF div 2 ^ (utf8d ! b)) AND b)"
proof -
  have m: "63 AND b = b mod 64" "31 AND b = b mod 32" "15 AND b = b mod 16"
    "7 AND b = b mod 8" "3 AND b = b mod 4"
    using and_mask_nat [of 6 b] and_mask_nat [of 5 b] and_mask_nat [of 4 b]
      and_mask_nat [of 3 b] and_mask_nat [of 2 b] by simp_all
  have r: "192 \<le> b \<Longrightarrow> b mod 64 = b - 192" "224 \<le> b \<Longrightarrow> b mod 32 = b - 224"
    "240 \<le> b \<Longrightarrow> b < 244 \<Longrightarrow> b mod 4 = b - 240"
    using assms mod_digit [of "b - 192" 64 3] mod_digit [of "b - 224" 32 7]
      mod_digit [of "b - 240" 4 60] by simp_all
  show ?thesis
    unfolding start_state [OF assms(1)] unfolding byte_class [OF assms(1)] cp_bound_def
    using assms by (simp add: m r) arith
qed

lemma pending_limits:
  assumes "waiting s" and "pending s = (lo, hi) # ps"
  shows "128 \<le> lo \<and> hi < 192 \<and> (s = 4 \<longrightarrow> 160 \<le> lo) \<and> (s = 6 \<longrightarrow> 144 \<le> lo)"
  using assms by (auto simp: waiting_def pending_def)

lemma next_bound:
  assumes "waiting s" and "b < 256" and "cp_bound s cp"
    and "pending s = (lo, hi) # ps" and "lo \<le> b" and "b \<le> hi"
  shows "cp_bound (utf8d ! (256 + s * 16 + utf8d ! b)) ((b AND 0x3F) OR cp * 2 ^ 6)"
proof -
  let ?cp = "(b AND 0x3F) OR cp * 2 ^ 6"
  have ge: "cp * 64 \<le> ?cp" "b mod 64 \<le> ?cp"
    using or_ge1 [of "b mod 64" "cp * 64"] or_ge2 [of "cp * 64" "b mod 64"] by (simp_all add: and_mask6)
  have lim: "128 \<le> lo" "hi < 192" "s = 4 \<longrightarrow> 160 \<le> lo" "s = 6 \<longrightarrow> 144 \<le> lo"
    using pending_limits [OF assms(1,4)] by simp_all
  with assms(5,6) have "128 \<le> b" "b - 128 < 64" by linarith+
  then have "b mod 64 = b - 128" using mod_digit [of "b - 128" 64 2] by simp
  define x where "x = ?cp"
  have x: "cp * 64 \<le> x" "b - 128 \<le> x" using ge \<open>b mod 64 = b - 128\<close> by (simp_all add: x_def)
  have "s = 2 \<Longrightarrow> 128 \<le> x" "s = 3 \<or> s = 5 \<Longrightarrow> 2 \<le> x" "s = 7 \<or> s = 8 \<Longrightarrow> 1 \<le> x"
    using assms(3) x(1) by (auto simp: cp_bound_def)
  moreover have "s = 4 \<Longrightarrow> 2 \<le> x" "s = 6 \<Longrightarrow> 1 \<le> x" using lim x(2) assms(5) by linarith+
  ultimately have "cp_bound (if s = 2 then 0 else if s = 3 \<or> s = 4 \<or> s = 5 then 2 else 3) x"
    using assms(1) by (auto simp: cp_bound_def waiting_def)
  then show ?thesis
    using assms(5,6) unfolding next_state_is [OF assms(1,2,4)] x_def by simp
qed

section \<open>Escaping and scanning\<close>

lemma code_less: "code c < 256"
  using of_char_of [where ?'a = nat] by (metis of_char_mod_256 mod_less_divisor zero_less_numeral)

lemma dump_escaped_from_Cons:
  "dump_escaped_from (s, cp) (c # cs) =
    (let s' = utf8d ! (256 + s * 16 + utf8d ! code c);
         cp' = (if s \<noteq> 0 then (code c AND 0x3F) OR cp * 2 ^ 6 else (0xFF div 2 ^ (utf8d ! code c)) AND code c)
     in if s' = 1 then Inl (Json_type_error 316)
        else case dump_escaped_from (s', cp') cs of
               Inl e \<Rightarrow> Inl e
             | Inr out \<Rightarrow> Inr ((if s' = 0 then accept_bytes cp' c else [c]) @ out))"
  by (simp add: decode_def UTF8_ACCEPT_def UTF8_REJECT_def Let_def)

declare dump_escaped_from.simps(2) [simp del]

text \<open>The continuation bytes are written as they are, and the scanner takes as many.\<close>

lemma dump_continuation:
  assumes "waiting s" and "cp_bound s cp" and "dump_escaped_from (s, cp) cs = Inr out"
  shows "\<exists>bs rest cp' out'. cs = bs @ rest \<and> out = bs @ out'
    \<and> dump_escaped_from (0, cp') rest = Inr out' \<and> (\<forall>t. next_bytes (pending s) (bs @ t) = Some (bs, t))"
  using assms
proof (induction cs arbitrary: s cp out)
  case Nil
  then show ?case by (simp add: waiting_def UTF8_ACCEPT_def split: if_splits)
next
  case (Cons c cs)
  let ?b = "code c"
  let ?s = "utf8d ! (256 + s * 16 + utf8d ! ?b)"
  let ?cp = "(?b AND 0x3F) OR cp * 2 ^ 6"
  have s0: "s \<noteq> 0" using Cons.prems(1) by (auto simp: waiting_def)
  obtain lo hi ps where ps: "pending s = (lo, hi) # ps"
    and st: "if lo \<le> ?b \<and> ?b \<le> hi then pending ?s = ps \<and> (?s = 0 \<and> ps = [] \<or> waiting ?s) else ?s = 1"
    using next_state [OF Cons.prems(1) code_less, of c] by blast
  obtain out1 where out1: "dump_escaped_from (?s, ?cp) cs = Inr out1" "?s \<noteq> 1"
    and out: "out = (if ?s = 0 then accept_bytes ?cp c else [c]) @ out1"
    using Cons.prems(3) s0 by (auto simp: dump_escaped_from_Cons Let_def split: sum.splits if_splits)
  have range: "lo \<le> ?b" "?b \<le> hi" using st out1(2) by (auto split: if_splits)
  have cpb: "cp_bound ?s ?cp" by (rule next_bound [OF Cons.prems(1) code_less Cons.prems(2) ps range])
  show ?case
  proof (cases "?s = 0")
    case True
    with cpb have "accept_bytes ?cp c = [c]" by (simp add: cp_bound_def accept_bytes_def)
    moreover have "ps = []" using st range True by (auto simp: waiting_def)
    ultimately show ?thesis using out out1 True ps range
      by (intro exI [of _ "[c]"] exI [of _ cs] exI [of _ ?cp] exI [of _ out1]) simp
  next
    case False
    then have w: "waiting ?s" "pending ?s = ps" using st range by auto
    from Cons.IH [OF w(1) cpb out1(1)] obtain bs rest cp' out' where
      "cs = bs @ rest" "out1 = bs @ out'" "dump_escaped_from (0, cp') rest = Inr out'"
      "\<forall>t. next_bytes ps (bs @ t) = Some (bs, t)" unfolding w(2) by blast
    with out False ps range show ?thesis
      by (intro exI [of _ "c # bs"] exI [of _ rest] exI [of _ cp'] exI [of _ out']) simp
  qed
qed

lemma hex_val_hex_digit: "d < 16 \<Longrightarrow> hex_val (hex_digit d) = Some d"
  by (auto simp: hex_val_def hex_digit_def Let_def)

lemma get_codepoint_escape:
  "n < 32 \<Longrightarrow> get_codepoint (tl (tl (unicode_escape n)) @ t) = Some (n, t)"
  by (simp add: unicode_escape_def get_codepoint_def hex_val_hex_digit)

lemma code_inj: "code c = code d \<Longrightarrow> c = d"
  by simp

lemma code_chars:
  "code c = 8 \<longleftrightarrow> c = CHR 0x08"
  "code c = 9 \<longleftrightarrow> c = CHR 0x09"
  "code c = 10 \<longleftrightarrow> c = CHR 0x0A"
  "code c = 12 \<longleftrightarrow> c = CHR 0x0C"
  "code c = 13 \<longleftrightarrow> c = CHR 0x0D"
  "code c = 34 \<longleftrightarrow> c = CHR 0x22"
  "code c = 92 \<longleftrightarrow> c = CHR 0x5C"
  by (auto intro: code_inj)

text \<open>What is written for an ASCII character is read back as that character.\<close>

lemma scan_accepted:
  assumes "code c < 128"
  shows "\<exists>d ds. accept_bytes (code c) c = d # ds \<and> d \<noteq> CHR 0x22 \<and> (\<forall>t. scan_char d (ds @ t) = Some ([c], t))"
proof -
  consider "code c = 8" | "code c = 9" | "code c = 10" | "code c = 12" | "code c = 13" | "code c = 34"
    | "code c = 92" | "code c \<le> 31" "code c \<notin> {8, 9, 10, 12, 13}" | "code c \<notin> {34, 92}" "31 < code c"
    by (cases "code c \<le> 31") auto
  then show ?thesis
  proof cases
    case 8
    have esc: "unicode_escape (code c) = CHR 0x5C # CHR ''u'' # tl (tl (unicode_escape (code c)))"
      by (simp add: unicode_escape_def)
    have "get_codepoint (tl (tl (unicode_escape (code c))) @ t) = Some (code c, t)" for t
      using 8 by (intro get_codepoint_escape) simp
    then have "scan_char CHR 0x5C (CHR ''u'' # tl (tl (unicode_escape (code c))) @ t) = Some ([c], t)" for t
      using 8 by (simp add: scan_char_def scan_escape_def scan_unicode_def codepoint_bytes_def)
    moreover have "accept_bytes (code c) c = CHR 0x5C # CHR ''u'' # tl (tl (unicode_escape (code c)))"
      using 8 esc by (simp add: accept_bytes_def)
    ultimately show ?thesis by simp
  next
    case 9
    then have "c \<noteq> CHR 0x22" "c \<noteq> CHR 0x5C" by auto
    with 9 assms show ?thesis by (simp add: accept_bytes_def scan_char_def)
  qed (auto simp: accept_bytes_def scan_char_def scan_escape_def code_chars)
qed

lemma accept_state: "code c < 128 \<Longrightarrow> utf8d ! (256 + utf8d ! code c) = 0"
  using start_state [OF code_less, of c] by simp

lemma code_class0: "code c < 128 \<Longrightarrow> utf8d ! code c = 0"
  by (simp add: byte_class)

lemma next_bytes_high:
  "next_bytes rs cs = Some (bs, rest) \<Longrightarrow> \<forall>r \<in> set rs. 128 \<le> fst r \<Longrightarrow> c \<in> set bs \<Longrightarrow> 128 \<le> code c"
  by (induction rs cs arbitrary: bs rule: next_bytes.induct) (auto split: if_splits option.splits)

lemma pending_high: "r \<in> set (pending s) \<Longrightarrow> 128 \<le> fst r"
  by (auto simp: pending_def split: if_splits)

text \<open>
  One step of a successful \<open>dump_escaped\<close> between two characters: an ASCII byte, escaped if need
  be, or a multi-byte character, which is copied.
\<close>

lemma dump_escaped_step:
  assumes "dump_escaped_from (0, cp) (c # cs) = Inr out"
  obtains (ascii) out' where "code c < 128" and "dump_escaped_from (0, code c) cs = Inr out'"
      and "out = accept_bytes (code c) c @ out'"
  | (multibyte) rs bs r cp' out' where "128 \<le> code c" and "cs = bs @ r" and "out = c # bs @ out'"
      and "dump_escaped_from (0, cp') r = Inr out'" and "utf8_ranges (code c) = Some rs"
      and "\<And>t. next_bytes rs (bs @ t) = Some (bs, t)" and "\<And>b. b \<in> set bs \<Longrightarrow> 128 \<le> code b"
proof (cases "code c < 128")
  case True
  have "(255 div 2 ^ utf8d ! code c) AND code c = code c"
    using True and_mask_nat [of 8 "code c"] by (simp add: code_class0)
  with assms True accept_state [OF True] show thesis
    by (auto simp: dump_escaped_from_Cons Let_def split: sum.splits intro: ascii)
next
  case False
  let ?s = "utf8d ! (256 + utf8d ! code c)"
  let ?cp = "(255 div 2 ^ utf8d ! code c) AND code c"
  have ge: "128 \<le> code c" using False by simp
  have ne1: "?s \<noteq> 1" using assms by (auto simp: dump_escaped_from_Cons Let_def)
  with start_pending [OF code_less ge] obtain rs where rs: "utf8_ranges (code c) = Some rs"
    and w: "waiting ?s" "pending ?s = rs" by (auto split: option.splits)
  then have "?s \<noteq> 0" by (auto simp: waiting_def)
  then obtain out1 where out1: "dump_escaped_from (?s, ?cp) cs = Inr out1" and out: "out = c # out1"
    using assms ne1 by (auto simp: dump_escaped_from_Cons Let_def split: sum.splits)
  from dump_continuation [OF w(1) start_bound [OF code_less ge] out1]
  obtain bs r cp' out' where b: "cs = bs @ r" "out1 = bs @ out'" "dump_escaped_from (0, cp') r = Inr out'"
    "\<And>t. next_bytes rs (bs @ t) = Some (bs, t)" unfolding w(2) by blast
  have "128 \<le> code x" if "x \<in> set bs" for x
    using next_bytes_high [OF b(4)] pending_high that w(2) by blast
  with ge b out rs show thesis by (intro multibyte) auto
qed

text \<open>The serialised form of a string, followed by a quote, scans to the string.\<close>

lemma scan_dumped:
  assumes "dump_escaped_from (0, cp) s = Inr out"
  shows "scan_string buf (out @ CHR 0x22 # rest) = Some (buf @ s, rest)"
  using assms
proof (induction "length s" arbitrary: cp s out buf rule: less_induct)
  case less
  show ?case
  proof (cases s)
    case Nil
    with less.prems show ?thesis by (simp add: UTF8_ACCEPT_def)
  next
    case (Cons c cs)
    show ?thesis using less.prems [unfolded Cons]
    proof (cases rule: dump_escaped_step)
      case (ascii out')
      obtain d ds where d: "accept_bytes (code c) c = d # ds" "d \<noteq> CHR 0x22"
        "\<And>t. scan_char d (ds @ t) = Some ([c], t)"
        using scan_accepted [OF ascii(1)] by blast
      have "scan_string (buf @ [c]) (out' @ CHR 0x22 # rest) = Some ((buf @ [c]) @ cs, rest)"
        using Cons by (intro less.hyps [OF _ ascii(2)]) simp
      with d ascii(3) Cons show ?thesis by simp
    next
      case (multibyte rs bs r cp' out')
      have c: "c \<noteq> CHR 0x22" "c \<noteq> CHR 0x5C" using multibyte(1) by auto
      have "scan_string (buf @ c # bs) (out' @ CHR 0x22 # rest) = Some ((buf @ c # bs) @ r, rest)"
        using Cons multibyte(2) by (intro less.hyps [OF _ multibyte(4)]) simp
      with c multibyte Cons show ?thesis by (simp add: scan_char_def next_byte_in_range_def)
    qed
  qed
qed

text \<open>No control character is ever written.\<close>

lemma hex_digit_printable: "d < 16 \<Longrightarrow> 32 \<le> code (hex_digit d)"
  by (auto simp: hex_digit_def)

lemma accept_bytes_printable: "c' \<in> set (accept_bytes (code c) c) \<Longrightarrow> 32 \<le> code c'"
  by (auto simp: accept_bytes_def unicode_escape_def hex_digit_printable split: if_splits)

lemma dump_escaped_printable:
  assumes "dump_escaped_from (0, cp) s = Inr out" and "c' \<in> set out"
  shows "32 \<le> code c'"
  using assms
proof (induction "length s" arbitrary: cp s out rule: less_induct)
  case less
  show ?case
  proof (cases s)
    case Nil
    with less.prems show ?thesis by (simp add: UTF8_ACCEPT_def)
  next
    case (Cons c cs)
    show ?thesis using less.prems(1) [unfolded Cons]
    proof (cases rule: dump_escaped_step)
      case (ascii out')
      with less.prems(2) less.hyps [OF _ ascii(2)] Cons show ?thesis
        by (auto dest: accept_bytes_printable)
    next
      case (multibyte rs bs r cp' out')
      with less.prems(2) less.hyps [OF _ multibyte(4)] Cons show ?thesis
        by (auto dest: multibyte(7) order_trans [of 32 128])
    qed
  qed
qed

text \<open>How many bytes a character and a string take when they are written.\<close>

definition escaped_length :: "char \<Rightarrow> nat" where
  "escaped_length c = (if code c \<in> {0x08, 0x09, 0x0A, 0x0C, 0x0D, 0x22, 0x5C} then 2
     else if code c \<le> 0x1F then 6 else 1)"

lemma accept_bytes_length: "length (accept_bytes (code c) c) = escaped_length c"
  by (simp add: accept_bytes_def unicode_escape_def escaped_length_def)

definition printed_length :: "string \<Rightarrow> nat" where
  "printed_length s = sum_list (map escaped_length s)"

lemma printed_length_simps [simp]:
  "printed_length [] = 0" "printed_length (c # s) = escaped_length c + printed_length s"
  "printed_length (s @ t) = printed_length s + printed_length t"
  by (simp_all add: printed_length_def)

lemma printed_length_high: "(\<And>b. b \<in> set bs \<Longrightarrow> 128 \<le> code b) \<Longrightarrow> printed_length bs = length bs"
proof (induction bs)
  case (Cons b bs)
  then have "\<And>c. c \<in> set bs \<Longrightarrow> 128 \<le> code c" and b: "128 \<le> code b" by auto
  then have "printed_length bs = length bs" by (intro Cons.IH)
  moreover have "escaped_length b = 1" using b by (auto simp: escaped_length_def)
  ultimately show ?case by simp
qed simp

lemma dump_escaped_from_length:
  "dump_escaped_from (0, cp) s = Inr out \<Longrightarrow> length out = printed_length s"
proof (induction "length s" arbitrary: cp s out rule: less_induct)
  case less
  show ?case
  proof (cases s)
    case Nil
    with less.prems show ?thesis by (simp add: UTF8_ACCEPT_def)
  next
    case (Cons c cs)
    show ?thesis using less.prems [unfolded Cons]
    proof (cases rule: dump_escaped_step)
      case (ascii out')
      with less.hyps [OF _ ascii(2)] Cons show ?thesis by (simp add: accept_bytes_length)
    next
      case (multibyte rs bs r cp' out')
      have "printed_length (c # bs) = length (c # bs)" using multibyte(1,7) by (intro printed_length_high) auto
      with less.hyps [OF _ multibyte(4)] Cons multibyte(2,3) show ?thesis by simp
    qed
  qed
qed

lemma dump_escaped_length: "dump_escaped s = Inr out \<Longrightarrow> length out = printed_length s"
  using dump_escaped_from_length [of 0 s out] by (simp add: dump_escaped_def UTF8_ACCEPT_def)

text \<open>Evaluation of \<open>dump_escaped\<close> on a given string.\<close>

lemmas dump_eval = dump_escaped_def dump_escaped_from_Cons UTF8_ACCEPT_def byte_class transition
  accept_bytes_def

end
