(* ===== verification/Json_Roundtrip.thy ===== *)
theory Json_Roundtrip
  imports Json_Utf8 Json_Parser
begin

text \<open>
  Printing and parsing of JSON agree: the digits written by \<open>dump_integer\<close> are those of the
  number, and whatever \<open>dump\<close> prints for a value with sorted object keys, \<open>json_parse\<close> reads
  back as that value (a non-negative signed integer comes back unsigned, which is how the parser
  classifies it).
\<close>

section \<open>Integers\<close>

lemma uint_of_nonneg: "0 \<le> sint (w :: 64 word) \<Longrightarrow> uint w = sint w"
  using sint_lt [of w] by (simp add: uint_sint take_bit_int_eq_self_iff)

lemma uint_of_neg:
  assumes "sint (w :: 64 word) < 0"
  shows "uint w = sint w + 2 ^ 64"
proof -
  have "uint w = sint w mod 2 ^ 64" by (simp add: uint_sint take_bit_eq_mod)
  also have "\<dots> = (sint w + 2 ^ 64) mod 2 ^ 64" by simp
  also have "\<dots> = sint w + 2 ^ 64"
    using assms sint_ge [of w] by (intro mod_pos_pos_trivial) simp_all
  finally show ?thesis .
qed

lemma unat_of_nonneg: "0 \<le> sint (w :: 64 word) \<Longrightarrow> unat w = nat (sint w)"
  using uint_of_nonneg [of w] by (metis nat_uint_eq)

lemma remove_sign_neg: "remove_sign w = - w"
  by (simp add: remove_sign_def)

lemma unat_remove_sign:
  assumes "sint w < 0"
  shows "unat (remove_sign w) = nat (- sint w)"
proof -
  have u: "uint w = sint w + 2 ^ 64" by (rule uint_of_neg [OF assms])
  have "uint (- w) = (- uint w) mod 2 ^ 64" by (simp add: uint_word_ariths)
  also have "\<dots> = (- sint w + (- 1) * 2 ^ 64) mod 2 ^ 64" unfolding u by (simp add: algebra_simps)
  also have "\<dots> = - sint w mod 2 ^ 64" by (simp only: mod_mult_self1)
  also have "\<dots> = - sint w" using assms sint_ge [of w] by (intro mod_pos_pos_trivial) simp_all
  finally show ?thesis unfolding remove_sign_neg by (metis nat_uint_eq)
qed

lemma digits_to_99_dec: "10 \<le> n \<Longrightarrow> n < 100 \<Longrightarrow> digits_to_99 n = dec_nat n"
  by (simp add: digits_to_99_def dec_nat.simps [of n] dec_nat.simps [of "n div 10"])

lemma dec_nat_hundreds: "100 \<le> n \<Longrightarrow> dec_nat n = dec_nat (n div 100) @ digits_to_99 (n mod 100)"
proof -
  assume n: "100 \<le> n"
  have "n div 10 div 10 = n div 100" "n div 10 mod 10 = n mod 100 div 10"
    by (simp_all add: div_mult2_eq [symmetric] mod_mult2_eq [of n 10 10, simplified])
  moreover have "n mod 100 mod 10 = n mod 10" by (simp add: mod_mod_cancel)
  moreover have "dec_nat n = dec_nat (n div 10) @ [digit_char (n mod 10)]" using n by (subst dec_nat.simps) simp
  moreover have "dec_nat (n div 10) = dec_nat (n div 10 div 10) @ [digit_char (n div 10 mod 10)]"
    using n by (subst dec_nat.simps) simp
  ultimately show ?thesis by (simp add: digits_to_99_def)
qed

lemma fill_digits_dec: "fill_digits n out = dec_nat n @ out"
proof (induction n out rule: fill_digits.induct)
  case (1 n out)
  show ?case
  proof (cases "100 \<le> n")
    case True
    with 1 show ?thesis by (subst fill_digits.simps) (simp add: dec_nat_hundreds)
  next
    case False
    then show ?thesis
      by (subst fill_digits.simps) (simp add: digits_to_99_dec dec_nat.simps [of n])
  qed
qed

lemma count_digits_dec: "count_digits n = length (dec_nat n)"
proof (induction n rule: count_digits.induct)
  case (1 n)
  have step: "10 \<le> m \<Longrightarrow> length (dec_nat m) = Suc (length (dec_nat (m div 10)))" for m
    by (subst dec_nat.simps) simp
  show ?case
  proof (cases "n < 10000")
    case True
    then show ?thesis
      using step [of n] step [of "n div 10"] step [of "n div 100"]
      by (subst count_digits.simps)
        (auto simp: dec_nat.simps [of n] dec_nat.simps [of "n div 10"] dec_nat.simps [of "n div 100"]
          dec_nat.simps [of "n div 1000"] div_mult2_eq [symmetric])
  next
    case False
    then have "length (dec_nat n) = length (dec_nat (n div 10000)) + 4"
      using step [of n] step [of "n div 10"] step [of "n div 100"] step [of "n div 1000"]
      by (simp add: div_mult2_eq [symmetric])
    with 1 False show ?thesis by (subst count_digits.simps) simp
  qed
qed

lemma digit_char_0: "digit_char 0 = CHR ''0''"
  by (rule code_inj) (simp add: of_char_digit)

lemma dec_nat_0: "dec_nat 0 = ''0''"
  by (simp add: dec_nat.simps [of 0] digit_char_0)

lemma dump_unsigned_dec: "dump_unsigned w = dec_nat (unat w)"
  by (simp add: dump_unsigned_def fill_digits_dec unat_eq_zero dec_nat_0)

lemma dump_integer_dec: "dump_integer w = dec_int (sint w)"
proof -
  consider "w = 0" | "sint w < 0" | "0 \<le> sint w" "w \<noteq> 0" by fastforce
  then show ?thesis
  proof cases
    case 1
    then show ?thesis by (simp add: dump_integer_def dec_int_def dec_nat_0)
  next
    case 2
    then have "w \<noteq> 0" "w <s 0" by (auto simp: word_sless_alt)
    with 2 show ?thesis by (simp add: dump_integer_def dec_int_def fill_digits_dec unat_remove_sign)
  next
    case 3
    then have "\<not> w <s 0" by (simp add: word_sless_alt)
    with 3 show ?thesis by (simp add: dump_integer_def dec_int_def fill_digits_dec unat_of_nonneg)
  qed
qed

section \<open>Reading numbers\<close>

text \<open>What may follow a printed value: the end of the text, a delimiter, or white space.\<close>

definition delimited :: "string \<Rightarrow> bool" where
  "delimited rest \<longleftrightarrow> rest = [] \<or> hd rest \<in> {CHR '','', CHR '']'', CHR ''}'', NUL} \<or> is_ws (hd rest)"

lemma delimited_simps [simp]:
  "delimited []" "delimited (CHR '','' # r)" "delimited (CHR '']'' # r)" "delimited (CHR ''}'' # r)"
  "delimited (replicate n NUL)"
  by (simp_all add: delimited_def) (cases n; simp)

lemma delimited_stops:
  "delimited (c # r) \<Longrightarrow> \<not> is_digit c \<and> c \<noteq> CHR ''.'' \<and> \<not> is_exp c"
  by (auto simp: delimited_def is_digit_def is_exp_def is_ws_def)

lemma delimited_append: "\<forall>c \<in> set w. is_ws c \<Longrightarrow> delimited rest \<Longrightarrow> delimited (w @ rest)"
  by (cases w) (simp_all add: delimited_def)

lemma number_step_digits:
  assumes "\<forall>c \<in> set ds. is_digit c" and "delimited rest"
  shows "number_step Any1 t buf (ds @ rest) = Some (t, buf @ ds, rest)"
  using assms
proof (induction ds arbitrary: buf)
  case Nil
  then show ?case by (cases rest) (auto dest: delimited_stops)
qed simp

lemma number_step_zero:
  assumes "delimited rest"
  shows "number_step Zero t buf rest = Some (t, buf, rest)"
  using assms by (cases rest) (auto dest: delimited_stops)

lemma dec_nat_Cons:
  assumes "0 < n"
  obtains c ds where "dec_nat n = c # ds" and "is_digit c" and "\<forall>d \<in> set ds. is_digit d"
    and "c \<noteq> CHR ''0''"
proof (cases "dec_nat n")
  case (Cons c ds)
  then have "d \<in> set (c # ds) \<Longrightarrow> is_digit d" for d using dec_nat_digits [of d n] by simp
  with Cons dec_nat_hd [OF assms] show ?thesis by (intro that) auto
qed simp

lemma digit_first:
  assumes "is_digit c"
  shows "\<not> is_ws c" "c \<noteq> CHR ''[''" "c \<noteq> CHR '']''" "c \<noteq> CHR ''{''" "c \<noteq> CHR ''}''" "c \<noteq> CHR '':''"
    "c \<noteq> CHR '',''" "c \<noteq> CHR ''t''" "c \<noteq> CHR ''f''" "c \<noteq> CHR ''n''" "c \<noteq> CHR 0x22" "c \<noteq> CHR ''-''"
  using assms by (auto simp: is_digit_def is_ws_def)

lemma scan_digit: "is_digit c \<Longrightarrow> scan (c # cs) =
    (case scan_number c cs of None \<Rightarrow> (Parse_error, cs) | Some (tok, rest) \<Rightarrow> (tok, rest))"
  by (frule digit_first) (simp add: scan_def skip_whitespace_def digit_first)

lemma scan_minus: "scan (CHR ''-'' # cs) =
    (case scan_number CHR ''-'' cs of None \<Rightarrow> (Parse_error, cs) | Some (tok, rest) \<Rightarrow> (tok, rest))"
  by (simp add: scan_def skip_whitespace_def is_ws_def)

lemma scan_dec_nat:
  assumes "n < 2 ^ 64" and "delimited rest"
  shows "scan (dec_nat n @ rest) = (Value_unsigned (word_of_nat n), rest)"
proof (cases "n = 0")
  case True
  have "undec ''0'' = 0" by (simp add: dec_nat_0 [symmetric])
  then show ?thesis unfolding True dec_nat_0 append_Cons append_Nil
    by (subst scan_digit) (simp_all add: is_digit_def scan_number_def number_step_zero [OF assms(2)]
        number_token_def)
next
  case False
  then have "0 < n" by simp
  then obtain c ds where d: "dec_nat n = c # ds" "is_digit c" "\<forall>d \<in> set ds. is_digit d" "c \<noteq> CHR ''0''"
    by (rule dec_nat_Cons)
  have val: "undec (c # ds) = n" unfolding d(1) [symmetric] by (rule undec_dec_nat)
  have tok: "number_token Unsigned (c # ds) = Value_unsigned (word_of_nat n)"
    unfolding number_token_def number_type.case Let_def val by (rule if_P) (rule assms(1))
  have "c \<noteq> CHR ''-''" using d(2) by (rule digit_first)
  with d(4) have "scan_number c (ds @ rest) = Some (number_token Unsigned (c # ds), rest)"
    unfolding scan_number_def number_step_digits [OF d(3) assms(2)] by simp
  then show ?thesis unfolding d(1) append_Cons scan_digit [OF d(2)] tok by simp
qed

lemma scan_negative:
  assumes "0 < n" and "n \<le> 2 ^ 63" and "delimited rest"
  shows "scan (CHR ''-'' # dec_nat n @ rest) = (Value_integer (- word_of_nat n), rest)"
proof -
  obtain c ds where d: "dec_nat n = c # ds" "is_digit c" "\<forall>d \<in> set ds. is_digit d" "c \<noteq> CHR ''0''"
    using assms(1) by (rule dec_nat_Cons)
  have val: "undec (c # ds) = n" unfolding d(1) [symmetric] by (rule undec_dec_nat)
  have tok: "number_token Integer (CHR ''-'' # c # ds) = Value_integer (- word_of_nat n)"
    unfolding number_token_def number_type.case Let_def list.sel val by (rule if_P) (rule assms(2))
  have "number_step Minus Unsigned [CHR ''-''] (c # ds @ rest)
      = number_step Any1 Integer [CHR ''-'', c] (ds @ rest)"
    using d(2,4) by simp
  then have "scan_number CHR ''-'' (c # ds @ rest) = Some (number_token Integer (CHR ''-'' # c # ds), rest)"
    unfolding scan_number_def number_step_digits [OF d(3) assms(3)] by simp
  then show ?thesis unfolding d(1) append_Cons scan_minus tok by simp
qed

section \<open>Values\<close>

text \<open>The value as the parser classifies it: a non-negative integer is unsigned.\<close>

fun canon :: "json \<Rightarrow> json"
  and canon_elements :: "json list \<Rightarrow> json list"
  and canon_members :: "(string \<times> json) list \<Rightarrow> (string \<times> json) list" where
  "canon (JInteger w) = (if 0 \<le> sint w then JUnsigned w else JInteger w)"
| "canon (JArray vs) = JArray (canon_elements vs)"
| "canon (JObject kvs) = JObject (canon_members kvs)"
| "canon j = j"
| "canon_elements [] = []"
| "canon_elements (v # vs) = canon v # canon_elements vs"
| "canon_members [] = []"
| "canon_members ((k, v) # kvs) = (k, canon v) # canon_members kvs"

text \<open>Every object has its keys sorted and distinct, as a \<^verbatim>\<open>std::map\<close> has.\<close>

fun json_wf :: "json \<Rightarrow> bool"
  and json_wf_elements :: "json list \<Rightarrow> bool"
  and json_wf_members :: "(string \<times> json) list \<Rightarrow> bool" where
  "json_wf (JArray vs) = json_wf_elements vs"
| "json_wf (JObject kvs) = (keys_sorted kvs \<and> json_wf_members kvs)"
| "json_wf j = True"
| "json_wf_elements [] = True"
| "json_wf_elements (v # vs) = (json_wf v \<and> json_wf_elements vs)"
| "json_wf_members [] = True"
| "json_wf_members ((k, v) # kvs) = (json_wf v \<and> json_wf_members kvs)"

definition insert_members :: "(string \<times> json) list \<Rightarrow> (string \<times> json) list \<Rightarrow> (string \<times> json) list" where
  "insert_members acc kvs = foldl (\<lambda>a kv. kv_insert (fst kv) (snd kv) a) acc kvs"

lemma canon_members_keys: "map fst (canon_members kvs) = map fst kvs"
  by (induction kvs) auto

lemma kv_insert_last: "\<forall>k' \<in> fst ` set acc. k' < k \<Longrightarrow> kv_insert k v acc = acc @ [(k, v)]"
  by (induction k v acc rule: kv_insert.induct) (auto dest: order.strict_implies_not_eq order.asym)

lemma insert_members_sorted:
  assumes "keys_sorted (acc @ kvs)"
  shows "insert_members acc kvs = acc @ kvs"
  using assms
proof (induction kvs arbitrary: acc)
  case Nil
  then show ?case by (simp add: insert_members_def)
next
  case (Cons kv kvs)
  have "kv_insert (fst kv) (snd kv) acc = acc @ [kv]"
    using Cons.prems by (subst kv_insert_last) (auto simp: keys_sorted_iff sorted_wrt_append)
  with Cons.IH [of "acc @ [kv]"] Cons.prems show ?case by (simp add: insert_members_def)
qed

text \<open>How a printed value starts; in particular never with a closing bracket.\<close>

definition value_start :: "token \<Rightarrow> bool" where
  "value_start t \<longleftrightarrow> t \<noteq> End_array \<and> t \<noteq> End_object \<and> t \<noteq> End_of_input"

definition reads_value :: "string \<Rightarrow> json \<Rightarrow> bool" where
  "reads_value s v \<longleftrightarrow> (\<forall>rest. delimited rest \<longrightarrow> (\<exists>tok r. scan (s @ rest) = (tok, r) \<and> value_start tok
     \<and> (\<forall>states. parse_loop (At_token tok) states r = parse_loop (After_value v) states rest)))"

definition reads_elements :: "string \<Rightarrow> json list \<Rightarrow> bool" where
  "reads_elements s vs \<longleftrightarrow> (\<forall>rest. \<exists>tok r. scan (s @ CHR '']'' # rest) = (tok, r) \<and> value_start tok
     \<and> (\<forall>acc states. parse_loop (At_token tok) (Open_array acc # states) r
          = parse_loop (After_value (JArray (acc @ vs))) states rest))"

definition reads_members :: "string \<Rightarrow> (string \<times> json) list \<Rightarrow> bool" where
  "reads_members s kvs \<longleftrightarrow> (\<forall>rest. \<exists>k r1 r2 t3 r3. scan (s @ CHR ''}'' # rest) = (Value_string k, r1)
     \<and> scan r1 = (Name_separator, r2) \<and> scan r2 = (t3, r3)
     \<and> (\<forall>acc states. parse_loop (At_token t3) (Open_object acc k # states) r3
          = parse_loop (After_value (JObject (insert_members acc kvs))) states rest))"

lemma scan_punct [simp]:
  "scan (CHR '','' # r) = (Value_separator, r)" "scan (CHR '']'' # r) = (End_array, r)"
  "scan (CHR ''}'' # r) = (End_object, r)" "scan (CHR '':'' # r) = (Name_separator, r)"
  "scan (CHR ''['' # r) = (Begin_array, r)" "scan (CHR ''{'' # r) = (Begin_object, r)"
  "scan [] = (End_of_input, [])" "scan (NUL # r) = (End_of_input, r)"
  by (simp_all add: scan_def skip_whitespace_def is_ws_def)

lemma scan_ws: "\<forall>c \<in> set w. is_ws c \<Longrightarrow> scan (w @ s) = scan s"
  by (induction w) (simp_all add: scan_def skip_whitespace_def)

lemma scan_literals [simp]:
  "scan (''true'' @ r) = (Literal_true, r)" "scan (''false'' @ r) = (Literal_false, r)"
  "scan (''null'' @ r) = (Literal_null, r)"
  by (simp_all add: scan_def skip_whitespace_def is_ws_def)

lemmas scan_literals_Cons [simp] = scan_literals [unfolded append_Cons append_Nil]

lemma scan_quoted:
  assumes "dump_escaped s = Inr out"
  shows "scan (CHR 0x22 # out @ CHR 0x22 # rest) = (Value_string s, rest)"
proof -
  have "scan_string [] (out @ CHR 0x22 # rest) = Some (s, rest)"
    using scan_dumped [of 0 s out "[]" rest] assms by (simp add: dump_escaped_def UTF8_ACCEPT_def)
  then show ?thesis by (simp add: scan_def skip_whitespace_def is_ws_def is_digit_def)
qed

lemmas parse_token = parse_loop.simps(1)

lemma reads_valueI:
  assumes "\<And>rest. delimited rest \<Longrightarrow> scan (s @ rest) = (tok, rest)" and "value_start tok"
    and "\<And>states rest. parse_loop (At_token tok) states rest = parse_loop (After_value v) states rest"
  shows "reads_value s v"
  using assms unfolding reads_value_def by blast

lemma reads_true: "reads_value ''true'' (JBool True)"
  by (rule reads_valueI [where tok = Literal_true]) (simp_all add: parse_token value_start_def)

lemma reads_false: "reads_value ''false'' (JBool False)"
  by (rule reads_valueI [where tok = Literal_false]) (simp_all add: parse_token value_start_def)

lemma reads_null: "reads_value ''null'' JNull"
  by (rule reads_valueI [where tok = Literal_null]) (simp_all add: parse_token value_start_def)

lemma reads_string:
  assumes "dump_escaped s = Inr out"
  shows "reads_value ([CHR 0x22] @ out @ [CHR 0x22]) (JString s)"
  by (rule reads_valueI [where tok = "Value_string s"])
    (use scan_quoted [OF assms] in \<open>simp_all add: parse_token value_start_def\<close>)

lemma reads_unsigned: "reads_value (dump_unsigned w) (JUnsigned w)"
proof (rule reads_valueI [where tok = "Value_unsigned w"])
  have "unat w < 2 ^ 64" using unsigned_less [of w] by simp
  then show "scan (dump_unsigned w @ rest) = (Value_unsigned w, rest)" if "delimited rest" for rest
    unfolding dump_unsigned_dec using scan_dec_nat [OF _ that] by simp
qed (simp_all add: parse_token value_start_def)

lemma reads_integer: "reads_value (dump_integer w) (canon (JInteger w))"
proof (cases "0 \<le> sint w")
  case True
  then have "dump_integer w = dump_unsigned w"
    unfolding dump_integer_dec dump_unsigned_dec by (simp add: dec_int_def unat_of_nonneg)
  with True reads_unsigned [of w] show ?thesis by simp
next
  case False
  let ?n = "nat (- sint w)"
  have "0 < ?n" "?n \<le> 2 ^ 63" using False sint_ge [of w] by simp_all
  have "word_of_nat ?n = (word_of_int (- sint w) :: 64 word)" using False by (intro of_nat_nat) simp
  then have n: "- word_of_nat ?n = w" by simp
  have "reads_value (dump_integer w) (JInteger w)"
  proof (rule reads_valueI [where tok = "Value_integer w"])
    show "scan (dump_integer w @ rest) = (Value_integer w, rest)" if "delimited rest" for rest
      unfolding dump_integer_dec dec_int_def
      using scan_negative [OF \<open>0 < ?n\<close> \<open>?n \<le> 2 ^ 63\<close> that] False n by simp
  qed (simp_all add: parse_token value_start_def)
  with False show ?thesis by simp
qed

lemma reads_value_delim:
  assumes "reads_value s v" and "delimited rest"
  obtains tok r where "scan (s @ rest) = (tok, r)" and "value_start tok"
    and "\<And>states. parse_loop (At_token tok) states r = parse_loop (After_value v) states rest"
  using assms unfolding reads_value_def by blast

text \<open>White space before a value does not matter, nor after the last one of a container.\<close>

lemma reads_value_ws: "reads_value s v \<Longrightarrow> \<forall>c \<in> set w. is_ws c \<Longrightarrow> reads_value (w @ s) v"
  by (simp add: reads_value_def scan_ws)

lemma reads_elements_ws: "reads_elements s vs \<Longrightarrow> \<forall>c \<in> set w. is_ws c \<Longrightarrow> reads_elements (w @ s) vs"
  by (simp add: reads_elements_def scan_ws)

lemma reads_members_ws: "reads_members s kvs \<Longrightarrow> \<forall>c \<in> set w. is_ws c \<Longrightarrow> reads_members (w @ s) kvs"
  by (simp add: reads_members_def scan_ws)

lemma reads_last_element:
  assumes "reads_value s v" and "\<forall>c \<in> set w. is_ws c"
  shows "reads_elements (s @ w) [v]"
  unfolding reads_elements_def
proof
  fix rest
  have "delimited (w @ CHR '']'' # rest)" using assms(2) by (simp add: delimited_append)
  then obtain tok r where "scan (s @ w @ CHR '']'' # rest) = (tok, r)" "value_start tok"
    "\<And>states. parse_loop (At_token tok) states r = parse_loop (After_value v) states (w @ CHR '']'' # rest)"
    using reads_value_delim [OF assms(1)] by metis
  then show "\<exists>tok r. scan ((s @ w) @ CHR '']'' # rest) = (tok, r) \<and> value_start tok
     \<and> (\<forall>acc states. parse_loop (At_token tok) (Open_array acc # states) r
          = parse_loop (After_value (JArray (acc @ [v]))) states rest)"
    by (intro exI [of _ tok] exI [of _ r]) (simp add: scan_ws [OF assms(2)])
qed

lemmas reads_one_element = reads_last_element [where w = "[]", simplified]

lemma reads_more_elements:
  assumes "reads_value s v" and "reads_elements s' vs"
  shows "reads_elements (s @ '','' @ s') (v # vs)"
  unfolding reads_elements_def
proof
  fix rest
  let ?rest = "CHR '','' # s' @ CHR '']'' # rest"
  obtain tok r where t: "scan (s @ ?rest) = (tok, r)" "value_start tok"
    "\<And>states. parse_loop (At_token tok) states r = parse_loop (After_value v) states ?rest"
    using reads_value_delim [OF assms(1)] delimited_simps(2) by metis
  obtain tok' r' where t': "scan (s' @ CHR '']'' # rest) = (tok', r')"
    "\<And>acc states. parse_loop (At_token tok') (Open_array acc # states) r'
          = parse_loop (After_value (JArray (acc @ vs))) states rest"
    using assms(2) unfolding reads_elements_def by metis
  show "\<exists>tok r. scan ((s @ '','' @ s') @ CHR '']'' # rest) = (tok, r) \<and> value_start tok
     \<and> (\<forall>acc states. parse_loop (At_token tok) (Open_array acc # states) r
          = parse_loop (After_value (JArray (acc @ v # vs))) states rest)"
    using t t' by (intro exI [of _ tok] exI [of _ r]) simp
qed

lemma reads_array:
  assumes "reads_elements s vs"
  shows "reads_value (''['' @ s @ '']'') (JArray vs)"
  unfolding reads_value_def
proof (intro allI impI)
  fix rest
  obtain tok r where t: "scan (s @ CHR '']'' # rest) = (tok, r)" "value_start tok"
    "\<And>acc states. parse_loop (At_token tok) (Open_array acc # states) r
          = parse_loop (After_value (JArray (acc @ vs))) states rest"
    using assms unfolding reads_elements_def by metis
  then have "parse_loop (At_token Begin_array) states (s @ CHR '']'' # rest)
      = parse_loop (After_value (JArray vs)) states rest" for states
    by (simp add: parse_token value_start_def)
  then show "\<exists>tok r. scan ((''['' @ s @ '']'') @ rest) = (tok, r) \<and> value_start tok
     \<and> (\<forall>states. parse_loop (At_token tok) states r = parse_loop (After_value (JArray vs)) states rest)"
    by (intro exI [of _ Begin_array] exI [of _ "s @ CHR '']'' # rest"]) (simp add: value_start_def)
qed

text \<open>A quoted key that is scanned as the string \<open>k\<close>.\<close>

definition scans_key :: "string \<Rightarrow> string \<Rightarrow> bool" where
  "scans_key key k \<longleftrightarrow> (\<forall>rest. scan (CHR 0x22 # key @ CHR 0x22 # rest) = (Value_string k, rest))"

lemma scans_dumped: "dump_escaped k = Inr key \<Longrightarrow> scans_key key k"
  by (simp add: scans_key_def scan_quoted)

lemma reads_member:
  assumes "scans_key key k" and "reads_value s v" and "delimited rest"
  obtains t3 r3 where
    "scan (([CHR 0x22] @ key @ [CHR 0x22, CHR '':''] @ s) @ rest) = (Value_string k, CHR '':'' # s @ rest)"
    and "scan (s @ rest) = (t3, r3)"
    and "\<And>states. parse_loop (At_token t3) states r3 = parse_loop (After_value v) states rest"
proof -
  obtain t3 r3 where "scan (s @ rest) = (t3, r3)"
    "\<And>states. parse_loop (At_token t3) states r3 = parse_loop (After_value v) states rest"
    using reads_value_delim [OF assms(2,3)] by metis
  moreover have "scan (CHR 0x22 # key @ CHR 0x22 # CHR '':'' # s @ rest) = (Value_string k, CHR '':'' # s @ rest)"
    using assms(1) unfolding scans_key_def by blast
  ultimately show ?thesis by (intro that) simp_all
qed

lemma reads_last_member:
  assumes "scans_key key k" and "reads_value s v" and "\<forall>c \<in> set w. is_ws c"
  shows "reads_members (([CHR 0x22] @ key @ [CHR 0x22, CHR '':''] @ s) @ w) [(k, v)]"
  unfolding reads_members_def
proof
  fix rest
  let ?rest = "w @ CHR ''}'' # rest"
  have "delimited ?rest" using assms(3) by (simp add: delimited_append)
  then obtain t3 r3 where
    "scan (([CHR 0x22] @ key @ [CHR 0x22, CHR '':''] @ s) @ ?rest) = (Value_string k, CHR '':'' # s @ ?rest)"
    "scan (s @ ?rest) = (t3, r3)"
    "\<And>states. parse_loop (At_token t3) states r3 = parse_loop (After_value v) states ?rest"
    using reads_member [OF assms(1,2)] by metis
  then show "\<exists>k' r1 r2 t3 r3.
      scan ((([CHR 0x22] @ key @ [CHR 0x22, CHR '':''] @ s) @ w) @ CHR ''}'' # rest) = (Value_string k', r1)
     \<and> scan r1 = (Name_separator, r2) \<and> scan r2 = (t3, r3)
     \<and> (\<forall>acc states. parse_loop (At_token t3) (Open_object acc k' # states) r3
          = parse_loop (After_value (JObject (insert_members acc [(k, v)]))) states rest)"
    by (intro exI [of _ k] exI [of _ "CHR '':'' # s @ ?rest"] exI [of _ "s @ ?rest"]
        exI [of _ t3] exI [of _ r3]) (simp add: insert_members_def scan_ws [OF assms(3)])
qed

lemma reads_more_members:
  assumes "scans_key key k" and "reads_value s v" and "reads_members s' kvs"
  shows "reads_members (([CHR 0x22] @ key @ [CHR 0x22, CHR '':''] @ s) @ '','' @ s') ((k, v) # kvs)"
  unfolding reads_members_def
proof
  fix rest
  let ?rest = "CHR '','' # s' @ CHR ''}'' # rest"
  obtain t3 r3 where m:
    "scan (([CHR 0x22] @ key @ [CHR 0x22, CHR '':''] @ s) @ ?rest) = (Value_string k, CHR '':'' # s @ ?rest)"
    "scan (s @ ?rest) = (t3, r3)"
    "\<And>states. parse_loop (At_token t3) states r3 = parse_loop (After_value v) states ?rest"
    using reads_member [OF assms(1,2) delimited_simps(2)] by metis
  obtain k' r1 r2 t4 r4 where m': "scan (s' @ CHR ''}'' # rest) = (Value_string k', r1)"
    "scan r1 = (Name_separator, r2)" "scan r2 = (t4, r4)"
    "\<And>acc states. parse_loop (At_token t4) (Open_object acc k' # states) r4
        = parse_loop (After_value (JObject (insert_members acc kvs))) states rest"
    using assms(3) unfolding reads_members_def by metis
  show "\<exists>k' r1 r2 t3 r3.
      scan ((([CHR 0x22] @ key @ [CHR 0x22, CHR '':''] @ s) @ '','' @ s') @ CHR ''}'' # rest) = (Value_string k', r1)
     \<and> scan r1 = (Name_separator, r2) \<and> scan r2 = (t3, r3)
     \<and> (\<forall>acc states. parse_loop (At_token t3) (Open_object acc k' # states) r3
          = parse_loop (After_value (JObject (insert_members acc ((k, v) # kvs)))) states rest)"
    using m m' by (intro exI [of _ k] exI [of _ "CHR '':'' # s @ ?rest"] exI [of _ "s @ ?rest"]
        exI [of _ t3] exI [of _ r3]) (simp add: insert_members_def)
qed

lemma reads_object:
  assumes "reads_members s kvs" and "keys_sorted kvs"
  shows "reads_value (''{'' @ s @ ''}'') (JObject kvs)"
  unfolding reads_value_def
proof (intro allI impI)
  fix rest
  obtain k r1 r2 t3 r3 where "scan (s @ CHR ''}'' # rest) = (Value_string k, r1)"
    "scan r1 = (Name_separator, r2)" "scan r2 = (t3, r3)"
    "\<And>acc states. parse_loop (At_token t3) (Open_object acc k # states) r3
        = parse_loop (After_value (JObject (insert_members acc kvs))) states rest"
    using assms(1) unfolding reads_members_def by metis
  moreover have "insert_members [] kvs = kvs" using insert_members_sorted [of "[]" kvs] assms(2) by simp
  ultimately have "parse_loop (At_token Begin_object) states (s @ CHR ''}'' # rest)
      = parse_loop (After_value (JObject kvs)) states rest" for states
    by (simp add: parse_token)
  then show "\<exists>tok r. scan ((''{'' @ s @ ''}'') @ rest) = (tok, r) \<and> value_start tok
     \<and> (\<forall>states. parse_loop (At_token tok) states r = parse_loop (After_value (JObject kvs)) states rest)"
    by (intro exI [of _ Begin_object] exI [of _ "s @ CHR ''}'' # rest"]) (simp add: value_start_def)
qed

lemma canon_members_sorted: "keys_sorted (canon_members kvs) = keys_sorted kvs"
  by (simp add: keys_sorted_iff canon_members_keys)

lemma dump_reads:
  "dump j = Inr s \<Longrightarrow> json_wf j \<Longrightarrow> reads_value s (canon j)"
  "dump_elements vs = Inr s' \<Longrightarrow> json_wf_elements vs \<Longrightarrow> vs \<noteq> [] \<Longrightarrow> reads_elements s' (canon_elements vs)"
  "dump_members kvs = Inr s'' \<Longrightarrow> json_wf_members kvs \<Longrightarrow> kvs \<noteq> [] \<Longrightarrow> reads_members s'' (canon_members kvs)"
proof (induction j and vs and kvs arbitrary: s and s' and s'' rule: dump_dump_elements_dump_members.induct)
  case (1 kvs)
  show ?case
  proof (cases "kvs = []")
    case True
    have "reads_value ''{}'' (JObject [])"
      by (auto simp: reads_value_def value_start_def parse_token)
    with True 1 show ?thesis by simp
  next
    case False
    with 1 obtain out where "s = ''{'' @ out @ ''}''" "reads_members out (canon_members kvs)"
      by (auto split: sum.splits)
    moreover have "keys_sorted (canon_members kvs)" using 1 by (simp add: canon_members_sorted)
    ultimately show ?thesis by (simp only: reads_object canon.simps)
  qed
next
  case (2 vs)
  show ?case
  proof (cases "vs = []")
    case True
    have "reads_value ''[]'' (JArray [])"
      by (auto simp: reads_value_def value_start_def parse_token)
    with True 2 show ?thesis by simp
  next
    case False
    with 2 obtain out where "s = ''['' @ out @ '']''" "reads_elements out (canon_elements vs)"
      by (auto split: sum.splits)
    then show ?thesis by (simp only: reads_array canon.simps)
  qed
next
  case (3 x)
  then obtain out where "dump_escaped x = Inr out" "s = [CHR 0x22] @ out @ [CHR 0x22]"
    by (auto split: sum.splits)
  then show ?case using reads_string by (simp only: canon.simps)
next
  case (4 b)
  then show ?case using reads_true reads_false by (cases b) simp_all
next
  case (5 w)
  then show ?case using reads_integer [of w] by (simp del: canon.simps(1))
next
  case (6 w)
  then show ?case using reads_unsigned [of w] by simp
next
  case (10 v vs)
  then obtain out where out: "dump v = Inr out" "reads_value out (canon v)" by (auto split: sum.splits)
  show ?case
  proof (cases "vs = []")
    case True
    with 10 out show ?thesis by (simp add: reads_one_element)
  next
    case False
    with 10 out obtain out' where "s' = out @ '','' @ out'" "reads_elements out' (canon_elements vs)"
      by (auto split: sum.splits)
    with out show ?thesis by (simp only: reads_more_elements canon_elements.simps)
  qed
next
  case (12 k v kvs)
  then obtain key out where out: "dump_escaped k = Inr key" "dump v = Inr out" "reads_value out (canon v)"
    by (auto split: sum.splits)
  show ?case
  proof (cases "kvs = []")
    case True
    with 12 out have "s'' = [CHR 0x22] @ key @ [CHR 0x22, CHR '':''] @ out" by simp
    with True out show ?thesis by (simp only: reads_last_member [where w = "[]", simplified] scans_dumped append_Nil2 append.simps canon_members.simps)
  next
    case False
    with 12 out obtain out' where "s'' = ([CHR 0x22] @ key @ [CHR 0x22, CHR '':''] @ out) @ '','' @ out'"
      "reads_members out' (canon_members kvs)"
      by (auto split: sum.splits)
    with out show ?thesis by (simp only: reads_more_members scans_dumped canon_members.simps)
  qed
qed (use reads_null in simp_all)

text \<open>The text starts with an ASCII character, so \<open>skip_bom\<close> leaves it alone.\<close>

lemma dump_start:
  assumes "dump j = Inr s"
  shows "skip_bom s = Some s"
proof -
  have dec: "code (hd (dec_nat n)) < 0x80" "dec_nat n \<noteq> []" for n
    using dec_nat_digits [of "hd (dec_nat n)" n] by (simp_all add: is_digit_def)
  have "s = [] \<or> code (hd s) < 0x80"
    using assms by (cases j) (auto simp: dump_integer_dec dump_unsigned_dec dec_int_def dec hd_append
        split: sum.splits if_splits)
  then show ?thesis by (auto simp: skip_bom_def split: list.splits)
qed

lemma scan_padding: "fst (scan (replicate n NUL)) = End_of_input"
  by (cases n) simp_all

lemma skip_bom_pad: "skip_bom s = Some s \<Longrightarrow> s \<noteq> [] \<Longrightarrow> skip_bom (s @ t) = Some (s @ t)"
  by (auto simp: skip_bom_def split: list.splits if_splits)

lemma dump_not_nil: "dump j = Inr s \<Longrightarrow> s \<noteq> []"
  by (cases j) (auto simp: dump_integer_dec dump_unsigned_dec dec_int_def split: sum.splits if_splits)

text \<open>The value may be followed by NUL bytes, as in a request buffer.\<close>

lemma parse_dump:
  assumes "dump j = Inr s" and "json_wf j"
  shows "json_parse (s @ replicate n NUL) = Inr (canon j)"
proof -
  obtain tok r where "scan (s @ replicate n NUL) = (tok, r)"
    "\<And>states. parse_loop (At_token tok) states r = parse_loop (After_value (canon j)) states (replicate n NUL)"
    using reads_value_delim [OF dump_reads(1) [OF assms] delimited_simps(5)] by metis
  then show ?thesis using skip_bom_pad [OF dump_start [OF assms(1)] dump_not_nil [OF assms(1)]]
    by (simp add: json_parse_def scan_padding)
qed

text \<open>No control character is printed, in particular no NUL.\<close>

lemma dec_nat_printable: "c \<in> set (dec_nat n) \<Longrightarrow> 32 \<le> code c"
  by (drule dec_nat_digits) (simp add: is_digit_def)

lemma dump_string_printable: "dump_escaped x = Inr out \<Longrightarrow> c \<in> set out \<Longrightarrow> 32 \<le> code c"
  using dump_escaped_printable [of 0 x out c] by (simp add: dump_escaped_def UTF8_ACCEPT_def)

lemma dump_printable:
  "dump j = Inr s \<Longrightarrow> c \<in> set s \<Longrightarrow> 32 \<le> code c"
  "dump_elements vs = Inr s' \<Longrightarrow> c \<in> set s' \<Longrightarrow> 32 \<le> code c"
  "dump_members kvs = Inr s'' \<Longrightarrow> c \<in> set s'' \<Longrightarrow> 32 \<le> code c"
  by (induction j and vs and kvs arbitrary: s and s' and s'' rule: dump_dump_elements_dump_members.induct)
    (auto simp: dump_integer_dec dump_unsigned_dec dec_int_def Let_def
      dest: dec_nat_printable dump_string_printable split: sum.splits if_splits)

lemma dump_no_nul: "dump j = Inr s \<Longrightarrow> NUL \<notin> set s"
  by (auto dest: dump_printable)

section \<open>Properties\<close>

text \<open>
  C4: Whatever \<open>dump\<close> prints for a value whose objects have sorted keys, \<open>json_parse\<close> reads
  back as the same value, with a non-negative integer classified as unsigned; NUL bytes after the
  text, as in a zero-filled request buffer, do not change the result.
\<close>

theorem json_roundtrip:
  assumes "dump j = Inr s" and "json_wf j"
  shows "json_parse (s @ replicate n NUL) = Inr (canon j)"
  using assms by (rule parse_dump)

theorem json_roundtrip_witness:
  "json_parse (''{'' @ [CHR 0x22] @ ''a'' @ [CHR 0x22] @ '':[-5,true]}'' @ [NUL, NUL])
    = Inr (JObject [(''a'', JArray [JInteger (- 5), JBool True])])"
proof -
  have five: "dump_integer (- 5) = ''-5''"
    by (simp add: dump_integer_dec dec_int_def dec_nat.simps [of 5]) (rule code_inj, simp add: of_char_digit)
  have a: "dump_escaped ''a'' = Inr ''a''"
    by (simp add: dump_escaped_def UTF8_ACCEPT_def dump_escaped_from_Cons byte_class transition
        accept_bytes_def and_mask_nat [of 8 97, simplified])
  have "dump (JObject [(''a'', JArray [JInteger (- 5), JBool True])])
      = Inr (''{'' @ [CHR 0x22] @ ''a'' @ [CHR 0x22] @ '':[-5,true]}'')"
    by (simp add: five a)
  from json_roundtrip [OF this, of 2] show ?thesis by (simp add: numeral_2_eq_2)
qed

text \<open>
  The two-digits-at-a-time loop of \<open>dump_integer\<close> prints the decimal digits of the number
  for all 64-bit values, the minimum included, and \<open>count_digits\<close> is the number of digits.
\<close>

theorem integer_printing:
  "dump_integer w = dec_int (sint w) \<and> dump_unsigned w = dec_nat (unat w)
    \<and> count_digits (unat w) = length (dump_unsigned w)
    \<and> count_digits (unat (remove_sign w)) = length (dec_nat (unat (- w)))"
  by (simp add: dump_integer_dec dump_unsigned_dec count_digits_dec remove_sign_neg)

text \<open>
  A string that \<open>dump_escaped\<close> accepts (well-formed UTF-8, by its table-driven automaton) is
  written without control characters, and \<open>scan_string\<close>, which checks UTF-8 by byte ranges,
  reads the written form up to the closing quote back as the original string.
\<close>

theorem string_escaping:
  assumes "dump_escaped s = Inr out"
  shows "scan_string buf (out @ CHR 0x22 # rest) = Some (buf @ s, rest) \<and> (\<forall>c. c \<in> set out \<longrightarrow> 32 \<le> code c)"
  using assms scan_dumped [of 0 s out buf rest] dump_escaped_printable [of 0 s out]
  by (simp add: dump_escaped_def UTF8_ACCEPT_def)

theorem string_escaping_witness:
  "scan_string [] ([CHR 0x5C, CHR 0x22, CHR ''x''] @ [CHR 0x22]) = Some ([CHR 0x22, CHR ''x''], [])"
proof -
  have "dump_escaped [CHR 0x22, CHR ''x''] = Inr [CHR 0x5C, CHR 0x22, CHR ''x'']"
    by (simp add: dump_escaped_def UTF8_ACCEPT_def dump_escaped_from_Cons byte_class transition
        accept_bytes_def and_mask_nat [of 8 34, simplified] and_mask_nat [of 8 120, simplified])
  from string_escaping [OF this, of "[]" "[]"] show ?thesis by simp
qed

end
