(* ===== verification/Json_Typing.thy ===== *)
theory Json_Typing
  imports Json_Roundtrip
begin

text \<open>
  What the parser can produce.  Every string it reads is valid UTF-8, however its characters were
  written (raw bytes, escapes, surrogate pairs), and the members of an object are sorted by key:
  the type invariant of the values in the program.  A value that satisfies it is printed without
  an exception unless it holds a double.
\<close>

section \<open>Valid strings\<close>

text \<open>The automaton of the serializer accepts the bytes from a state.\<close>

fun utf8_from :: "nat \<Rightarrow> string \<Rightarrow> bool" where
  "utf8_from s [] \<longleftrightarrow> s = 0"
| "utf8_from s (c # cs) \<longleftrightarrow> (let s' = utf8d ! (256 + s * 16 + utf8d ! code c) in s' \<noteq> 1 \<and> utf8_from s' cs)"

declare utf8_from.simps(2) [simp del]

abbreviation utf8 :: "string \<Rightarrow> bool" where
  "utf8 s \<equiv> utf8_from 0 s"

lemma dump_escaped_from_utf8: "(\<exists>out. dump_escaped_from (s, cp) cs = Inr out) \<longleftrightarrow> utf8_from s cs"
proof (induction cs arbitrary: s cp)
  case Nil
  then show ?case by (simp add: UTF8_ACCEPT_def)
next
  case (Cons c cs)
  let ?s = "utf8d ! (256 + s * 16 + utf8d ! code c)"
  let ?cp = "if s \<noteq> 0 then (code c AND 0x3F) OR cp * 2 ^ 6 else (0xFF div 2 ^ (utf8d ! code c)) AND code c"
  show ?case
  proof (cases "?s = 1")
    case True
    then show ?thesis by (simp add: dump_escaped_from_Cons utf8_from.simps Let_def)
  next
    case False
    have "(\<exists>out. dump_escaped_from (s, cp) (c # cs) = Inr out) \<longleftrightarrow> (\<exists>out. dump_escaped_from (?s, ?cp) cs = Inr out)"
      unfolding dump_escaped_from_Cons Let_def if_not_P [OF False]
      by (cases "dump_escaped_from (?s, ?cp) cs") simp_all
    then show ?thesis unfolding Cons.IH utf8_from.simps Let_def using False by simp
  qed
qed

lemma dump_escaped_utf8: "(\<exists>out. dump_escaped s = Inr out) \<longleftrightarrow> utf8 s"
  by (simp add: dump_escaped_def UTF8_ACCEPT_def dump_escaped_from_utf8)

text \<open>Bytes that form complete characters can be put in front of anything.\<close>

definition complete :: "string \<Rightarrow> bool" where
  "complete bs \<longleftrightarrow> (\<forall>t. utf8 (bs @ t) = utf8 t)"

lemma complete_utf8: "complete bs \<Longrightarrow> utf8 bs"
  unfolding complete_def by (metis append_Nil2 utf8_from.simps(1))

lemma complete_Nil [simp]: "complete []"
  by (simp add: complete_def)

lemma complete_append: "complete a \<Longrightarrow> complete b \<Longrightarrow> complete (a @ b)"
  by (simp add: complete_def)

lemma complete_ascii: "code c < 128 \<Longrightarrow> complete [c]"
  by (simp add: complete_def utf8_from.simps accept_state Let_def)

lemma utf8_continuation:
  assumes "waiting s" and "next_bytes (pending s) cs = Some (bs, rest)"
  shows "utf8_from s (bs @ t) = utf8 t"
  using assms
proof (induction cs arbitrary: s bs)
  case Nil
  then show ?case by (auto simp: waiting_def pending_def)
next
  case (Cons c cs)
  let ?s = "utf8d ! (256 + s * 16 + utf8d ! code c)"
  obtain lo hi ps where ps: "pending s = (lo, hi) # ps"
    and st: "if lo \<le> code c \<and> code c \<le> hi then pending ?s = ps \<and> (?s = 0 \<and> ps = [] \<or> waiting ?s) else ?s = 1"
    using next_state [OF Cons.prems(1) code_less, of c] by blast
  obtain bs' where bs: "bs = c # bs'" "lo \<le> code c" "code c \<le> hi" "next_bytes ps cs = Some (bs', rest)"
    using Cons.prems(2) ps by (auto split: if_splits option.splits)
  have "?s = 0 \<and> ps = [] \<or> waiting ?s \<and> pending ?s = ps" using st bs by auto
  then show ?case
  proof
    assume z: "?s = 0 \<and> ps = []"
    then show ?thesis using bs by (simp add: utf8_from.simps)
  next
    assume w: "waiting ?s \<and> pending ?s = ps"
    then have "?s \<noteq> 1" by (auto simp: waiting_def)
    moreover have "utf8_from ?s (bs' @ t) = utf8 t" using Cons.IH [of ?s bs'] w bs(4) by blast
    ultimately show ?thesis using bs(1) by (simp add: utf8_from.simps)
  qed
qed

lemma complete_multibyte:
  assumes "utf8_ranges (code c) = Some rs" and "next_bytes rs cs = Some (bs, rest)"
  shows "complete (c # bs)"
proof -
  have c: "128 \<le> code c" using assms(1) by (auto simp: utf8_ranges_def split: if_splits)
  let ?s = "utf8d ! (256 + utf8d ! code c)"
  have w: "waiting ?s \<and> pending ?s = rs" using start_pending [OF code_less c] assms(1) by simp
  then have "?s \<noteq> 1" by (auto simp: waiting_def)
  with w assms(2) show ?thesis
    by (simp add: complete_def utf8_from.simps utf8_continuation)
qed

section \<open>Code points\<close>

text \<open>The code points that UTF-8 encodes: no surrogates.\<close>

definition scalar :: "nat \<Rightarrow> bool" where
  "scalar cp \<longleftrightarrow> cp < 0xD800 \<or> 0xE000 \<le> cp \<and> cp < 0x110000"

lemma or_add_nat:
  assumes "m < 2 ^ n"
  shows "k * 2 ^ n OR m = k * 2 ^ n + (m :: nat)"
proof -
  have "(k * 2 ^ n) AND m = (k * 2 ^ n) AND (m AND mask n)"
    using assms by (simp add: take_bit_nat_eq_self flip: take_bit_eq_mask)
  also have "\<dots> = m AND take_bit n (k * 2 ^ n)"
    by (simp add: take_bit_eq_mask ac_simps)
  also have "\<dots> = 0" by (simp add: take_bit_eq_mod)
  finally show ?thesis by (metis disjunctive_add_eq_or)
qed

lemma lead_or:
  "x < 64 \<Longrightarrow> 0x80 OR x = 0x80 + (x :: nat)"
  "x < 32 \<Longrightarrow> 0xC0 OR x = 0xC0 + (x :: nat)"
  "x < 16 \<Longrightarrow> 0xE0 OR x = 0xE0 + (x :: nat)"
  "x < 8 \<Longrightarrow> 0xF0 OR x = 0xF0 + (x :: nat)"
  using or_add_nat [of x 6 2] or_add_nat [of x 5 6] or_add_nat [of x 4 14] or_add_nat [of x 3 30]
  by simp_all

lemma next_bytes_in_range:
  "list_all2 (\<lambda>r x. fst r \<le> x \<and> x \<le> snd r \<and> x < 256) rs xs \<Longrightarrow> next_bytes rs (map char_of xs) = Some (map char_of xs, [])"
  by (induction rs xs rule: list_all2_induct) (auto split: prod.splits)

lemma complete_chars:
  assumes "utf8_ranges n = Some rs" and "n < 256"
    and "list_all2 (\<lambda>r x. fst r \<le> x \<and> x \<le> snd r \<and> x < 256) rs xs"
  shows "complete (char_of n # map char_of xs)"
  using complete_multibyte [OF _ next_bytes_in_range [OF assms(3)], of "char_of n"] assms(1,2) by simp

lemma base64_digits:
  fixes cp :: nat
  shows "cp = cp div 4096 * 4096 + cp div 64 mod 64 * 64 + cp mod 64"
    and "cp = cp div 262144 * 262144 + cp div 4096 mod 64 * 4096 + cp div 64 mod 64 * 64 + cp mod 64"
proof -
  have a: "n = n div 64 * 64 + n mod 64" for n :: nat by simp
  have d: "cp div 64 div 64 = cp div 4096" "cp div 4096 div 64 = cp div 262144"
    by (simp_all add: div_mult2_eq [symmetric])
  show "cp = cp div 4096 * 4096 + cp div 64 mod 64 * 64 + cp mod 64"
    using a [of cp] a [of "cp div 64"] unfolding d by linarith
  then show "cp = cp div 262144 * 262144 + cp div 4096 mod 64 * 4096 + cp div 64 mod 64 * 64 + cp mod 64"
    using a [of "cp div 4096"] unfolding d by linarith
qed

lemma codepoint_bytes_complete:
  assumes "scalar cp"
  shows "complete (codepoint_bytes cp)"
proof -
  define x y z where "x = cp mod 2 ^ 6" and "y = cp div 2 ^ 6 mod 2 ^ 6" and "z = cp div 2 ^ 12 mod 2 ^ 6"
  have lt: "x < 64" "y < 64" "z < 64" by (simp_all add: x_def y_def z_def)
  have tail: "0x80 OR x = 0x80 + x" "0x80 OR y = 0x80 + y" "0x80 OR z = 0x80 + z"
    using lt by (simp_all add: lead_or)
  consider "cp < 0x80" | "0x80 \<le> cp" "cp \<le> 0x7FF" | "0x800 \<le> cp" "cp \<le> 0xFFFF" | "0x10000 \<le> cp" "cp < 0x110000"
    using assms unfolding scalar_def by linarith
  then show ?thesis
  proof cases
    case 1
    then show ?thesis by (simp add: codepoint_bytes_def complete_ascii)
  next
    case 2
    define h where "h = cp div 2 ^ 6"
    have h: "2 \<le> h" "h < 32" using 2 by (simp_all add: h_def)
    have "codepoint_bytes cp = char_of (0xC0 + h) # map char_of [0x80 + x]"
      using 2 h tail unfolding codepoint_bytes_def h_def [symmetric] x_def [symmetric] by (simp add: lead_or)
    moreover have "complete (char_of (0xC0 + h) # map char_of [0x80 + x])"
      using h lt by (intro complete_chars [where rs = "[(0x80, 0xBF)]"]) (simp_all add: utf8_ranges_def)
    ultimately show ?thesis by simp
  next
    case 3
    define h where "h = cp div 2 ^ 12"
    have cp: "cp = h * 4096 + y * 64 + x" "h < 16"
      using 3 base64_digits [of cp] unfolding h_def x_def y_def by simp_all
    have h: "h = 0 \<Longrightarrow> 0x20 \<le> y" "h = 13 \<Longrightarrow> y < 0x20"
      using assms 3 cp lt unfolding scalar_def by linarith+
    have "codepoint_bytes cp = char_of (0xE0 + h) # map char_of [0x80 + y, 0x80 + x]"
      using 3 cp(2) tail unfolding codepoint_bytes_def h_def [symmetric] x_def [symmetric] y_def [symmetric]
      by (simp add: lead_or)
    moreover have "complete (char_of (0xE0 + h) # map char_of [0x80 + y, 0x80 + x])"
    proof (cases "h = 0 \<or> h = 13")
      case True
      then show ?thesis using h lt
        by (elim disjE) (intro complete_chars [where rs = "[(0xA0, 0xBF), (0x80, 0xBF)]"]
            complete_chars [where rs = "[(0x80, 0x9F), (0x80, 0xBF)]"]; simp add: utf8_ranges_def)+
    next
      case False
      with cp(2) have "utf8_ranges (0xE0 + h) = Some [(0x80, 0xBF), (0x80, 0xBF)]"
        by (auto simp: utf8_ranges_def)
      then show ?thesis by (rule complete_chars) (use cp(2) lt in simp_all)
    qed
    ultimately show ?thesis by simp
  next
    case 4
    define h where "h = cp div 2 ^ 18"
    have cp: "cp = h * 262144 + z * 4096 + y * 64 + x" "h < 5"
      using 4 base64_digits [of cp] unfolding h_def x_def y_def z_def by simp_all
    have h: "h = 0 \<Longrightarrow> 0x10 \<le> z" "h = 4 \<Longrightarrow> z < 0x10"
      using 4 cp lt by linarith+
    have "codepoint_bytes cp = char_of (0xF0 + h) # map char_of [0x80 + z, 0x80 + y, 0x80 + x]"
      using 4 cp(2) tail
      unfolding codepoint_bytes_def h_def [symmetric] x_def [symmetric] y_def [symmetric] z_def [symmetric]
      by (simp add: lead_or)
    moreover have "complete (char_of (0xF0 + h) # map char_of [0x80 + z, 0x80 + y, 0x80 + x])"
    proof (cases "h = 0 \<or> h = 4")
      case True
      then show ?thesis
      proof
        assume "h = 0"
        then show ?thesis using h lt
          by (intro complete_chars [where rs = "[(0x90, 0xBF), (0x80, 0xBF), (0x80, 0xBF)]"]) (simp_all add: utf8_ranges_def)
      next
        assume "h = 4"
        then show ?thesis using h lt
          by (intro complete_chars [where rs = "[(0x80, 0x8F), (0x80, 0xBF), (0x80, 0xBF)]"]) (simp_all add: utf8_ranges_def)
      qed
    next
      case False
      with cp(2) have "utf8_ranges (0xF0 + h) = Some [(0x80, 0xBF), (0x80, 0xBF), (0x80, 0xBF)]"
        by (auto simp: utf8_ranges_def)
      then show ?thesis by (rule complete_chars) (use cp(2) lt in simp_all)
    qed
    ultimately show ?thesis by simp
  qed
qed

section \<open>What the scanner reads\<close>

lemma hex_val_less: "hex_val c = Some n \<Longrightarrow> n < 16"
  by (auto simp: hex_val_def Let_def split: if_splits)

lemma get_codepoint_less:
  assumes "get_codepoint cs = Some (cp, rest)"
  shows "cp < 0x10000"
proof -
  obtain a b c d w x y z where "hex_val a = Some w" "hex_val b = Some x" "hex_val c = Some y" "hex_val d = Some z"
    and cp: "cp = w * 2 ^ 12 + x * 2 ^ 8 + y * 2 ^ 4 + z"
    using assms by (auto simp: get_codepoint_def split: list.splits option.splits)
  then have "w < 16" "x < 16" "y < 16" "z < 16" by (auto dest: hex_val_less)
  then show ?thesis using cp by simp
qed

lemma surrogate_pair_scalar:
  assumes "0xD800 \<le> cp1" "cp1 \<le> 0xDBFF" "0xDC00 \<le> cp2" "cp2 \<le> 0xDFFF"
  shows "scalar (cp1 * 1024 + cp2 - 0x35FDC00)"
  using assms unfolding scalar_def by linarith

lemma single_scalar: "cp < 0x10000 \<Longrightarrow> \<not> (0xD800 \<le> cp \<and> cp \<le> 0xDBFF) \<Longrightarrow> \<not> (0xDC00 \<le> cp \<and> cp \<le> 0xDFFF) \<Longrightarrow> scalar cp"
  unfolding scalar_def by linarith

lemma scan_unicode_complete: "scan_unicode cs = Some (bs, rest) \<Longrightarrow> complete bs"
  by (auto simp: scan_unicode_def dest!: get_codepoint_less
      intro!: codepoint_bytes_complete surrogate_pair_scalar [simplified] intro: single_scalar split: option.splits if_splits list.splits)

lemma scan_escape_complete: "scan_escape cs = Some (bs, rest) \<Longrightarrow> complete bs"
  by (auto simp: scan_escape_def intro!: complete_ascii dest: scan_unicode_complete split: list.splits if_splits)

lemma scan_char_complete: "scan_char c cs = Some (bs, rest) \<Longrightarrow> complete bs"
  by (auto simp: scan_char_def next_byte_in_range_def intro: complete_ascii complete_multibyte scan_escape_complete
      split: if_splits option.splits)

lemma scan_string_complete: "scan_string buf cs = Some (s, rest) \<Longrightarrow> complete buf \<Longrightarrow> complete s"
proof (induction buf cs rule: scan_string.induct)
  case (2 buf c cs)
  show ?case
  proof (cases "c = CHR 0x22")
    case True
    with 2 show ?thesis by simp
  next
    case False
    then obtain bs r where bs: "scan_char c cs = Some (bs, r)" "scan_string (buf @ bs) r = Some (s, rest)"
      using 2(2) by (auto split: option.splits)
    show ?thesis
      by (rule 2(1) [OF False bs(1) refl bs(2)]) (intro complete_append 2(3) scan_char_complete [OF bs(1)])
  qed
qed simp

lemma scan_literal_token: "scan_literal ls tok cs = (t, rest) \<Longrightarrow> t = tok \<or> t = Parse_error"
  by (induction ls tok cs rule: scan_literal.induct) (auto split: if_splits)

lemma number_token_kind: "number_token t buf \<noteq> Value_string s"
  by (auto simp: number_token_def Let_def split: number_type.splits)

lemma scan_utf8:
  assumes "scan inp = (Value_string s, rest)"
  shows "utf8 s"
proof (cases "skip_whitespace inp")
  case Nil
  with assms show ?thesis by (simp add: scan_def)
next
  case (Cons c cs)
  have "scan_string [] cs = Some (s, rest)"
    using assms Cons by (auto simp: scan_def scan_number_def number_token_kind
        dest!: scan_literal_token split: if_splits option.splits)
  then show ?thesis by (rule complete_utf8 [OF scan_string_complete]) simp
qed

section \<open>The values the parser builds\<close>

text \<open>Strings and keys are valid UTF-8; keys are sorted and distinct.\<close>

fun json_typed :: "json \<Rightarrow> bool"
  and typed_elements :: "json list \<Rightarrow> bool"
  and typed_members :: "(string \<times> json) list \<Rightarrow> bool" where
  "json_typed (JString s) = utf8 s"
| "json_typed (JArray vs) = typed_elements vs"
| "json_typed (JObject kvs) = (keys_sorted kvs \<and> typed_members kvs)"
| "json_typed j = True"
| "typed_elements [] = True"
| "typed_elements (v # vs) = (json_typed v \<and> typed_elements vs)"
| "typed_members [] = True"
| "typed_members ((k, v) # kvs) = (utf8 k \<and> json_typed v \<and> typed_members kvs)"

text \<open>The values that hold a double.\<close>

fun has_float :: "json \<Rightarrow> bool"
  and float_elements :: "json list \<Rightarrow> bool"
  and float_members :: "(string \<times> json) list \<Rightarrow> bool" where
  "has_float (JFloat neg m e) = True"
| "has_float (JArray vs) = float_elements vs"
| "has_float (JObject kvs) = float_members kvs"
| "has_float j = False"
| "float_elements [] = False"
| "float_elements (v # vs) = (has_float v \<or> float_elements vs)"
| "float_members [] = False"
| "float_members ((k, v) # kvs) = (has_float v \<or> float_members kvs)"

lemma typed_elements_append: "typed_elements (vs @ ws) = (typed_elements vs \<and> typed_elements ws)"
  by (induction vs) auto

lemma typed_members_insert:
  "typed_members kvs \<Longrightarrow> utf8 k \<Longrightarrow> json_typed v \<Longrightarrow> typed_members (kv_insert k v kvs)"
  by (induction k v kvs rule: kv_insert.induct) auto

lemma typed_wf:
  "json_typed j \<Longrightarrow> json_wf j"
  "typed_elements vs \<Longrightarrow> json_wf_elements vs"
  "typed_members kvs \<Longrightarrow> json_wf_members kvs"
  by (induction j and vs and kvs rule: json_typed_typed_elements_typed_members.induct) auto

lemma typed_dump:
  "json_typed j \<Longrightarrow> (\<exists>out. dump j = Inr out) \<longleftrightarrow> \<not> has_float j"
  "typed_elements vs \<Longrightarrow> (\<exists>out. dump_elements vs = Inr out) \<longleftrightarrow> \<not> float_elements vs"
  "typed_members kvs \<Longrightarrow> (\<exists>out. dump_members kvs = Inr out) \<longleftrightarrow> \<not> float_members kvs"
proof (induction j and vs and kvs rule: json_typed_typed_elements_typed_members.induct)
  case (1 s)
  then show ?case using dump_escaped_utf8 [of s] by (auto split: sum.splits)
next
  case (8 k v kvs)
  then show ?case using dump_escaped_utf8 [of k] by (auto simp: Let_def split: sum.splits)
qed (auto split: sum.splits)

text \<open>The invariant of the loop: what it has built so far is typed.\<close>

fun typed_position :: "position \<Rightarrow> bool" where
  "typed_position (At_token (Value_string s)) = utf8 s"
| "typed_position (At_token t) = True"
| "typed_position (After_value v) = json_typed v"

fun typed_container :: "open_container \<Rightarrow> bool" where
  "typed_container (Open_array vs) = typed_elements vs"
| "typed_container (Open_object kvs k) = (keys_sorted kvs \<and> typed_members kvs \<and> utf8 k)"

lemma scan_typed: "scan inp = (t, rest) \<Longrightarrow> typed_position (At_token t)"
  by (cases t) (auto intro: scan_utf8)

lemmas parse_begin_object = parse_loop.simps(1) [where tok = Begin_object, unfolded token.case]

lemma parse_loop_typed:
  "parse_loop p states inp = Inr (v, rest) \<Longrightarrow> typed_position p \<Longrightarrow> list_all typed_container states \<Longrightarrow> json_typed v"
proof (induction p states inp rule: parse_loop.induct)
  case (1 tok states inp)
  show ?case
  proof (cases tok)
    case Begin_object
    obtain t1 r1 where s1: "scan inp = (t1, r1)" by fastforce
    show ?thesis
    proof (cases t1)
      case End_object
      then show ?thesis using 1 Begin_object s1 by (simp add: parse_loop.simps(1))
    next
      case (Value_string k)
      obtain t2 r2 t3 r3 where s: "scan r1 = (t2, r2)" "scan r2 = (t3, r3)" by fastforce
      have t2: "t2 = Name_separator" "parse_loop (At_token t3) (Open_object [] k # states) r3 = Inr (v, rest)"
        using "1.prems"(1) s1 s unfolding Begin_object parse_begin_object by (simp_all add: Value_string split: if_splits)
      show ?thesis using "1.IH"(10) [OF Begin_object s1 [symmetric] Value_string s(1) [symmetric] t2(1) s(2) [symmetric]]
        using t2 "1.prems"(3) scan_typed [OF s(2)] scan_typed [OF s1] Value_string by simp
    qed (use "1.prems"(1) Begin_object s1 in \<open>simp_all add: parse_loop.simps(1)\<close>)
  next
    case Begin_array
    obtain t1 r1 where s1: "scan inp = (t1, r1)" by fastforce
    show ?thesis
      using 1 Begin_array s1 scan_typed [OF s1] by (auto simp: parse_loop.simps(1) split: if_splits)
  qed (use 1 in \<open>auto simp: parse_loop.simps(1) split: option.splits\<close>)
next
  case (2 v inp)
  then show ?case by simp
next
  case (3 v vs states inp)
  obtain t1 r1 t2 r2 where s: "scan inp = (t1, r1)" "scan r1 = (t2, r2)" by fastforce
  show ?case
    using 3 s scan_typed [OF s(2)] by (auto simp: typed_elements_append split: if_splits)
next
  case (4 v kvs k states inp)
  obtain t1 r1 t2 r2 t3 r3 t4 r4 where s: "scan inp = (t1, r1)" "scan r1 = (t2, r2)" "scan r2 = (t3, r3)"
    "scan r3 = (t4, r4)" by fastforce
  show ?case
    using 4 s scan_typed [OF s(2)] scan_typed [OF s(4)]
    by (auto simp: typed_members_insert kv_insert_sorted split: if_splits token.splits)
qed

lemma json_parse_typed:
  assumes "json_parse inp = Inr j"
  shows "json_typed j"
proof -
  obtain inp' t r r' where "scan inp' = (t, r)" "parse_loop (At_token t) [] r = Inr (j, r')"
    using assms by (auto simp: json_parse_def split: option.splits prod.splits sum.splits if_splits)
  then show ?thesis using parse_loop_typed scan_typed by (metis list.pred_inject(1))
qed

section \<open>Property\<close>

text \<open>
  C13: Every value the parser returns has well-formed UTF-8 in all its strings and keys, however
  they were written, and objects with sorted, distinct keys; so \<open>dump\<close> does not throw on it
  (a value with a double apart, whose printing is not modelled), and what \<open>dump\<close> prints parses to
  the same value again.
\<close>

theorem parsed_values:
  assumes "json_parse inp = Inr j"
  shows "json_typed j \<and> (\<not> has_float j \<longrightarrow> (\<exists>out. dump j = Inr out))
    \<and> (\<forall>out. dump j = Inr out \<longrightarrow> json_parse out = Inr (canon j))"
proof (intro conjI allI impI)
  show typed: "json_typed j" by (rule json_parse_typed [OF assms])
  show "\<exists>out. dump j = Inr out" if "\<not> has_float j" using typed_dump(1) [OF typed] that by simp
  fix out
  assume "dump j = Inr out"
  then show "json_parse out = Inr (canon j)"
    using parse_dump [of j out 0] typed_wf(1) [OF typed] by simp
qed

text \<open>A surrogate pair is read as one character of four bytes.\<close>

theorem parsed_values_witness:
  "json_parse ([CHR ''['', CHR 0x22, CHR 0x5C] @ ''ud83d'' @ [CHR 0x5C] @ ''ude00'' @ [CHR 0x22, CHR '']''])
      = Inr (JArray [JString [CHR 0xF0, CHR 0x9F, CHR 0x98, CHR 0x80]])
    \<and> (\<exists>out. dump (JArray [JString [CHR 0xF0, CHR 0x9F, CHR 0x98, CHR 0x80]]) = Inr out)"
proof -
  have string: "scan_string [] ([CHR 0x5C] @ ''ud83d'' @ [CHR 0x5C] @ ''ude00'' @ [CHR 0x22, CHR '']''])
      = Some ([CHR 0xF0, CHR 0x9F, CHR 0x98, CHR 0x80], '']'')"
    by (simp add: scan_char_def scan_escape_def scan_unicode_def get_codepoint_def hex_val_def codepoint_bytes_def lead_or)
      (intro conjI; rule code_inj; simp)
  have parse: "json_parse ([CHR ''['', CHR 0x22, CHR 0x5C] @ ''ud83d'' @ [CHR 0x5C] @ ''ude00'' @ [CHR 0x22, CHR '']''])
      = Inr (JArray [JString [CHR 0xF0, CHR 0x9F, CHR 0x98, CHR 0x80]])"
    using string by (simp add: json_parse_def skip_bom_def scan_def skip_whitespace_def is_ws_def parse_loop.simps(1))
  from parsed_values [OF this] parse show ?thesis by simp
qed

end
