(* ===== verification/Json_Compare.thy ===== *)
theory Json_Compare
  imports Json_Typing
begin

text \<open>
  \<open>operator==\<close> of the JSON library (\<^verbatim>\<open>JSON_IMPLEMENT_OPERATOR\<close> in \<^verbatim>\<open>json.hpp\<close>), of which the handlers use
  the comparison with an enumerator, \<open>json_eq_enum\<close>.  On values without a double it is equality up
  to the signedness of integers, hence an equivalence, and it is the sense in which a value that
  was printed and parsed again is the same.
\<close>

section \<open>operator==\<close>

text \<open>\<open>static_cast<double>\<close> of an integer, and \<open>==\<close> on doubles: the parser produces no NaN.\<close>

definition double_of_int :: "int \<Rightarrow> bool \<times> nat \<times> int" where
  "double_of_int i = (case round_double (nat \<bar>i\<bar>) 1 of
     None \<Rightarrow> (i < 0, 2 ^ 53, 971)
   | Some (m, e) \<Rightarrow> (i < 0, m, e))"

definition double_eq :: "bool \<times> nat \<times> int \<Rightarrow> bool \<times> nat \<times> int \<Rightarrow> bool" where
  "double_eq x y = (case (x, y) of ((n1, m1, e1), (n2, m2, e2)) \<Rightarrow>
     let e = min e1 e2 in (if n1 then - int m1 else int m1) * 2 ^ nat (e1 - e)
       = (if n2 then - int m2 else int m2) * 2 ^ nat (e2 - e))"

text \<open>
  Values of the same type are compared by content -- arrays and objects element by element --,
  numbers of different types after a conversion, and other values of different types are unequal.
\<close>

fun json_eq :: "json \<Rightarrow> json \<Rightarrow> bool"
  and eq_elements :: "json list \<Rightarrow> json list \<Rightarrow> bool"
  and eq_members :: "(string \<times> json) list \<Rightarrow> (string \<times> json) list \<Rightarrow> bool" where
  "json_eq (JArray vs) r = (case r of JArray ws \<Rightarrow> eq_elements vs ws | _ \<Rightarrow> False)"
| "json_eq (JObject kvs) r = (case r of JObject kws \<Rightarrow> eq_members kvs kws | _ \<Rightarrow> False)"
| "json_eq JNull r = (r = JNull)"
| "json_eq (JString s) r = (r = JString s)"
| "json_eq (JBool b) r = (r = JBool b)"
| "json_eq (JInteger w) r = (case r of
     JInteger w' \<Rightarrow> sint w = sint w'
   | JFloat n m e \<Rightarrow> double_eq (double_of_int (sint w)) (n, m, e)
   | JUnsigned w' \<Rightarrow> sint w = sint w'
   | _ \<Rightarrow> False)"
| "json_eq (JUnsigned w) r = (case r of
     JUnsigned w' \<Rightarrow> uint w = uint w'
   | JFloat n m e \<Rightarrow> double_eq (double_of_int (uint w)) (n, m, e)
   | JInteger w' \<Rightarrow> sint w = sint w'
   | _ \<Rightarrow> False)"
| "json_eq (JFloat n m e) r = (case r of
     JFloat n' m' e' \<Rightarrow> double_eq (n, m, e) (n', m', e')
   | JInteger w' \<Rightarrow> double_eq (n, m, e) (double_of_int (sint w'))
   | JUnsigned w' \<Rightarrow> double_eq (n, m, e) (double_of_int (uint w'))
   | _ \<Rightarrow> False)"
| "eq_elements [] ws = (ws = [])"
| "eq_elements (v # vs) ws = (case ws of [] \<Rightarrow> False | w # ws' \<Rightarrow> json_eq v w \<and> eq_elements vs ws')"
| "eq_members [] kws = (kws = [])"
| "eq_members ((k, v) # kvs) kws = (case kws of [] \<Rightarrow> False
     | (k', w) # kws' \<Rightarrow> k = k' \<and> json_eq v w \<and> eq_members kvs kws')"

section \<open>Up to signedness\<close>

fun unsign :: "json \<Rightarrow> json"
  and unsign_elements :: "json list \<Rightarrow> json list"
  and unsign_members :: "(string \<times> json) list \<Rightarrow> (string \<times> json) list" where
  "unsign (JInteger w) = JUnsigned w"
| "unsign (JArray vs) = JArray (unsign_elements vs)"
| "unsign (JObject kvs) = JObject (unsign_members kvs)"
| "unsign j = j"
| "unsign_elements [] = []"
| "unsign_elements (v # vs) = unsign v # unsign_elements vs"
| "unsign_members [] = []"
| "unsign_members ((k, v) # kvs) = (k, unsign v) # unsign_members kvs"

lemma unsign_leaf:
  "JNull = unsign r \<longleftrightarrow> r = JNull" "JBool b = unsign r \<longleftrightarrow> r = JBool b" "JString s = unsign r \<longleftrightarrow> r = JString s"
  "JUnsigned w = unsign r \<longleftrightarrow> r = JUnsigned w \<or> r = JInteger w"
  by (cases r; auto)+

lemma json_eq_unsign:
  "\<not> has_float j \<Longrightarrow> \<not> has_float r \<Longrightarrow> json_eq j r \<longleftrightarrow> unsign j = unsign r"
  "\<not> float_elements vs \<Longrightarrow> \<not> float_elements ws \<Longrightarrow> eq_elements vs ws \<longleftrightarrow> unsign_elements vs = unsign_elements ws"
  "\<not> float_members kvs \<Longrightarrow> \<not> float_members kws \<Longrightarrow> eq_members kvs kws \<longleftrightarrow> unsign_members kvs = unsign_members kws"
proof (induction j and vs and kvs arbitrary: r and ws and kws rule: has_float_float_elements_float_members.induct)
  case (2 vs)
  then show ?case by (cases r) auto
next
  case (3 kvs)
  then show ?case by (cases r) auto
next
  case 5
  then show ?case by (cases ws) auto
next
  case (6 v vs)
  then show ?case by (cases ws) auto
next
  case 7
  then show ?case by (cases kws) auto
next
  case (8 k v kvs)
  then show ?case by (cases kws) auto
qed (auto simp: unsign_leaf simp flip: word_eq_iff_signed word_eq_iff_unsigned split: json.split)

lemma unsign_canon:
  "unsign (canon j) = unsign j" "unsign_elements (canon_elements vs) = unsign_elements vs"
  "unsign_members (canon_members kvs) = unsign_members kvs"
  by (induction j and vs and kvs rule: canon_canon_elements_canon_members.induct) auto

section \<open>Comparison with an enumerator\<close>

lemma bit_length_bounds: "0 < n \<Longrightarrow> 2 ^ (bit_length n - 1) \<le> n \<and> n < 2 ^ bit_length n \<and> 0 < bit_length n"
proof (induction n rule: bit_length.induct)
  case (1 n)
  show ?case
  proof (cases "n div 2 = 0")
    case True
    then have "n = 1" using 1(2) by auto
    then show ?thesis by (simp add: bit_length.simps)
  next
    case False
    let ?l = "bit_length (n div 2)"
    have IH: "2 ^ (?l - 1) \<le> n div 2" "n div 2 < 2 ^ ?l" "0 < ?l" using 1 False by simp_all
    have l: "bit_length n = Suc ?l" using 1(2) by (subst bit_length.simps) simp
    have "(2::nat) ^ ?l = 2 * 2 ^ (?l - 1)" using IH(3) by (cases ?l) simp_all
    moreover have "(2::nat) ^ Suc ?l = 2 * 2 ^ ?l" by simp
    moreover have "(2::nat) ^ (Suc ?l - 1) = 2 ^ ?l" by simp
    ultimately show ?thesis using IH(1,2) unfolding l by linarith
  qed
qed

text \<open>An integer below \<open>2 ^ 53\<close> is a double.\<close>

lemma round_double_exact:
  assumes "0 < n" and "n < 2 ^ 53"
  shows "round_double n 1 = Some (n * 2 ^ (53 - bit_length n), int (bit_length n) - 53)"
proof -
  let ?l = "bit_length n"
  have b: "2 ^ (?l - 1) \<le> n" "n < 2 ^ ?l" "0 < ?l" using bit_length_bounds [OF assms(1)] by simp_all
  have "(2::nat) ^ (?l - 1) < 2 ^ 53" using b(1) assms(2) by (rule le_less_trans)
  then have "?l - 1 < 53" by (rule power_less_imp_less_exp [rotated]) simp
  then have l: "?l \<le> 53" by simp
  have one: "bit_length 1 = 1" by (simp add: bit_length.simps)
  have "(2::nat) ^ 53 = 2 ^ (?l - 1) * 2 ^ (54 - ?l)" using l b(3) by (simp flip: power_add)
  also have "\<dots> \<le> n * 2 ^ (54 - ?l)" using b(1) by simp
  finally have e1: "\<not> n * 2 ^ (54 - ?l) < 2 ^ 53" by simp
  have s0: "scale n 1 (int ?l - int 1 - 53) = (n * 2 ^ (54 - ?l), 1)"
    using l by (auto simp: scale_def nat_diff_distrib)
  have s1: "scale n 1 (max (int ?l - int 1 - 53 + 1) (- 1074)) = (n * 2 ^ (53 - ?l), 1)"
    using l by (cases "?l = 53") (auto simp: scale_def max_def nat_diff_distrib)
  have "\<not> (0 \<le> max (int ?l - int 1 - 53 + 1) (- 1074)
      \<and> 2 ^ 1024 \<le> n * 2 ^ (53 - ?l) * 2 ^ nat (max (int ?l - int 1 - 53 + 1) (- 1074)))"
  proof
    assume h: "0 \<le> max (int ?l - int 1 - 53 + 1) (- 1074)
      \<and> 2 ^ 1024 \<le> n * 2 ^ (53 - ?l) * 2 ^ nat (max (int ?l - int 1 - 53 + 1) (- 1074))"
    then have "?l = 53" using l by (auto simp: max_def split: if_splits)
    then have "2 ^ 1024 \<le> n" using h by simp
    moreover have "(2::nat) ^ 53 \<le> 2 ^ 1024" by (rule power_increasing) simp_all
    ultimately show False using assms(2) by linarith
  qed
  moreover have "max (int ?l - int 1 - 53 + 1) (- 1074) = int ?l - 53" by simp
  ultimately show ?thesis using assms(1) e1 s0 s1
    unfolding round_double_def one Let_def by (simp del: scale_def)
qed

lemma align_shift:
  assumes "k' \<le> k" and "k \<le> e1" and "k \<le> (e2 :: int)"
  shows "(a :: int) * 2 ^ nat (e1 - k') = b * 2 ^ nat (e2 - k') \<longleftrightarrow> a * 2 ^ nat (e1 - k) = b * 2 ^ nat (e2 - k)"
proof -
  have "nat (e1 - k') = nat (e1 - k) + nat (k - k')" "nat (e2 - k') = nat (e2 - k) + nat (k - k')"
    using assms by simp_all
  then show ?thesis by (simp add: power_add flip: mult.assoc)
qed

lemma double_of_int_exact:
  assumes "\<bar>i\<bar> < 2 ^ 53"
  shows "double_eq (n, m, e) (double_of_int i) \<longleftrightarrow>
    (let a = (if n then - int m else int m) in if 0 \<le> e then a * 2 ^ nat e = i else a = i * 2 ^ nat (- e))"
proof (cases "i = 0")
  case True
  then show ?thesis by (auto simp: double_of_int_def round_double_def double_eq_def Let_def)
next
  case False
  let ?a = "if n then - int m else int m" and ?l = "bit_length (nat \<bar>i\<bar>)"
  have n: "0 < nat \<bar>i\<bar>" "nat \<bar>i\<bar> < 2 ^ 53" using False assms by (simp_all add: nat_less_iff)
  have l: "?l \<le> 53"
  proof -
    have "(2::nat) ^ (?l - 1) < 2 ^ 53" using bit_length_bounds [OF n(1)] n(2) by linarith
    then have "?l - 1 < 53" by (rule power_less_imp_less_exp [rotated]) simp
    then show ?thesis by simp
  qed
  let ?k = "min e (int ?l - 53)"
  have "(if i < 0 then - int (nat \<bar>i\<bar> * 2 ^ (53 - ?l)) else int (nat \<bar>i\<bar> * 2 ^ (53 - ?l))) = i * 2 ^ (53 - ?l)"
    by simp
  then have "double_eq (n, m, e) (double_of_int i) \<longleftrightarrow> ?a * 2 ^ nat (e - ?k) = i * 2 ^ (53 - ?l) * 2 ^ nat (int ?l - 53 - ?k)"
    unfolding double_of_int_def round_double_exact [OF n] by (simp add: double_eq_def Let_def)
  also have "i * 2 ^ (53 - ?l) * 2 ^ nat (int ?l - 53 - ?k) = i * 2 ^ nat (0 - ?k)"
  proof -
    have "nat (0 - ?k) = (53 - ?l) + nat (int ?l - 53 - ?k)" using l by arith
    then show ?thesis by (simp add: power_add)
  qed
  also have "?a * 2 ^ nat (e - ?k) = i * 2 ^ nat (0 - ?k) \<longleftrightarrow> ?a * 2 ^ nat (e - min e 0) = i * 2 ^ nat (0 - min e 0)"
    by (rule align_shift) (use l in simp_all)
  finally show ?thesis by (auto simp: Let_def min_def)
qed

section \<open>Properties\<close>

text \<open>
  The comparison of a value with an enumerator, as the upload and download requests make it, is
  the library's general \<open>operator==\<close> with the enumerator converted to a value first: also for
  unsigned numbers and for doubles.
\<close>

theorem enum_comparison:
  assumes "\<bar>i\<bar> < 2 ^ 31"
  shows "json_eq j (enum_json i) = json_eq_enum j i"
proof -
  have s: "sint (word_of_int i :: 64 word) = i"
    using assms by (simp add: signed_of_int signed_take_bit_int_eq_self)
  have "\<bar>i\<bar> < 2 ^ 53" using assms by simp
  from double_of_int_exact [OF this] show ?thesis
    by (cases j) (simp_all add: json_eq_enum_def enum_json_def s)
qed

theorem enum_comparison_witness:
  "json_eq (JFloat False 3 0) (enum_json 3) = json_eq_enum (JFloat False 3 0) 3 \<and> json_eq_enum (JFloat False 3 0) 3
    \<and> json_eq (JFloat False 3 (- 1)) (enum_json 1) = json_eq_enum (JFloat False 3 (- 1)) 1"
  using enum_comparison [of 3] enum_comparison [of 1] by (simp add: json_eq_enum_def)

lemma dump_no_float:
  "dump j = Inr s \<Longrightarrow> \<not> has_float j" "dump_elements vs = Inr s' \<Longrightarrow> \<not> float_elements vs"
  "dump_members kvs = Inr s'' \<Longrightarrow> \<not> float_members kvs"
  by (induction j and vs and kvs arbitrary: s and s' and s'' rule: has_float_float_elements_float_members.induct)
    (auto simp: Let_def split: sum.splits if_splits)

lemma canon_no_float:
  "has_float (canon j) = has_float j" "float_elements (canon_elements vs) = float_elements vs"
  "float_members (canon_members kvs) = float_members kvs"
  by (induction j and vs and kvs rule: canon_canon_elements_canon_members.induct) auto

text \<open>
  C19: What a value is after it was printed and parsed again -- padded with NUL bytes as in a packet
  or not -- equals it in the sense of \<open>operator==\<close>, and that equality is an equivalence on
  everything that can be printed.
\<close>

theorem printed_equal:
  assumes "dump j = Inr s" and "json_wf j"
  shows "(\<exists>j'. json_parse (s @ replicate n NUL) = Inr j' \<and> json_eq j j') \<and> json_eq j j
    \<and> (\<forall>j1 out. dump j1 = Inr out \<longrightarrow> json_eq j j1 = json_eq j1 j
        \<and> (json_eq j j1 \<longrightarrow> (\<forall>j2 out2. dump j2 = Inr out2 \<longrightarrow> json_eq j1 j2 = json_eq j j2)))"
proof -
  note nf = dump_no_float(1) [OF assms(1)]
  have "json_eq j (canon j)" using nf by (simp add: json_eq_unsign unsign_canon canon_no_float)
  then show ?thesis using parse_dump [OF assms, of n] nf
    by (auto simp: json_eq_unsign dest!: dump_no_float(1))
qed

theorem printed_equal_witness:
  "\<exists>s. dump (JArray [JInteger 5, JString ''a'']) = Inr s
    \<and> (\<exists>j'. json_parse (s @ replicate 3 NUL) = Inr j' \<and> json_eq (JArray [JInteger 5, JString ''a'']) j')
    \<and> json_eq (JInteger 5) (JUnsigned 5) \<and> \<not> json_eq (JInteger 5) (JString ''5'')"
proof -
  obtain s where s: "dump (JArray [JInteger 5, JString ''a'']) = Inr s"
    using typed_dump(1) [of "JArray [JInteger 5, JString ''a'']"] by (auto simp: dump_eval)
  moreover have "json_wf (JArray [JInteger 5, JString ''a''])" by simp
  ultimately show ?thesis using printed_equal [OF s, of 3] by auto
qed

end
