(* ===== verification/Json_Escape.thy ===== *)
theory Json_Escape
  imports Json_Typing
begin

unbundle bit_operations_syntax

text \<open>
  \<open>dump_escaped\<close> of the JSON library (\<^verbatim>\<open>detail/output/serializer.hpp\<close>) with all its options: the
  option \<open>ensure_ascii\<close>, the three error handlers, and the buffer \<open>string_buffer\<close> of 512 bytes.
\<close>

section \<open>Escaping strings\<close>

datatype error_handler = Strict | Replace | Ignore

text \<open>
  The variables of \<open>dump_escaped\<close>: the automaton with the code point, the content of \<open>string_buffer\<close>
  (its first \<open>bytes\<close> bytes), \<open>bytes_after_last_accept\<close>, \<open>undumped_chars\<close>, and what was written out.
\<close>

record escaping =
  decoder :: "nat \<times> nat"
  string_buffer :: string
  last_accept :: nat
  undumped :: nat
  written :: string

text \<open>
  Writing to the buffer; \<^verbatim>\<open>snprintf\<close> adds a NUL, for which there must be room too.
\<close>

definition put :: "string \<Rightarrow> nat \<Rightarrow> escaping \<Rightarrow> exn + escaping" where
  "put bs nul e = (if 512 < length (string_buffer e) + length bs + nul then Inl (UB Buffer_overflow)
     else Inr (e\<lparr>string_buffer := string_buffer e @ bs\<rparr>))"

definition flush :: "escaping \<Rightarrow> escaping" where
  "flush e = (if 512 - length (string_buffer e) < 13
     then e\<lparr>written := written e @ string_buffer e, string_buffer := []\<rparr> else e)"

definition escape_bytes :: "bool \<Rightarrow> nat \<Rightarrow> char \<Rightarrow> string \<times> nat" where
  "escape_bytes ensure_ascii codepoint c =
     (if codepoint = 0x08 then ([CHR 0x5C, CHR ''b''], 0)
      else if codepoint = 0x09 then ([CHR 0x5C, CHR ''t''], 0)
      else if codepoint = 0x0A then ([CHR 0x5C, CHR ''n''], 0)
      else if codepoint = 0x0C then ([CHR 0x5C, CHR ''f''], 0)
      else if codepoint = 0x0D then ([CHR 0x5C, CHR ''r''], 0)
      else if codepoint = 0x22 then ([CHR 0x5C, CHR 0x22], 0)
      else if codepoint = 0x5C then ([CHR 0x5C, CHR 0x5C], 0)
      else if codepoint \<le> 0x1F \<or> ensure_ascii \<and> 0x7F \<le> codepoint then
        (if codepoint \<le> 0xFFFF then (unicode_escape codepoint, 1)
         else (unicode_escape (0xD7C0 + codepoint div 2 ^ 10) @ unicode_escape (0xDC00 + (codepoint AND 0x3FF)), 1))
      else ([c], 0))"

definition replacement :: "bool \<Rightarrow> string" where
  "replacement ensure_ascii = (if ensure_ascii then CHR 0x5C # ''ufffd'' else [CHR 0xEF, CHR 0xBF, CHR 0xBD])"

text \<open>One round of the loop; the flag asks for the byte to be read again (\<open>--i\<close>).\<close>

definition escape_byte :: "error_handler \<Rightarrow> bool \<Rightarrow> char \<Rightarrow> escaping \<Rightarrow> exn + (bool \<times> escaping)" where
  "escape_byte h ensure_ascii c e = (let sc = decode (decoder e) (of_char c) in
     if fst sc = UTF8_ACCEPT then
       (case escape_bytes ensure_ascii (snd sc) c of (bs, nul) \<Rightarrow>
          (case put bs nul e of Inl x \<Rightarrow> Inl x | Inr e1 \<Rightarrow>
             let e2 = flush e1 in
             Inr (False, e2\<lparr>decoder := sc, last_accept := length (string_buffer e2), undumped := 0\<rparr>)))
     else if fst sc = UTF8_REJECT then
       (let again = 0 < undumped e;
            e1 = e\<lparr>string_buffer := take (last_accept e) (string_buffer e)\<rparr> in
        case h of
          Strict \<Rightarrow> Inl (Json_type_error 316)
        | Ignore \<Rightarrow> Inr (again, e1\<lparr>decoder := (UTF8_ACCEPT, snd sc), undumped := 0\<rparr>)
        | Replace \<Rightarrow> (case put (replacement ensure_ascii) 0 e1 of Inl x \<Rightarrow> Inl x | Inr e2 \<Rightarrow>
            let e3 = flush e2 in
            Inr (again, e3\<lparr>decoder := (UTF8_ACCEPT, snd sc), last_accept := length (string_buffer e3), undumped := 0\<rparr>)))
     else
       (case put (if ensure_ascii then [] else [c]) 0 e of Inl x \<Rightarrow> Inl x | Inr e1 \<Rightarrow>
          Inr (False, e1\<lparr>decoder := sc, undumped := undumped e + 1\<rparr>)))"

lemma escape_byte_again: "escape_byte h a c e = Inr (again, e') \<Longrightarrow> again \<longrightarrow> 0 < undumped e \<and> undumped e' = 0"
  by (auto simp: escape_byte_def Let_def split: if_splits prod.splits sum.splits error_handler.splits)

function escape_loop :: "error_handler \<Rightarrow> bool \<Rightarrow> string \<Rightarrow> escaping \<Rightarrow> exn + escaping" where
  "escape_loop h ensure_ascii [] e = Inr e"
| "escape_loop h ensure_ascii (c # cs) e = (case escape_byte h ensure_ascii c e of
     Inl x \<Rightarrow> Inl x
   | Inr (again, e') \<Rightarrow> escape_loop h ensure_ascii (if again then c # cs else cs) e')"
  by pat_completeness auto

termination
  by (relation "measure (\<lambda>(h, a, cs, e). 2 * length cs + (if 0 < undumped e then 1 else 0))")
    (auto dest: escape_byte_again)

declare escape_loop.simps(2) [simp del]

definition escape_end :: "error_handler \<Rightarrow> bool \<Rightarrow> escaping \<Rightarrow> exn + string" where
  "escape_end h ensure_ascii e =
     (if fst (decoder e) = UTF8_ACCEPT then Inr (written e @ string_buffer e)
      else case h of
        Strict \<Rightarrow> Inl (Json_type_error 316)
      | Ignore \<Rightarrow> Inr (written e @ take (last_accept e) (string_buffer e))
      | Replace \<Rightarrow> Inr (written e @ take (last_accept e) (string_buffer e) @ replacement ensure_ascii))"

definition escape :: "error_handler \<Rightarrow> bool \<Rightarrow> string \<Rightarrow> exn + string" where
  "escape h ensure_ascii s =
     (case escape_loop h ensure_ascii s
        \<lparr>decoder = (UTF8_ACCEPT, 0), string_buffer = [], last_accept = 0, undumped = 0, written = []\<rparr> of
      Inl x \<Rightarrow> Inl x
    | Inr e \<Rightarrow> escape_end h ensure_ascii e)"

section \<open>The invariant of the loop\<close>

text \<open>How many bytes of an unfinished character can have been read in a state of the automaton.\<close>

definition room :: "nat \<Rightarrow> nat" where
  "room s = (if s = 0 then 0 else if s = 2 then 3 else if s = 3 then 2 else 1)"

definition decoder_ok :: "nat \<times> nat \<Rightarrow> bool" where
  "decoder_ok sc \<longleftrightarrow> fst sc = 0 \<or> waiting (fst sc) \<and> cp_bound (fst sc) (snd sc)"

text \<open>
  The finished part of the output is well-formed, and what follows it in the buffer are the bytes of
  the unfinished character, unless they are to be escaped.
\<close>

definition loop_ok :: "bool \<Rightarrow> escaping \<Rightarrow> bool" where
  "loop_ok a e \<longleftrightarrow> decoder_ok (decoder e) \<and> undumped e \<le> room (fst (decoder e)) \<and> last_accept e \<le> 499
     \<and> length (string_buffer e) = last_accept e + (if a then 0 else undumped e)
     \<and> complete (written e @ take (last_accept e) (string_buffer e))
     \<and> (\<not> a \<longrightarrow> (\<forall>t. utf8 (drop (last_accept e) (string_buffer e) @ t) = utf8_from (fst (decoder e)) t))"

lemma decode_step:
  assumes "decoder_ok sc" and "decode sc (code c) = (s', cp')"
  shows "s' = 0 \<or> s' = 1 \<or> waiting s'"
    and "waiting s' \<Longrightarrow> cp_bound s' cp' \<and> room (fst sc) + 1 \<le> room s'"
    and "s' = 0 \<Longrightarrow> if fst sc = 0 then code c < 128 \<and> cp' = code c else 128 \<le> cp'"
proof -
  obtain s cp where sc: "sc = (s, cp)" by (cases sc)
  have d: "s' = utf8d ! (256 + s * 16 + utf8d ! code c)"
    "cp' = (if s \<noteq> 0 then (code c AND 0x3F) OR cp * 2 ^ 6 else (0xFF div 2 ^ (utf8d ! code c)) AND code c)"
    using assms(2) by (simp_all add: sc decode_def Let_def UTF8_ACCEPT_def)
  have "(s' = 0 \<or> s' = 1 \<or> waiting s') \<and> (waiting s' \<longrightarrow> cp_bound s' cp' \<and> room s + 1 \<le> room s')
    \<and> (s' = 0 \<longrightarrow> (if s = 0 then code c < 128 \<and> cp' = code c else 128 \<le> cp'))"
  proof (cases "s = 0")
    case True
    show ?thesis
    proof (cases "code c < 128")
      case ascii: True
      then have "s' = 0" "cp' = code c"
        using d True accept_state [OF ascii] and_mask_nat [of 8 "code c"] by (simp_all add: code_class0)
      then show ?thesis using True ascii by (simp add: waiting_def)
    next
      case False
      then have b: "128 \<le> code c" by simp
      have s': "s' = utf8d ! (256 + utf8d ! code c)" "cp' = (0xFF div 2 ^ (utf8d ! code c)) AND code c" using d True by simp_all
      have "s' = 1 \<or> waiting s'" using start_pending [OF code_less b] unfolding s'(1) by (auto split: option.splits)
      moreover have "cp_bound s' cp'" unfolding s' by (rule start_bound [OF code_less b])
      moreover have "waiting s' \<Longrightarrow> 1 \<le> room s'" by (auto simp: waiting_def room_def)
      ultimately show ?thesis using True by (auto simp: waiting_def room_def)
    qed
  next
    case False
    then have w: "waiting s" "cp_bound s cp" using assms(1) by (auto simp: decoder_ok_def sc)
    obtain lo hi ps where ps: "pending s = (lo, hi) # ps" using next_state [OF w(1) code_less] by blast
    note n = next_state_is [OF w(1) code_less [of c] ps, folded d(1)]
    show ?thesis
    proof (cases "lo \<le> code c \<and> code c \<le> hi")
      case True
      then have "cp_bound s' cp'" using next_bound [OF w(1) code_less w(2) ps] d False by simp
      moreover have "s' = (if s = 2 then 0 else if s = 3 \<or> s = 4 \<or> s = 5 then 2 else 3)" using n True by simp
      ultimately show ?thesis using w(1) False by (auto simp: waiting_def room_def cp_bound_def)
    next
      case out: False
      then show ?thesis using n by (auto simp: waiting_def)
    qed
  qed
  then show "s' = 0 \<or> s' = 1 \<or> waiting s'" "waiting s' \<Longrightarrow> cp_bound s' cp' \<and> room (fst sc) + 1 \<le> room s'"
    "s' = 0 \<Longrightarrow> if fst sc = 0 then code c < 128 \<and> cp' = code c else 128 \<le> cp'"
    by (auto simp: sc)
qed

lemma utf8_step: "decode (s, cp) (code c) = (s', cp') \<Longrightarrow> utf8_from s (c # t) \<longleftrightarrow> s' \<noteq> 1 \<and> utf8_from s' t"
  by (auto simp: decode_def utf8_from.simps Let_def)

text \<open>What is written for a code point.\<close>

lemma hex_digit_ascii: "d < 16 \<Longrightarrow> code (hex_digit d) < 128 \<and> 32 \<le> code (hex_digit d)"
  by (auto simp: hex_digit_def)

lemma complete_string: "\<forall>c \<in> set s. code c < 128 \<Longrightarrow> complete s"
proof (induction s)
  case (Cons c s)
  then show ?case using complete_append [OF complete_ascii, of c s] by simp
qed simp

lemma unicode_escape_ascii: "c \<in> set (unicode_escape n) \<Longrightarrow> code c < 128 \<and> 32 \<le> code c"
  by (auto simp: unicode_escape_def hex_digit_ascii)

text \<open>An escape is ASCII; the byte itself is written for a character that needs none.\<close>

lemma escape_bytes_cases:
  assumes "escape_bytes a cp c = (bs, nul)"
  shows "(bs = [c] \<and> nul = 0 \<and> \<not> (a \<and> 0x7F \<le> cp) \<and> 0x1F < cp \<and> cp \<noteq> 0x22 \<and> cp \<noteq> 0x5C
      \<or> (\<forall>x \<in> set bs. code x < 127 \<and> 32 \<le> code x) \<and> (\<not> a \<longrightarrow> cp < 128)) \<and> length bs + nul \<le> 13 \<and> (\<not> a \<or> cp < 128 \<longrightarrow> length bs + nul \<le> 7)"
proof -
  have u: "x \<in> set (unicode_escape n) \<Longrightarrow> code x < 127 \<and> 32 \<le> code x" "length (unicode_escape n) = 6" for x n
    by (auto simp: unicode_escape_def hex_digit_def)
  show ?thesis using assms by (auto simp: escape_bytes_def u split: if_splits)
qed

lemma flush_effect:
  "written (flush e) @ string_buffer (flush e) = written e @ string_buffer e"
  "length (string_buffer (flush e)) \<le> 499" "decoder (flush e) = decoder e" "undumped (flush e) = undumped e"
  by (auto simp: flush_def)

lemma loop_ok_parts:
  assumes "loop_ok a e"
  shows "length (string_buffer e) \<le> 502" "a \<Longrightarrow> length (string_buffer e) \<le> 499"
    and "a \<or> fst (decoder e) = 0 \<Longrightarrow> complete (written e @ string_buffer e)"
proof -
  have r: "room s \<le> 3" for s by (simp add: room_def)
  show "length (string_buffer e) \<le> 502" "a \<Longrightarrow> length (string_buffer e) \<le> 499"
    using assms r [of "fst (decoder e)"] by (auto simp: loop_ok_def)
  assume "a \<or> fst (decoder e) = 0"
  then have "length (string_buffer e) = last_accept e" using assms by (auto simp: loop_ok_def room_def)
  then show "complete (written e @ string_buffer e)" using assms by (simp add: loop_ok_def)
qed

lemma accept_complete:
  assumes ok: "loop_ok a e" and d: "decode (decoder e) (code c) = (0, cp)" and bs: "escape_bytes a cp c = (bs, nul)"
  shows "complete (written e @ string_buffer e @ bs)" and "length (string_buffer e) + length bs + nul \<le> 512"
proof -
  have dk: "decoder_ok (decoder e)" using ok by (simp add: loop_ok_def)
  note step = decode_step(3) [OF dk d refl]
  note b = escape_bytes_cases [OF bs]
  show "length (string_buffer e) + length bs + nul \<le> 512"
    using b loop_ok_parts(1,2) [OF ok] by (cases a) auto
  show "complete (written e @ string_buffer e @ bs)"
  proof (cases "a \<or> fst (decoder e) = 0")
    case True
    have "\<forall>x \<in> set bs. code x < 128" using b step True by (auto split: if_splits)
    then show ?thesis
      using complete_append [OF loop_ok_parts(3) [OF ok True] complete_string] by simp
  next
    case False
    let ?rest = "drop (last_accept e) (string_buffer e)"
    have "128 \<le> cp" using step False by simp
    then have "bs = [c]" using b False by auto
    have "utf8 (?rest @ [c] @ t) = utf8 t" for t
    proof -
      have "utf8 (?rest @ [c] @ t) = utf8_from (fst (decoder e)) (c # t)" using ok False by (simp add: loop_ok_def)
      also have "\<dots> = utf8 t" using utf8_step [of "fst (decoder e)" "snd (decoder e)" c 0 cp t] d by simp
      finally show ?thesis .
    qed
    then have rest: "complete (?rest @ [c])" by (simp add: complete_def)
    have "complete (written e @ take (last_accept e) (string_buffer e))" using ok by (simp add: loop_ok_def)
    then have "complete ((written e @ take (last_accept e) (string_buffer e)) @ ?rest @ [c])"
      by (rule complete_append [OF _ rest])
    then show ?thesis unfolding \<open>bs = [c]\<close> by (metis append.assoc append_take_drop_id)
  qed
qed

lemma replacement_complete: "complete (replacement a)" "length (replacement a) \<le> 6"
proof -
  have "complete (CHR 0x5C # ''ufffd'')" by (rule complete_string) simp
  moreover have "complete (char_of (0xEF :: nat) # map char_of [0xBF :: nat, 0xBD])"
    by (rule complete_chars [where rs = "[(0x80, 0xBF), (0x80, 0xBF)]"]) (simp_all add: utf8_ranges_def)
  moreover have "char_of (0xEF :: nat) = CHR 0xEF" "char_of (0xBF :: nat) = CHR 0xBF" "char_of (0xBD :: nat) = CHR 0xBD"
    by (rule code_inj, simp)+
  ultimately have "complete (CHR 0x5C # ''ufffd'') \<and> complete [CHR 0xEF, CHR 0xBF, CHR 0xBD]" by simp
  then show "complete (replacement a)" by (simp add: replacement_def)
  show "length (replacement a) \<le> 6" by (simp add: replacement_def)
qed

text \<open>A round keeps the invariant, and throws only on an invalid byte under the strict handler.\<close>

lemma escape_byte_ok:
  assumes ok: "loop_ok a e"
  shows "case escape_byte h a c e of
      Inl x \<Rightarrow> h = Strict \<and> x = Json_type_error 316
    | Inr (again, e') \<Rightarrow> loop_ok a e'"
proof -
  obtain s' cp where d: "decode (decoder e) (code c) = (s', cp)" by fastforce
  have dk: "decoder_ok (decoder e)" using ok by (simp add: loop_ok_def)
  consider "s' = 0" | "s' = 1" | "waiting s'" "s' \<noteq> 0" "s' \<noteq> 1"
    using decode_step(1) [OF dk d] by (auto simp: waiting_def)
  then show ?thesis
  proof cases
    case 1
    obtain bs nul where bs: "escape_bytes a cp c = (bs, nul)" by fastforce
    note acc = accept_complete [OF ok d [unfolded 1] bs]
    let ?e = "flush (e\<lparr>string_buffer := string_buffer e @ bs\<rparr>)"
    have "complete (written ?e @ string_buffer ?e)" using acc(1) unfolding flush_effect(1) by simp
    then have "loop_ok a (?e\<lparr>decoder := (0, cp), last_accept := length (string_buffer ?e), undumped := 0\<rparr>)"
      using flush_effect(2) [of "e\<lparr>string_buffer := string_buffer e @ bs\<rparr>"] by (simp add: loop_ok_def decoder_ok_def)
    then show ?thesis using acc(2) d 1 bs by (simp add: escape_byte_def UTF8_ACCEPT_def put_def Let_def)
  next
    case 2
    let ?e1 = "e\<lparr>string_buffer := take (last_accept e) (string_buffer e)\<rparr>"
    let ?e2 = "?e1\<lparr>string_buffer := string_buffer ?e1 @ replacement a\<rparr>"
    let ?e3 = "flush ?e2"
    have la: "last_accept e \<le> 499" "last_accept e \<le> length (string_buffer e)"
      "complete (written e @ take (last_accept e) (string_buffer e))" using ok by (auto simp: loop_ok_def)
    have "loop_ok a (?e1\<lparr>decoder := (0, cp), undumped := 0\<rparr>)" using la by (simp add: loop_ok_def decoder_ok_def)
    moreover have "complete (written ?e3 @ string_buffer ?e3)"
      using complete_append [OF la(3) replacement_complete(1)] unfolding flush_effect(1) by simp
    then have "loop_ok a (?e3\<lparr>decoder := (0, cp), last_accept := length (string_buffer ?e3), undumped := 0\<rparr>)"
      using flush_effect(2) [of ?e2] by (simp add: loop_ok_def decoder_ok_def)
    ultimately show ?thesis using d 2 la(1) replacement_complete(2) [of a]
      by (cases h) (simp_all add: escape_byte_def UTF8_ACCEPT_def UTF8_REJECT_def put_def Let_def)
  next
    case 3
    let ?e = "e\<lparr>string_buffer := string_buffer e @ (if a then [] else [c])\<rparr>"
    have room: "cp_bound s' cp" "undumped e + 1 \<le> room s'"
      using decode_step(2) [OF dk d 3(1)] ok by (auto simp: loop_ok_def)
    have len: "length (string_buffer e) = last_accept e + (if a then 0 else undumped e)"
      "complete (written e @ take (last_accept e) (string_buffer e))" "last_accept e \<le> 499"
      using ok by (simp_all add: loop_ok_def)
    have "utf8 (drop (last_accept e) (string_buffer e) @ c # t) = utf8_from s' t" if "\<not> a" for t
      using utf8_step [of "fst (decoder e)" "snd (decoder e)" c s' cp t] d 3(3) ok that by (simp add: loop_ok_def)
    then have "loop_ok a (?e\<lparr>decoder := (s', cp), undumped := undumped e + 1\<rparr>)"
      using 3(1) room len by (simp add: loop_ok_def decoder_ok_def)
    then show ?thesis using d 3(2,3) loop_ok_parts(1) [OF ok]
      by (simp add: escape_byte_def UTF8_ACCEPT_def UTF8_REJECT_def put_def Let_def)
  qed
qed

lemma escape_loop_ok:
  assumes "loop_ok a e"
  shows "case escape_loop h a cs e of Inl x \<Rightarrow> h = Strict \<and> x = Json_type_error 316 | Inr e' \<Rightarrow> loop_ok a e'"
  using assms
proof (induction h a cs e rule: escape_loop.induct)
  case (2 h a c cs e)
  note ok = escape_byte_ok [OF 2(2), of h c]
  show ?case
  proof (cases "escape_byte h a c e")
    case (Inl x)
    then show ?thesis using ok by (simp add: escape_loop.simps(2))
  next
    case (Inr r)
    obtain again e' where r: "r = (again, e')" by (cases r)
    then have "loop_ok a e'" using ok Inr by simp
    from 2(1) [OF Inr r [symmetric] this] show ?thesis using Inr r by (simp add: escape_loop.simps(2))
  qed
qed simp

abbreviation fresh_escaping :: escaping where
  "fresh_escaping \<equiv> \<lparr>decoder = (UTF8_ACCEPT, 0), string_buffer = [], last_accept = 0, undumped = 0, written = []\<rparr>"

lemma loop_ok_fresh [simp]: "loop_ok a fresh_escaping"
  by (simp add: loop_ok_def decoder_ok_def UTF8_ACCEPT_def)

lemma escape_end_ok:
  assumes "loop_ok a e"
  shows "case escape_end h a e of Inl x \<Rightarrow> h = Strict \<and> x = Json_type_error 316 | Inr out \<Rightarrow> utf8 out"
proof -
  have la: "complete (written e @ take (last_accept e) (string_buffer e))" using assms by (simp add: loop_ok_def)
  have "complete (written e @ string_buffer e)" if "fst (decoder e) = 0" using loop_ok_parts(3) [OF assms] that by simp
  moreover have "complete (written e @ take (last_accept e) (string_buffer e) @ replacement a)"
    using complete_append [OF la replacement_complete(1)] by simp
  ultimately show ?thesis using la
    by (cases h) (auto simp: escape_end_def UTF8_ACCEPT_def intro: complete_utf8)
qed

text \<open>With \<open>ensure_ascii\<close> everything written is ASCII.\<close>

definition ascii_output :: "escaping \<Rightarrow> bool" where
  "ascii_output e \<longleftrightarrow> (\<forall>x \<in> set (written e @ string_buffer e). code x < 128)"

lemma ascii_flush: "ascii_output (flush e) = ascii_output e"
  by (simp only: ascii_output_def flush_effect(1))

lemma escape_byte_ascii:
  assumes ok: "loop_ok True e" and asc: "ascii_output e" and byte: "escape_byte h True c e = Inr (again, e')"
  shows "ascii_output e'"
proof -
  obtain s' cp where d: "decode (decoder e) (code c) = (s', cp)" by fastforce
  have dk: "decoder_ok (decoder e)" using ok by (simp add: loop_ok_def)
  have keep: "ascii_output (e\<lparr>string_buffer := take k (string_buffer e) @ bs\<rparr>)" if "\<forall>x \<in> set bs. code x < 128" for k bs
    using asc that by (auto simp: ascii_output_def dest: in_set_takeD)
  consider "s' = 0" | "s' = 1" | "s' \<noteq> 0" "s' \<noteq> 1" by blast
  then show ?thesis
  proof cases
    case 1
    obtain bs nul where bs: "escape_bytes True cp c = (bs, nul)" by fastforce
    have "\<forall>x \<in> set bs. code x < 128"
      using escape_bytes_cases [OF bs] decode_step(3) [OF dk d [unfolded 1] refl] by (auto split: if_splits)
    with keep [of bs "length (string_buffer e)"] show ?thesis using byte d 1 bs ascii_flush [of "e\<lparr>string_buffer := string_buffer e @ bs\<rparr>"]
      by (auto simp: escape_byte_def UTF8_ACCEPT_def put_def Let_def ascii_output_def split: if_splits)
  next
    case 2
    let ?e2 = "e\<lparr>string_buffer := take (last_accept e) (string_buffer e) @ replacement True\<rparr>"
    have "ascii_output ?e2" by (rule keep) (simp add: replacement_def)
    with keep [of "[]" "last_accept e"] show ?thesis using byte d 2 ascii_flush [of ?e2]
      by (cases h) (auto simp: escape_byte_def UTF8_ACCEPT_def UTF8_REJECT_def put_def Let_def ascii_output_def split: if_splits)
  next
    case 3
    then show ?thesis using byte d asc
      by (auto simp: escape_byte_def UTF8_ACCEPT_def UTF8_REJECT_def put_def Let_def ascii_output_def split: if_splits)
  qed
qed

lemma escape_loop_ascii:
  "escape_loop h True cs e = Inr e' \<Longrightarrow> loop_ok True e \<Longrightarrow> ascii_output e \<Longrightarrow> ascii_output e'"
proof (induction h True cs e rule: escape_loop.induct)
  case (2 h c cs e)
  then obtain again e1 where step: "escape_byte h True c e = Inr (again, e1)"
    and rest: "escape_loop h True (if again then c # cs else cs) e1 = Inr e'"
    by (auto simp: escape_loop.simps(2) split: sum.splits)
  have "loop_ok True e1" using escape_byte_ok [OF 2(3), of h c] step by simp
  then show ?case using 2(1) [OF step refl rest] escape_byte_ascii [OF 2(3,4) step] by simp
qed simp

text \<open>
  C30: Escaping a string never writes beyond the 512 bytes of \<open>string_buffer\<close>: the result is a text, or
  \<open>type_error\<close> 316 if the handler is strict.  The text is well-formed UTF-8 whatever bytes the string held, and
  with \<open>ensure_ascii\<close> it is ASCII.
\<close>

theorem escape_safe:
  "case escape h a s of
     Inl x \<Rightarrow> h = Strict \<and> x = Json_type_error 316
   | Inr out \<Rightarrow> utf8 out \<and> (a \<longrightarrow> (\<forall>c \<in> set out. code c < 128))"
proof (cases "escape_loop h a s fresh_escaping")
  case (Inl x)
  then show ?thesis using escape_loop_ok [of a fresh_escaping h s] by (simp add: escape_def)
next
  case (Inr e)
  then have ok: "loop_ok a e" using escape_loop_ok [of a fresh_escaping h s] by simp
  have "ascii_output e" if a using escape_loop_ascii [of h s fresh_escaping e] Inr that by (simp add: ascii_output_def)
  then have "\<forall>c \<in> set out. code c < 128" if "escape_end h a e = Inr out" a for out
    using that by (cases h) (auto simp: escape_end_def ascii_output_def replacement_def dest!: in_set_takeD split: if_splits)
  then show ?thesis using escape_end_ok [OF ok, of h] Inr by (auto simp: escape_def split: sum.splits)
qed

lemma escape_safe_witness:
  "\<exists>out. escape Replace True [CHR 0xC3, CHR ''('', CHR 0xFF] = Inr out \<and> utf8 out \<and> (\<forall>c \<in> set out. code c < 128)"
  using escape_safe [of Replace True "[CHR 0xC3, CHR ''('', CHR 0xFF]"] by (simp split: sum.splits)

section \<open>What the buffer does not change\<close>

text \<open>The same output without a buffer, for the strict handler.\<close>

fun escaped_from :: "bool \<Rightarrow> nat \<times> nat \<Rightarrow> string \<Rightarrow> exn + string" where
  "escaped_from a sc [] = (if fst sc = UTF8_ACCEPT then Inr [] else Inl (Json_type_error 316))"
| "escaped_from a sc (c # cs) = (let sc' = decode sc (of_char c) in
     if fst sc' = UTF8_REJECT then Inl (Json_type_error 316)
     else (case escaped_from a sc' cs of
         Inl x \<Rightarrow> Inl x
       | Inr out \<Rightarrow> Inr ((if fst sc' = UTF8_ACCEPT then fst (escape_bytes a (snd sc') c) else if a then [] else [c]) @ out)))"

lemma escape_bytes_plain: "fst (escape_bytes False cp c) = accept_bytes cp c"
  by (simp add: escape_bytes_def accept_bytes_def)

lemma escaped_from_plain: "escaped_from False sc cs = dump_escaped_from sc cs"
proof (induction cs arbitrary: sc)
  case (Cons c cs)
  obtain s cp where "decode sc (code c) = (s, cp)" by fastforce
  then show ?case using Cons by (simp add: escape_bytes_plain Let_def dump_escaped_from.simps(2) split: sum.split)
qed simp

lemma strict_byte:
  assumes ok: "loop_ok a e" and d: "decode (decoder e) (code c) = (s', cp)" and "s' \<noteq> 1"
  shows "\<exists>e'. escape_byte Strict a c e = Inr (False, e') \<and> loop_ok a e' \<and> decoder e' = (s', cp)
    \<and> written e' @ string_buffer e' = written e @ string_buffer e
        @ (if s' = 0 then fst (escape_bytes a cp c) else if a then [] else [c])"
proof (cases "s' = 0")
  case True
  obtain bs nul where bs: "escape_bytes a cp c = (bs, nul)" by fastforce
  let ?e = "flush (e\<lparr>string_buffer := string_buffer e @ bs\<rparr>)"
  let ?e' = "?e\<lparr>decoder := (0, cp), last_accept := length (string_buffer ?e), undumped := 0\<rparr>"
  have "escape_byte Strict a c e = Inr (False, ?e')"
    using accept_complete(2) [OF ok d [unfolded True] bs] d True bs by (simp add: escape_byte_def UTF8_ACCEPT_def put_def Let_def)
  moreover from this have "loop_ok a ?e'" using escape_byte_ok [OF ok, of Strict c] by simp
  moreover have "written ?e' @ string_buffer ?e' = written e @ string_buffer e @ bs"
    using flush_effect(1) [of "e\<lparr>string_buffer := string_buffer e @ bs\<rparr>"] by simp
  ultimately show ?thesis using True bs by (intro exI [of _ ?e']) simp
next
  case False
  let ?e' = "e\<lparr>string_buffer := string_buffer e @ (if a then [] else [c]), decoder := (s', cp), undumped := undumped e + 1\<rparr>"
  have "escape_byte Strict a c e = Inr (False, ?e')"
    using loop_ok_parts(1) [OF ok] d False assms(3) by (simp add: escape_byte_def UTF8_ACCEPT_def UTF8_REJECT_def put_def Let_def)
  moreover from this have "loop_ok a ?e'" using escape_byte_ok [OF ok, of Strict c] by simp
  ultimately show ?thesis using False by (intro exI [of _ ?e']) simp
qed

lemma strict_loop:
  assumes "loop_ok a e"
  shows "(case escape_loop Strict a cs e of Inl x \<Rightarrow> Inl x | Inr e' \<Rightarrow> escape_end Strict a e')
    = (case escaped_from a (decoder e) cs of Inl x \<Rightarrow> Inl x | Inr out \<Rightarrow> Inr (written e @ string_buffer e @ out))"
  using assms
proof (induction cs arbitrary: e)
  case Nil
  then show ?case by (simp add: escape_end_def)
next
  case (Cons c cs)
  obtain s' cp where d: "decode (decoder e) (code c) = (s', cp)" by fastforce
  show ?case
  proof (cases "s' = 1")
    case True
    then show ?thesis using d by (simp add: escape_loop.simps(2) escape_byte_def UTF8_ACCEPT_def UTF8_REJECT_def)
  next
    case False
    obtain e' where e': "escape_byte Strict a c e = Inr (False, e')" "loop_ok a e'" "decoder e' = (s', cp)"
      "written e' @ string_buffer e' = written e @ string_buffer e @ (if s' = 0 then fst (escape_bytes a cp c) else if a then [] else [c])"
      using strict_byte [OF Cons.prems d False] by blast
    have "escape_loop Strict a (c # cs) e = escape_loop Strict a cs e'" using e'(1) by (simp add: escape_loop.simps(2))
    then show ?thesis using Cons.IH [OF e'(2)] d False e'(3) append.assoc [of "written e'" "string_buffer e'"]
      by (cases "escaped_from a (s', cp) cs") (simp_all add: e'(4) UTF8_ACCEPT_def UTF8_REJECT_def Let_def)
  qed
qed

lemma escape_strict: "escape Strict a s = escaped_from a (0, 0) s"
  unfolding escape_def strict_loop [OF loop_ok_fresh]
  by (cases "escaped_from a (0, 0) s") (simp_all add: UTF8_ACCEPT_def)

lemma escape_default: "escape Strict False s = dump_escaped s"
  by (simp add: escape_strict escaped_from_plain dump_escaped_def UTF8_ACCEPT_def)

section \<open>Escapes are read back\<close>

text \<open>The value of the bytes of a character, and what \<open>scan_unicode\<close> makes of its escape.\<close>

lemma hex4:
  assumes "n < 0x10000"
  shows "get_codepoint (tl (tl (unicode_escape n)) @ t) = Some (n, t)"
proof -
  have "n = n div 4096 * 4096 + n div 256 mod 16 * 256 + n div 16 mod 16 * 16 + n mod 16"
  proof -
    have a: "m = m div 16 * 16 + m mod 16" for m :: nat by simp
    have "n div 16 div 16 = n div 256" "n div 256 div 16 = n div 4096" by (simp_all add: div_mult2_eq [symmetric])
    then show ?thesis using a [of n] a [of "n div 16"] a [of "n div 256"] by linarith
  qed
  moreover have "n div 4096 < 16" using assms by simp
  ultimately show ?thesis
    by (simp add: unicode_escape_def get_codepoint_def hex_val_hex_digit)
qed

lemma unicode_escape_Cons: "unicode_escape n = CHR 0x5C # CHR ''u'' # tl (tl (unicode_escape n))"
  by (simp add: unicode_escape_def)

lemma scan_escaped:
  assumes "scalar cp" and "0x7F \<le> cp" and "escape_bytes True cp c = (bs, nul)"
  shows "\<exists>ds. bs = CHR 0x5C # ds \<and> (\<forall>t. scan_char CHR 0x5C (ds @ t) = Some (codepoint_bytes cp, t))"
proof (cases "cp \<le> 0xFFFF")
  case True
  have "bs = unicode_escape cp" using assms(2,3) True by (simp add: escape_bytes_def)
  then have "bs = CHR 0x5C # CHR ''u'' # tl (tl (unicode_escape cp))" using unicode_escape_Cons by simp
  moreover have "\<not> (0xD800 \<le> cp \<and> cp \<le> 0xDBFF)" "\<not> (0xDC00 \<le> cp \<and> cp \<le> 0xDFFF)"
    using assms(1) by (auto simp: scalar_def)
  ultimately show ?thesis using True hex4 [of cp]
    by (auto simp: scan_char_def scan_escape_def scan_unicode_def)
next
  case False
  define h l where "h = 0xD7C0 + cp div 2 ^ 10" and "l = 0xDC00 + cp mod 2 ^ 10"
  have cp: "cp < 0x110000" using assms(1) False by (simp add: scalar_def)
  have h: "0xD800 \<le> h" "h \<le> 0xDBFF" using cp False by (simp_all add: h_def less_mult_imp_div_less)
  have "cp mod 2 ^ 10 < 2 ^ 10" by simp
  then have l: "0xDC00 \<le> l" "l \<le> 0xDFFF" unfolding l_def by simp_all
  have "cp = cp div 2 ^ 10 * 2 ^ 10 + cp mod 2 ^ 10" by simp
  then have v: "h * 2 ^ 10 + l - 0x35FDC00 = cp" by (simp add: h_def l_def)
  have bs: "bs = CHR 0x5C # CHR ''u'' # tl (tl (unicode_escape h)) @ CHR 0x5C # CHR ''u'' # tl (tl (unicode_escape l))"
  proof -
    have "cp AND 0x3FF = cp mod 2 ^ 10" using and_mask_nat [of 10 cp] by (simp add: and.commute)
    then have "bs = unicode_escape h @ unicode_escape l"
      using assms(2,3) False by (simp add: escape_bytes_def h_def l_def)
    then show ?thesis using unicode_escape_Cons [of h] unicode_escape_Cons [of l] by (metis append_Cons)
  qed
  have "get_codepoint (tl (tl (unicode_escape h)) @ t) = Some (h, t)" "get_codepoint (tl (tl (unicode_escape l)) @ t) = Some (l, t)"
    for t using h l hex4 [of h t] hex4 [of l t] by simp_all
  then have "scan_unicode ((tl (tl (unicode_escape h)) @ CHR 0x5C # CHR ''u'' # tl (tl (unicode_escape l))) @ t)
      = Some (codepoint_bytes cp, t)" for t
    using h l v by (simp add: scan_unicode_def)
  then show ?thesis unfolding bs by (auto simp: scan_char_def scan_escape_def)
qed

text \<open>The code point that the automaton collects from the continuation bytes.\<close>

definition collect :: "nat \<Rightarrow> string \<Rightarrow> nat" where
  "collect cp bs = foldl (\<lambda>v b. v * 64 + (code b - 128)) cp bs"

lemma continuation_value:
  assumes "128 \<le> code c" and "code c < 192"
  shows "(code c AND 0x3F) OR cp * 2 ^ 6 = cp * 64 + (code c - 128)"
proof -
  have "code c mod 64 = code c - 128" using mod_digit [of "code c - 128" 64 2] assms by simp
  moreover have "code c mod 64 < 2 ^ 6" by simp
  from or_add_nat [OF this, of cp] have "(code c mod 64) OR cp * 2 ^ 6 = cp * 64 + code c mod 64" by (simp add: or.commute)
  ultimately show ?thesis by (simp add: and_mask6)
qed

lemma escaped_continuation:
  assumes "waiting s" and "escaped_from True (s, cp) cs = Inr out"
  shows "\<exists>bs rest out'. cs = bs @ rest \<and> escaped_from True (0, collect cp bs) rest = Inr out'
    \<and> (\<exists>c. out = fst (escape_bytes True (collect cp bs) c) @ out') \<and> (\<forall>t. next_bytes (pending s) (bs @ t) = Some (bs, t))"
  using assms
proof (induction cs arbitrary: s cp out)
  case Nil
  then show ?case by (simp add: waiting_def UTF8_ACCEPT_def split: if_splits)
next
  case (Cons c cs)
  let ?s = "utf8d ! (256 + s * 16 + utf8d ! code c)"
  obtain lo hi ps where ps: "pending s = (lo, hi) # ps"
    and st: "if lo \<le> code c \<and> code c \<le> hi then pending ?s = ps \<and> (?s = 0 \<and> ps = [] \<or> waiting ?s) else ?s = 1"
    using next_state [OF Cons.prems(1) code_less, of c] by blast
  have s: "s \<noteq> 0" using Cons.prems(1) by (auto simp: waiting_def)
  let ?cp = "(code c AND 0x3F) OR cp * 2 ^ 6"
  have d: "decode (s, cp) (code c) = (?s, ?cp)" using s by (simp add: decode_def UTF8_ACCEPT_def Let_def)
  obtain out1 where out1: "escaped_from True (?s, ?cp) cs = Inr out1" "?s \<noteq> 1"
    and out: "out = (if ?s = 0 then fst (escape_bytes True ?cp c) else []) @ out1"
    using Cons.prems(2) d by (auto simp: Let_def UTF8_ACCEPT_def UTF8_REJECT_def split: sum.splits if_splits)
  have range: "lo \<le> code c" "code c \<le> hi" using st out1(2) by (auto split: if_splits)
  moreover have "128 \<le> lo" "hi < 192" using pending_limits [OF Cons.prems(1) ps] by simp_all
  ultimately have cp: "?cp = collect cp [c]" using continuation_value [of c cp] by (simp add: collect_def)
  show ?case
  proof (cases "?s = 0")
    case True
    then have "ps = []" using st range by (auto simp: waiting_def)
    then show ?thesis using out out1 True ps range unfolding cp
      by (intro exI [of _ "[c]"] exI [of _ cs] exI [of _ out1]) auto
  next
    case False
    then have w: "waiting ?s" "pending ?s = ps" using st range by auto
    obtain bs rest out' where IH: "cs = bs @ rest" "escaped_from True (0, collect ?cp bs) rest = Inr out'"
      "\<exists>c. out1 = fst (escape_bytes True (collect ?cp bs) c) @ out'" "\<forall>t. next_bytes ps (bs @ t) = Some (bs, t)"
      using Cons.IH [OF w(1) out1(1)] unfolding w(2) by blast
    moreover have "collect ?cp bs = collect cp (c # bs)" unfolding cp by (simp add: collect_def)
    ultimately show ?thesis using out False ps range
      by (intro exI [of _ "c # bs"] exI [of _ rest] exI [of _ out']) auto
  qed
qed

text \<open>The first byte of a character without its marker.\<close>

lemma lead_value:
  assumes "utf8_ranges b = Some rs" and "b < 256"
  shows "(0xFF div 2 ^ (utf8d ! b)) AND b = b - (if b < 224 then 192 else if b < 240 then 224 else 240)"
proof -
  have b: "194 \<le> b" "b \<le> 244" using assms(1) by (auto simp: utf8_ranges_def split: if_splits)
  have m: "63 AND b = b mod 64" "31 AND b = b mod 32" "15 AND b = b mod 16" "7 AND b = b mod 8" "3 AND b = b mod 4"
    using and_mask_nat [of 6 b] and_mask_nat [of 5 b] and_mask_nat [of 4 b] and_mask_nat [of 3 b] and_mask_nat [of 2 b]
    by simp_all
  have r: "b < 224 \<Longrightarrow> b mod 64 = b - 192" "224 \<le> b \<Longrightarrow> b < 240 \<Longrightarrow> b mod 32 = b - 224" "240 \<le> b \<Longrightarrow> b < 244 \<Longrightarrow> b mod 4 = b - 240"
    using b mod_digit [of "b - 192" 64 3] mod_digit [of "b - 224" 32 7] mod_digit [of "b - 240" 4 60] by simp_all
  show ?thesis unfolding byte_class [OF assms(2)] using b by (simp add: m r)
qed

lemma next_bytes_all: "next_bytes rs bs = Some (bs, []) \<Longrightarrow> list_all2 (\<lambda>r b. fst r \<le> code b \<and> code b \<le> snd r) rs bs"
  by (induction rs bs rule: next_bytes.induct) (auto split: if_splits option.splits)

lemma base64_digit: "x < 64 \<Longrightarrow> (h * 64 + x) div 64 = h" "x < 64 \<Longrightarrow> (h * 64 + x) mod 64 = (x :: nat)"
  by simp_all

lemma character_value:
  assumes "utf8_ranges (code c) = Some rs" and "next_bytes rs bs = Some (bs, [])"
    and "cp = collect (code c - (if code c < 224 then 192 else if code c < 240 then 224 else 240)) bs"
  shows "scalar cp \<and> 0x80 \<le> cp \<and> codepoint_bytes cp = c # bs"
proof -
  note all = next_bytes_all [OF assms(2)]
  have byte_back: "128 \<le> code b \<Longrightarrow> char_of (0x80 + (code b - 128)) = b" for b
    by (rule code_inj) (use code_less [of b] in simp)
  consider (two) "194 \<le> code c" "code c \<le> 223" "rs = [(0x80, 0xBF)]"
    | (three) lo hi where "224 \<le> code c" and "code c \<le> 239" and "rs = [(lo, hi), (0x80, 0xBF)]" and "128 \<le> lo" and "hi \<le> 191"
        and "code c = 224 \<longrightarrow> 160 \<le> lo" and "code c = 237 \<longrightarrow> hi \<le> 159"
    | (four) lo hi where "240 \<le> code c" and "code c \<le> 244" and "rs = [(lo, hi), (0x80, 0xBF), (0x80, 0xBF)]" and "128 \<le> lo"
        and "hi \<le> 191" and "code c = 240 \<longrightarrow> 144 \<le> lo" and "code c = 244 \<longrightarrow> hi \<le> 143"
    using assms(1) by (auto simp: utf8_ranges_def split: if_splits)
  then show ?thesis
  proof cases
    case two
    then obtain b where b: "bs = [b]" "128 \<le> code b" "code b \<le> 191" using all by (auto simp: list_all2_Cons1)
    define h x where "h = code c - 192" and "x = code b - 128"
    have hx: "2 \<le> h" "h < 32" "x < 64" using two b by (simp_all add: h_def x_def)
    have cp: "cp = h * 64 + x" using assms(3) two b by (simp add: collect_def h_def x_def)
    have "codepoint_bytes cp = [char_of (0xC0 + h), char_of (0x80 + x)]"
      using hx unfolding cp codepoint_bytes_def by (simp add: lead_or)
    moreover have "char_of (0xC0 + h) = c" by (rule code_inj) (use two code_less [of c] in \<open>simp add: h_def\<close>)
    moreover have "0x80 \<le> cp" "cp < 0xD800" using hx unfolding cp by linarith+
    ultimately show ?thesis using b byte_back [of b] by (simp add: scalar_def x_def)
  next
    case three
    then obtain b1 b2 where b: "bs = [b1, b2]" "lo \<le> code b1" "code b1 \<le> hi" "128 \<le> code b2" "code b2 \<le> 191"
      using all by (auto simp: list_all2_Cons1)
    define h y x where "h = code c - 224" and "y = code b1 - 128" and "x = code b2 - 128"
    have hx: "h < 16" "y < 64" "x < 64" "h = 0 \<Longrightarrow> 32 \<le> y" "h = 13 \<Longrightarrow> y < 32"
      using three b unfolding h_def x_def y_def by linarith+
    have cp: "cp = (h * 64 + y) * 64 + x" using assms(3) three b by (simp add: collect_def h_def x_def y_def)
    have d: "cp div 2 ^ 12 = h" "cp div 2 ^ 6 mod 2 ^ 6 = y" "cp mod 2 ^ 6 = x"
      using hx(2,3) base64_digit [of x "h * 64 + y"] base64_digit [of y h] div_mult2_eq [of cp 64 64] unfolding cp by simp_all
    have "h = 0 \<or> 1 \<le> h \<and> h \<le> 12 \<or> h = 13 \<or> 14 \<le> h" by arith
    then have r: "0x800 \<le> cp \<and> cp \<le> 0xFFFF \<and> (cp < 0xD800 \<or> 0xE000 \<le> cp)"
      using hx unfolding cp by (elim disjE) auto
    have "codepoint_bytes cp = [char_of (0xE0 + h), char_of (0x80 + y), char_of (0x80 + x)]"
      unfolding codepoint_bytes_def d using r hx by (simp add: lead_or)
    moreover have "char_of (0xE0 + h) = c" by (rule code_inj) (use three code_less [of c] in \<open>simp add: h_def\<close>)
    ultimately show ?thesis using r b three(4) byte_back [of b1] byte_back [of b2] by (simp add: scalar_def x_def y_def)
  next
    case four
    then obtain b1 b2 b3 where b: "bs = [b1, b2, b3]" "lo \<le> code b1" "code b1 \<le> hi" "128 \<le> code b2" "code b2 \<le> 191"
      "128 \<le> code b3" "code b3 \<le> 191"
      using all by (auto simp: list_all2_Cons1)
    define h z y x where "h = code c - 240" and "z = code b1 - 128" and "y = code b2 - 128" and "x = code b3 - 128"
    have hx: "h \<le> 4" "z < 64" "y < 64" "x < 64" "h = 0 \<Longrightarrow> 16 \<le> z" "h = 4 \<Longrightarrow> z < 16"
      using four b unfolding h_def x_def y_def z_def by linarith+
    have cp: "cp = ((h * 64 + z) * 64 + y) * 64 + x" using assms(3) four b by (simp add: collect_def h_def x_def y_def z_def)
    have d: "cp div 2 ^ 18 = h" "cp div 2 ^ 12 mod 2 ^ 6 = z" "cp div 2 ^ 6 mod 2 ^ 6 = y" "cp mod 2 ^ 6 = x"
      using hx(2-4) base64_digit [of x "(h * 64 + z) * 64 + y"] base64_digit [of y "h * 64 + z"] base64_digit [of z h]
        div_mult2_eq [of cp 64 64] div_mult2_eq [of cp 64 4096] div_mult2_eq [of "cp div 64" 64 64] unfolding cp by simp_all
    have "h = 0 \<or> 1 \<le> h \<and> h \<le> 3 \<or> h = 4" using hx(1) by arith
    then have r: "0x10000 \<le> cp \<and> cp < 0x110000" using hx unfolding cp by (elim disjE) auto
    have "codepoint_bytes cp = [char_of (0xF0 + h), char_of (0x80 + z), char_of (0x80 + y), char_of (0x80 + x)]"
      unfolding codepoint_bytes_def d using r hx by (simp add: lead_or)
    moreover have "char_of (0xF0 + h) = c" by (rule code_inj) (use four code_less [of c] in \<open>simp add: h_def\<close>)
    ultimately show ?thesis using r b four(4) byte_back [of b1] byte_back [of b2] byte_back [of b3] by (simp add: scalar_def x_def y_def z_def)
  qed
qed

text \<open>An escaped string, followed by a quote, scans to the string; it is ASCII.\<close>

lemma scan_ascii:
  assumes "escaped_from True (0, cp) s = Inr out"
  shows "scan_string buf (out @ CHR 0x22 # rest) = Some (buf @ s, rest) \<and> (\<forall>x \<in> set out. code x < 127 \<and> 32 \<le> code x)"
  using assms
proof (induction "length s" arbitrary: cp s out buf rule: less_induct)
  case less
  show ?case
  proof (cases s)
    case Nil
    with less.prems show ?thesis by (simp add: UTF8_ACCEPT_def)
  next
    case (Cons c cs)
    let ?s = "utf8d ! (256 + utf8d ! code c)" and ?cp = "(0xFF div 2 ^ (utf8d ! code c)) AND code c"
    have d: "decode (0, cp) (code c) = (?s, ?cp)" by (simp add: decode_def UTF8_ACCEPT_def Let_def)
    obtain out1 where out1: "escaped_from True (?s, ?cp) cs = Inr out1" "?s \<noteq> 1"
      and out: "out = (if ?s = 0 then fst (escape_bytes True ?cp c) else []) @ out1"
      using less.prems Cons d by (auto simp: Let_def UTF8_ACCEPT_def UTF8_REJECT_def split: sum.splits if_splits)
    have go: "scan_string (buf @ x) (out' @ CHR 0x22 # rest) = Some ((buf @ x) @ r, rest)
        \<and> (\<forall>x \<in> set out'. code x < 127 \<and> 32 \<le> code x)"
      if "s = x @ r" "x \<noteq> []" "escaped_from True (0, v) r = Inr out'" for x r v out'
      by (rule less.hyps [OF _ that(3)]) (use that in simp)
    have esc: ?thesis if "s = x @ r" "x \<noteq> []" "escaped_from True (0, v) r = Inr out'" "out = e # es @ out'" "e \<noteq> CHR 0x22"
        "\<And>t. scan_char e (es @ t) = Some (x, t)" "\<forall>y \<in> set (e # es). code y < 127 \<and> 32 \<le> code y" for x r v out' e es
      using go [OF that(1-3)] that by (simp add: ball_Un)
    show ?thesis
    proof (cases "code c < 128")
      case True
      then have v: "?s = 0" "?cp = code c" using accept_state [OF True] and_mask_nat [of 8 "code c"] by (simp_all add: code_class0)
      obtain bs nul where bs: "escape_bytes True (code c) c = (bs, nul)" by fastforce
      have parts: "s = [c] @ cs" "escaped_from True (0, code c) cs = Inr out1" "out = bs @ out1"
        using Cons out1 out v bs by simp_all
      have printable: "\<forall>y \<in> set bs. code y < 127 \<and> 32 \<le> code y" using escape_bytes_cases [OF bs] by auto
      show ?thesis
      proof (cases "code c = 127")
        case del: True
        then obtain ds where ds: "bs = CHR 0x5C # ds" "\<And>t. scan_char CHR 0x5C (ds @ t) = Some (codepoint_bytes (code c), t)"
          using scan_escaped [OF _ _ bs] by (auto simp: scalar_def)
        have "codepoint_bytes (code c) = [c]" using del by (simp add: codepoint_bytes_def) (rule code_inj, simp)
        then show ?thesis using parts ds printable by (intro esc [of "[c]" cs "code c" out1 "CHR 0x5C" ds]) simp_all
      next
        case False
        then have "bs = accept_bytes (code c) c" using True bs by (auto simp: escape_bytes_def accept_bytes_def split: if_splits)
        moreover obtain e es where "accept_bytes (code c) c = e # es" "e \<noteq> CHR 0x22" "\<And>t. scan_char e (es @ t) = Some ([c], t)"
          using scan_accepted [OF True] by blast
        ultimately show ?thesis using parts printable by (intro esc [of "[c]" cs "code c" out1 e es]) simp_all
      qed
    next
      case False
      then have ge: "128 \<le> code c" by simp
      from start_pending [OF code_less ge] out1(2) obtain rs where rs: "utf8_ranges (code c) = Some rs"
        and w: "waiting ?s" "pending ?s = rs" by (auto split: option.splits)
      then have "out = out1" using out by (auto simp: waiting_def)
      obtain bs r out' x where b: "cs = bs @ r" "escaped_from True (0, collect ?cp bs) r = Inr out'"
        "out1 = fst (escape_bytes True (collect ?cp bs) x) @ out'" "\<And>t. next_bytes rs (bs @ t) = Some (bs, t)"
        using escaped_continuation [OF w(1) out1(1)] unfolding w(2) by blast
      have v: "scalar (collect ?cp bs) \<and> 0x80 \<le> collect ?cp bs \<and> codepoint_bytes (collect ?cp bs) = c # bs"
        using character_value [OF rs _ refl, of bs] b(4) [of "[]"] unfolding lead_value [OF rs code_less] by simp
      obtain es nul where es: "escape_bytes True (collect ?cp bs) x = (es, nul)" by fastforce
      obtain ds where ds: "es = CHR 0x5C # ds" "\<And>t. scan_char CHR 0x5C (ds @ t) = Some (c # bs, t)"
        using scan_escaped [OF _ _ es] v by auto
      have "\<forall>y \<in> set es. code y < 127 \<and> 32 \<le> code y" using escape_bytes_cases [OF es] v by auto
      then show ?thesis using b(1-3) Cons es ds \<open>out = out1\<close>
        by (intro esc [of "c # bs" r "collect ?cp bs" out' "CHR 0x5C" ds]) simp_all
    qed
  qed
qed

lemma escape_scans:
  assumes "escape Strict a k = Inr key"
  shows "scans_key key k"
proof (cases a)
  case True
  then have "scan_string [] (key @ CHR 0x22 # rest) = Some (k, rest)" for rest
    using scan_ascii [of 0 k key "[]" rest] assms by (simp add: escape_strict)
  then show ?thesis by (simp add: scans_key_def scan_def skip_whitespace_def is_ws_def is_digit_def)
next
  case False
  then show ?thesis using assms by (simp add: scans_dumped escape_default)
qed

end
