(* ===== verification/Json_Serializer.thy ===== *)
theory Json_Serializer
  imports Json_Escape
begin

text \<open>
  The serializer of the JSON library (\<^verbatim>\<open>detail/output/serializer.hpp\<close>) with all its options: pretty
  printing with the buffer \<open>indent_string\<close>, and strings printed by \<open>Json_Escape\<close>.  \<open>Json_Dump\<close> is what
  remains of it for the call \<open>dump()\<close> that the server makes, which is shown here.
\<close>

section \<open>Values\<close>

text \<open>
  The options of a serializer.  Its state is the size of \<open>indent_string\<close>, which starts as 512 copies of the
  indentation character and grows by blanks.
\<close>

record options =
  pretty_print :: bool
  ensure_ascii :: bool
  indent_step :: "32 word"
  indent_char :: char
  on_error :: error_handler

abbreviation LF :: char where
  "LF \<equiv> CHR 0x0A"

text \<open>\<open>if (indent_string.size() < new_indent) indent_string.resize(indent_string.size() * 2, ' ')\<close>\<close>

definition grow_indent :: "32 word \<Rightarrow> (exn, nat, unit) prog" where
  "grow_indent new = modify_st (\<lambda>size. if size < unat new then size * 2 else size)"

text \<open>
  \<open>write_characters(indent_string.c_str(), n)\<close>: the terminating NUL of \<open>c_str()\<close> may be read too, nothing
  behind it.
\<close>

definition indentation :: "options \<Rightarrow> 32 word \<Rightarrow> (exn, nat, string) prog" where
  "indentation opt n = bnd (get_st (\<lambda>size. size)) (\<lambda>size.
     if size + 1 < unat n then throw (UB Heap_overread)
     else ret (take (unat n) (replicate 512 (indent_char opt) @ replicate (size - 512) CHR '' '' @ [NUL])))"

definition new_line :: "options \<Rightarrow> 32 word \<Rightarrow> (exn, nat, string) prog" where
  "new_line opt n = (if pretty_print opt then indentation opt n else ret [])"

definition when_pretty :: "options \<Rightarrow> string \<Rightarrow> string" where
  "when_pretty opt s = (if pretty_print opt then s else [])"

definition dump_string :: "options \<Rightarrow> string \<Rightarrow> (exn, nat, string) prog" where
  "dump_string opt s = bnd (lift_sum (escape (on_error opt) (ensure_ascii opt) s))
     (\<lambda>out. ret ([CHR 0x22] @ out @ [CHR 0x22]))"

text \<open>
  \<open>dump\<close>, with the loops over the elements and over the members, which print the last one without a comma.
\<close>

fun dump_val :: "options \<Rightarrow> 32 word \<Rightarrow> json \<Rightarrow> (exn, nat, string) prog"
  and dump_vals :: "options \<Rightarrow> 32 word \<Rightarrow> json list \<Rightarrow> (exn, nat, string) prog"
  and dump_keyed :: "options \<Rightarrow> 32 word \<Rightarrow> (string \<times> json) list \<Rightarrow> (exn, nat, string) prog" where
  "dump_val opt current (JObject kvs) =
     (if kvs = [] then ret ''{}''
      else if pretty_print opt then
        bnd (grow_indent (current + indent_step opt)) (\<lambda>_.
        bnd (dump_keyed opt (current + indent_step opt) kvs) (\<lambda>out.
        bnd (indentation opt current) (\<lambda>ind.
        ret (''{'' @ [LF] @ out @ [LF] @ ind @ ''}''))))
      else bnd (dump_keyed opt current kvs) (\<lambda>out. ret (''{'' @ out @ ''}'')))"
| "dump_val opt current (JArray vs) =
     (if vs = [] then ret ''[]''
      else if pretty_print opt then
        bnd (grow_indent (current + indent_step opt)) (\<lambda>_.
        bnd (dump_vals opt (current + indent_step opt) vs) (\<lambda>out.
        bnd (indentation opt current) (\<lambda>ind.
        ret (''['' @ [LF] @ out @ [LF] @ ind @ '']''))))
      else bnd (dump_vals opt current vs) (\<lambda>out. ret (''['' @ out @ '']'')))"
| "dump_val opt current (JString s) = dump_string opt s"
| "dump_val opt current (JBool b) = ret (if b then ''true'' else ''false'')"
| "dump_val opt current (JInteger w) = ret (dump_integer w)"
| "dump_val opt current (JUnsigned w) = ret (dump_unsigned w)"
| "dump_val opt current (JFloat neg m e) = throw Json_float_dump"
| "dump_val opt current JNull = ret ''null''"
| "dump_vals opt new [] = ret []"
| "dump_vals opt new (v # vs) =
     bnd (new_line opt new) (\<lambda>ind.
     bnd (dump_val opt new v) (\<lambda>out.
     if vs = [] then ret (ind @ out)
     else bnd (dump_vals opt new vs) (\<lambda>rest. ret (ind @ out @ '','' @ when_pretty opt [LF] @ rest))))"
| "dump_keyed opt new [] = ret []"
| "dump_keyed opt new ((k, v) # kvs) =
     bnd (new_line opt new) (\<lambda>ind.
     bnd (dump_string opt k) (\<lambda>key.
     bnd (dump_val opt new v) (\<lambda>out.
     if kvs = [] then ret (ind @ key @ '':'' @ when_pretty opt '' '' @ out)
     else bnd (dump_keyed opt new kvs) (\<lambda>rest.
       ret (ind @ key @ '':'' @ when_pretty opt '' '' @ out @ '','' @ when_pretty opt [LF] @ rest)))))"

text \<open>\<open>basic_json::dump(indent, indent_char, ensure_ascii, error_handler)\<close>\<close>

definition dump_options :: "int \<Rightarrow> char \<Rightarrow> bool \<Rightarrow> error_handler \<Rightarrow> options" where
  "dump_options indent ic ascii h = \<lparr>pretty_print = 0 \<le> indent, ensure_ascii = ascii,
     indent_step = (if 0 \<le> indent then word_of_int indent else 0), indent_char = ic, on_error = h\<rparr>"

definition json_dump :: "int \<Rightarrow> char \<Rightarrow> bool \<Rightarrow> error_handler \<Rightarrow> json \<Rightarrow> (exn + string) option" where
  "json_dump indent ic ascii h j = map_option fst (dump_val (dump_options indent ic ascii h) 0 j 512)"

section \<open>The call of the server\<close>

lemma plain_dump:
  assumes "\<not> pretty_print opt" and "\<not> ensure_ascii opt" and "on_error opt = Strict"
  shows "dump_val opt cur j n = Some (dump j, n)"
    and "dump_vals opt cur vs n = Some (dump_elements vs, n)"
    and "dump_keyed opt cur kvs n = Some (dump_members kvs, n)"
  using assms
  by (induction opt cur j and opt cur vs and opt cur kvs arbitrary: n and n and n
      rule: dump_val_dump_vals_dump_keyed.induct)
    (auto simp: bnd_def new_line_def dump_string_def when_pretty_def escape_default Let_def split: sum.split)

section \<open>The indentation buffer\<close>

text \<open>
  What holds of \<open>indent_string\<close> when a value is printed at an indentation, as long as one level is at most
  1024 characters: a single doubling then is always enough.
\<close>

definition fits :: "options \<Rightarrow> 32 word \<Rightarrow> nat \<Rightarrow> bool" where
  "fits opt cur n \<longleftrightarrow> 512 \<le> n \<and> (pretty_print opt \<longrightarrow>
     unat cur \<le> n \<and> unat (indent_step opt) \<le> 1024 \<and> (unat (indent_step opt) \<le> n \<or> cur = 0))"

lemma fits_mono: "fits opt cur n \<Longrightarrow> n \<le> m \<Longrightarrow> fits opt cur m"
  by (auto simp: fits_def)

lemma fits_grow:
  assumes "fits opt cur n" and "pretty_print opt" and "grow_indent (cur + indent_step opt) n = Some (r, m)"
  shows "fits opt (cur + indent_step opt) m" and "n \<le> m"
proof -
  have m: "m = (if n < unat (cur + indent_step opt) then n * 2 else n)" using assms(3) by (simp add: grow_indent_def)
  have sum: "unat (cur + indent_step opt) \<le> unat cur + unat (indent_step opt)"
    by (simp add: unat_word_ariths)
  show "n \<le> m" by (simp add: m)
  show "fits opt (cur + indent_step opt) m"
    using assms(1,2) sum by (auto simp: fits_def m)
qed

lemma indentation_fits:
  assumes "fits opt cur n" and "pretty_print opt"
  shows "indentation opt cur n = Some (Inr (take (unat cur) (replicate 512 (indent_char opt) @ replicate (n - 512) CHR '' '')), n)"
  using assms by (simp add: fits_def indentation_def bnd_def)

lemma new_line_fits:
  assumes "fits opt cur n"
  shows "new_line opt cur n = Some (Inr (if pretty_print opt
    then take (unat cur) (replicate 512 (indent_char opt) @ replicate (n - 512) CHR '' '') else []), n)"
  using assms by (simp add: new_line_def indentation_fits)

lemma bnd_new_line: "fits opt cur n \<Longrightarrow> bnd (new_line opt cur) f n = f (if pretty_print opt
    then take (unat cur) (replicate 512 (indent_char opt) @ replicate (n - 512) CHR '' '') else []) n"
  by (simp add: bnd_def new_line_fits)

lemma escape_throws: "escape h a s = Inl x \<Longrightarrow> x = Json_type_error 316"
  using escape_loop_ok [of a fresh_escaping h s] escape_end_ok [of a "projr (escape_loop h a s fresh_escaping)" h]
  by (auto simp: escape_def split: sum.splits)

lemma dump_string_size: "dump_string opt s n = Some (r, m) \<Longrightarrow> m = n \<and> r \<noteq> Inl (UB b)"
  using escape_throws [of "on_error opt" "ensure_ascii opt" s]
  by (auto simp: dump_string_def bnd_def split: sum.splits)

text \<open>
  The pretty branch of objects and of arrays: grow the buffer, print the body one level deeper, then close.
\<close>

lemma pretty_block:
  assumes run: "bnd (grow_indent (cur + indent_step opt)) (\<lambda>_. bnd body (\<lambda>out.
      bnd (indentation opt cur) (\<lambda>ind. ret (l @ [LF] @ out @ [LF] @ ind @ r)))) n = Some (res, n')"
    and pretty: "pretty_print opt" and fits: "fits opt cur n"
    and body: "\<And>m x m'. body m = Some (x, m') \<Longrightarrow> fits opt (cur + indent_step opt) m \<Longrightarrow> m \<le> m'"
  obtains m x m' where "body m = Some (x, m')" and "fits opt (cur + indent_step opt) m" and "n \<le> n'"
    and "res = (case x of Inl e \<Rightarrow> Inl e | Inr out \<Rightarrow> Inr (l @ [LF] @ out @ [LF]
      @ take (unat cur) (replicate 512 (indent_char opt) @ replicate (m' - 512) CHR '' '') @ r))"
proof -
  obtain m where g: "grow_indent (cur + indent_step opt) n = Some (Inr (), m)" by (simp add: grow_indent_def)
  note grown = fits_grow [OF fits pretty g]
  have "bnd body (\<lambda>out. bnd (indentation opt cur) (\<lambda>ind. ret (l @ [LF] @ out @ [LF] @ ind @ r))) m = Some (res, n')"
    using run g by (simp add: bnd_def)
  then show ?thesis
  proof (cases rule: bnd_SomeE)
    case (exn e)
    then show ?thesis using that [OF exn(1) grown(1)] body [OF exn(1) grown(1)] grown(2) by simp
  next
    case (val out m')
    then have le: "n \<le> m'" using body [OF val(1) grown(1)] grown(2) by simp
    from val(2) indentation_fits [OF fits_mono [OF fits le] pretty]
    show ?thesis using that [OF val(1) grown(1)] le by (auto simp: bnd_def)
  qed
qed

text \<open>Printing keeps the indentation buffer large enough, so that nothing is read behind it.\<close>

lemma dump_fits:
  shows "dump_val opt cur j n = Some (r, n') \<Longrightarrow> fits opt cur n \<Longrightarrow> n \<le> n' \<and> r \<noteq> Inl (UB b)"
    and "dump_vals opt cur vs m = Some (r', m') \<Longrightarrow> fits opt cur m \<Longrightarrow> m \<le> m' \<and> r' \<noteq> Inl (UB b)"
    and "dump_keyed opt cur kvs k = Some (r'', k') \<Longrightarrow> fits opt cur k \<Longrightarrow> k \<le> k' \<and> r'' \<noteq> Inl (UB b)"
proof (induction opt cur j and opt cur vs and opt cur kvs arbitrary: n r n' and m r' m' and k r'' k'
    rule: dump_val_dump_vals_dump_keyed.induct)
  case obj: (1 opt cur kvs)
  consider "kvs = []" | "kvs \<noteq> []" "\<not> pretty_print opt" | "kvs \<noteq> []" "pretty_print opt" by blast
  then show ?case
  proof cases
    case 1
    with obj show ?thesis by auto
  next
    case 2
    with obj(2) [OF 2] obj(3,4) show ?thesis by (auto elim!: bnd_SomeE)
  next
    case 3
    note ih = obj(1) [OF 3]
    have run: "bnd (grow_indent (cur + indent_step opt)) (\<lambda>_. bnd (dump_keyed opt (cur + indent_step opt) kvs)
        (\<lambda>out. bnd (indentation opt cur) (\<lambda>ind. ret (''{'' @ [LF] @ out @ [LF] @ ind @ ''}'')))) n = Some (r, n')"
      using obj(3) 3 by simp
    obtain m x m' where "dump_keyed opt (cur + indent_step opt) kvs m = Some (x, m')" "fits opt (cur + indent_step opt) m" "n \<le> n'"
      "r = (case x of Inl e \<Rightarrow> Inl e | Inr out \<Rightarrow> Inr (''{'' @ [LF] @ out @ [LF]
        @ take (unat cur) (replicate 512 (indent_char opt) @ replicate (m' - 512) CHR '' '') @ ''}''))"
      by (rule pretty_block [OF run 3(2) obj(4)]) (use ih in auto)
    then show ?thesis using ih by (auto split: sum.splits)
  qed
next
  case arr: (2 opt cur vs)
  consider "vs = []" | "vs \<noteq> []" "\<not> pretty_print opt" | "vs \<noteq> []" "pretty_print opt" by blast
  then show ?case
  proof cases
    case 1
    with arr show ?thesis by auto
  next
    case 2
    with arr(2) [OF 2] arr(3,4) show ?thesis by (auto elim!: bnd_SomeE)
  next
    case 3
    note ih = arr(1) [OF 3]
    have run: "bnd (grow_indent (cur + indent_step opt)) (\<lambda>_. bnd (dump_vals opt (cur + indent_step opt) vs)
        (\<lambda>out. bnd (indentation opt cur) (\<lambda>ind. ret (''['' @ [LF] @ out @ [LF] @ ind @ '']'')))) n = Some (r, n')"
      using arr(3) 3 by simp
    obtain m x m' where "dump_vals opt (cur + indent_step opt) vs m = Some (x, m')" "fits opt (cur + indent_step opt) m" "n \<le> n'"
      "r = (case x of Inl e \<Rightarrow> Inl e | Inr out \<Rightarrow> Inr (''['' @ [LF] @ out @ [LF]
        @ take (unat cur) (replicate 512 (indent_char opt) @ replicate (m' - 512) CHR '' '') @ '']''))"
      by (rule pretty_block [OF run 3(2) arr(4)]) (use ih in auto)
    then show ?thesis using ih by (auto split: sum.splits)
  qed
next
  case (3 opt cur x)
  then show ?case using dump_string_size by fastforce
next
  case (10 opt new v vs)
  note line = bnd_new_line [OF 10(4)]
  show ?case using 10(3) unfolding dump_vals.simps line
  proof (cases rule: bnd_SomeE)
    case (exn e)
    then show ?thesis using 10(1) [OF exn(1) 10(4)] by simp
  next
    case (val out m1)
    then have le: "m \<le> m1" using 10(1) [OF val(1) 10(4)] by simp
    with val(2) 10(2) [OF _ _ fits_mono [OF 10(4) le]] show ?thesis
      by (cases "vs = []") (auto elim!: bnd_SomeE dest: order_trans [OF le])
  qed
next
  case (12 opt new x v kvs)
  note line = bnd_new_line [OF 12(4)]
  show ?case using 12(3) unfolding dump_keyed.simps line
  proof (cases rule: bnd_SomeE)
    case (exn e)
    then show ?thesis using dump_string_size by fastforce
  next
    case (val q k0)
    have k0: "k0 = k" using dump_string_size val(1) by blast
    from val(2) show ?thesis
    proof (cases rule: bnd_SomeE)
      case (exn e)
      then show ?thesis using 12(1) [OF _ 12(4)] k0 by simp
    next
      case (val out k1)
      then have le: "k \<le> k1" using 12(1) [OF _ 12(4)] k0 by simp
      with val(2) 12(2) [OF _ _ fits_mono [OF 12(4) le]] show ?thesis
        by (cases "kvs = []") (auto elim!: bnd_SomeE dest: order_trans [OF le])
    qed
  qed
qed (simp_all add: ret_def throw_def)

section \<open>Reading back\<close>

lemma reads_quoted: "scans_key key k \<Longrightarrow> reads_value ([CHR 0x22] @ key @ [CHR 0x22]) (JString k)"
  by (rule reads_valueI [where tok = "Value_string k"]) (simp_all add: scans_key_def parse_token value_start_def)

lemma new_line_ws:
  assumes "new_line opt cur n = Some (Inr ind, n')" and "fits opt cur n" and "is_ws (indent_char opt)"
  shows "n' = n" and "\<forall>c \<in> set ind. is_ws c"
  using assms(1,3) unfolding new_line_fits [OF assms(2)] by (auto simp: is_ws_def dest!: in_set_takeD split: if_splits)

lemma dump_string_Inr:
  assumes "dump_string opt k n = Some (Inr s, n')" and "on_error opt = Strict"
  obtains key where "s = [CHR 0x22] @ key @ [CHR 0x22]" and "scans_key key k" and "n' = n"
  using assms escape_scans by (auto simp: dump_string_def bnd_def split: sum.splits)

lemma LF_ws [simp]: "is_ws LF" "is_ws CHR '' ''"
  by (simp_all add: is_ws_def)

lemma pretty_reads:
  assumes "on_error opt = Strict" and "is_ws (indent_char opt)"
  shows "dump_val opt cur j n = Some (Inr s, n') \<Longrightarrow> fits opt cur n \<Longrightarrow> json_wf j \<Longrightarrow> reads_value s (canon j)"
    and "dump_vals opt cur vs m = Some (Inr s', m') \<Longrightarrow> fits opt cur m \<Longrightarrow> json_wf_elements vs \<Longrightarrow> vs \<noteq> []
      \<Longrightarrow> \<forall>c \<in> set w. is_ws c \<Longrightarrow> reads_elements (s' @ w) (canon_elements vs)"
    and "dump_keyed opt cur kvs k = Some (Inr s'', k') \<Longrightarrow> fits opt cur k \<Longrightarrow> json_wf_members kvs \<Longrightarrow> kvs \<noteq> []
      \<Longrightarrow> \<forall>c \<in> set w. is_ws c \<Longrightarrow> reads_members (s'' @ w) (canon_members kvs)"
  using assms
proof (induction opt cur j and opt cur vs and opt cur kvs arbitrary: n s n' and m s' m' w and k s'' k' w
    rule: dump_val_dump_vals_dump_keyed.induct)
  case (1 opt cur kvs)
  note obj = 1
  have sorted: "keys_sorted (canon_members kvs)" using obj by (simp add: canon_members_sorted)
  consider "kvs = []" | "kvs \<noteq> []" "\<not> pretty_print opt" | "kvs \<noteq> []" "pretty_print opt" by blast
  then show ?case
  proof cases
    case 1
    have "reads_value ''{}'' (JObject [])" by (auto simp: reads_value_def value_start_def parse_token)
    with 1 obj show ?thesis by simp
  next
    case 2
    then obtain n1 out where out: "dump_keyed opt cur kvs n = Some (Inr out, n1)" "s = ''{'' @ out @ ''}''"
      using obj(3) by (auto simp: bnd_def split: option.splits sum.splits)
    then have "reads_members (out @ []) (canon_members kvs)" using obj(2) [OF 2 out(1), where w = "[]"] obj(4-7) 2 by simp
    with sorted show ?thesis unfolding out(2) by (simp only: append_Nil2 reads_object canon.simps)
  next
    case 3
    have run: "bnd (grow_indent (cur + indent_step opt)) (\<lambda>_. bnd (dump_keyed opt (cur + indent_step opt) kvs)
        (\<lambda>out. bnd (indentation opt cur) (\<lambda>ind. ret (''{'' @ [LF] @ out @ [LF] @ ind @ ''}'')))) n = Some (Inr s, n')"
      using obj(3) 3 by simp
    obtain m y m' where y: "dump_keyed opt (cur + indent_step opt) kvs m = Some (y, m')" "fits opt (cur + indent_step opt) m"
      "Inr s = (case y of Inl e \<Rightarrow> Inl e | Inr out \<Rightarrow> Inr (''{'' @ [LF] @ out @ [LF]
        @ take (unat cur) (replicate 512 (indent_char opt) @ replicate (m' - 512) CHR '' '') @ ''}''))"
      by (rule pretty_block [OF run 3(2) obj(4)]) (use dump_fits(3) in blast)+
    then obtain out where out: "y = Inr out" by (cases y) auto
    let ?ind = "take (unat cur) (replicate 512 (indent_char opt) @ replicate (m' - 512) CHR '' '')"
    have "\<forall>c \<in> set (LF # ?ind). is_ws c" using obj(7) by (auto dest!: in_set_takeD)
    then have "reads_members (out @ LF # ?ind) (canon_members kvs)"
      using obj(1) [OF 3 y(1) [unfolded out] y(2)] obj(5-7) 3 by simp
    then have "reads_members ([LF] @ out @ LF # ?ind) (canon_members kvs)" by (rule reads_members_ws) simp
    from reads_object [OF this sorted] show ?thesis using y(3) out by simp
  qed
next
  case (2 opt cur vs)
  note arr = 2
  consider "vs = []" | "vs \<noteq> []" "\<not> pretty_print opt" | "vs \<noteq> []" "pretty_print opt" by blast
  then show ?case
  proof cases
    case 1
    have "reads_value ''[]'' (JArray [])" by (auto simp: reads_value_def value_start_def parse_token)
    with 1 arr show ?thesis by simp
  next
    case 2
    then obtain n1 out where out: "dump_vals opt cur vs n = Some (Inr out, n1)" "s = ''['' @ out @ '']''"
      using arr(3) by (auto simp: bnd_def split: option.splits sum.splits)
    then have "reads_elements (out @ []) (canon_elements vs)" using arr(2) [OF 2 out(1), where w = "[]"] arr(4-7) 2 by simp
    then show ?thesis unfolding out(2) by (simp only: append_Nil2 reads_array canon.simps)
  next
    case 3
    have run: "bnd (grow_indent (cur + indent_step opt)) (\<lambda>_. bnd (dump_vals opt (cur + indent_step opt) vs)
        (\<lambda>out. bnd (indentation opt cur) (\<lambda>ind. ret (''['' @ [LF] @ out @ [LF] @ ind @ '']'')))) n = Some (Inr s, n')"
      using arr(3) 3 by simp
    obtain m y m' where y: "dump_vals opt (cur + indent_step opt) vs m = Some (y, m')" "fits opt (cur + indent_step opt) m"
      "Inr s = (case y of Inl e \<Rightarrow> Inl e | Inr out \<Rightarrow> Inr (''['' @ [LF] @ out @ [LF]
        @ take (unat cur) (replicate 512 (indent_char opt) @ replicate (m' - 512) CHR '' '') @ '']''))"
      by (rule pretty_block [OF run 3(2) arr(4)]) (use dump_fits(2) in blast)+
    then obtain out where out: "y = Inr out" by (cases y) auto
    let ?ind = "take (unat cur) (replicate 512 (indent_char opt) @ replicate (m' - 512) CHR '' '')"
    have "\<forall>c \<in> set (LF # ?ind). is_ws c" using arr(7) by (auto dest!: in_set_takeD)
    then have "reads_elements (out @ LF # ?ind) (canon_elements vs)"
      using arr(1) [OF 3 y(1) [unfolded out] y(2)] arr(5-7) 3 by simp
    then have "reads_elements ([LF] @ out @ LF # ?ind) (canon_elements vs)" by (rule reads_elements_ws) simp
    from reads_array [OF this] show ?thesis using y(3) out by simp
  qed
next
  case (3 opt cur x)
  then obtain key where "s = [CHR 0x22] @ key @ [CHR 0x22]" "scans_key key x" by (auto elim: dump_string_Inr)
  then show ?case by (simp only: reads_quoted canon.simps)
next
  case (4 opt cur b)
  then show ?case using reads_true reads_false by (cases b) simp_all
next
  case (5 opt cur w)
  then show ?case using reads_integer [of w] by (simp del: canon.simps(1))
next
  case (6 opt cur w)
  then show ?case using reads_unsigned [of w] by simp
next
  case (8 opt cur)
  then show ?case using reads_null by simp
next
  case (10 opt new v vs)
  then obtain ind m0 m2 out where ind: "new_line opt new m = Some (Inr ind, m0)" and out0: "dump_val opt new v m0 = Some (Inr out, m2)"
    by (auto elim!: bnd_SomeE split: if_splits)
  note line = new_line_ws [OF ind 10(4,9)]
  have out: "dump_val opt new v m = Some (Inr out, m2)" using out0 line(1) by simp
  have v: "reads_value out (canon v)" using 10(1) [OF out 10(4)] 10(5,8,9) by simp
  show ?case
  proof (cases "vs = []")
    case True
    then have "s' = ind @ out" using 10(3) ind out line(1) by (simp add: bnd_def)
    then show ?thesis using reads_elements_ws [OF reads_last_element [OF v 10(7)] line(2)] True by simp
  next
    case False
    then obtain m3 rest where rest: "dump_vals opt new vs m2 = Some (Inr rest, m3)"
      "s' = ind @ out @ '','' @ when_pretty opt [LF] @ rest"
      using 10(3) ind out line(1) by (auto simp: bnd_InrI elim!: bnd_SomeE)
    have "fits opt new m2" using fits_mono [OF 10(4)] dump_fits(1) [OF out 10(4)] by simp
    then have "reads_elements (rest @ w) (canon_elements vs)" using 10(2) [OF False rest(1)] 10(5-9) False by simp
    then have "reads_elements (when_pretty opt [LF] @ rest @ w) (canon_elements vs)"
      by (rule reads_elements_ws) (simp add: when_pretty_def)
    from reads_elements_ws [OF reads_more_elements [OF v this] line(2)] show ?thesis unfolding rest(2) by simp
  qed
next
  case (12 opt new x v kvs)
  then obtain ind k0 k1 k2 q out where ind: "new_line opt new k = Some (Inr ind, k0)"
    and key0: "dump_string opt x k0 = Some (Inr q, k1)" and out0: "dump_val opt new v k1 = Some (Inr out, k2)"
    by (auto elim!: bnd_SomeE split: if_splits)
  note line = new_line_ws [OF ind 12(4,9)]
  have key: "dump_string opt x k = Some (Inr q, k)" using key0 line(1) dump_string_size [OF key0] by simp
  have out: "dump_val opt new v k = Some (Inr out, k2)" using out0 line(1) dump_string_size [OF key0] by simp
  have v: "reads_value (when_pretty opt '' '' @ out) (canon v)"
    using 12(1) [OF out 12(4)] 12(5,8,9) by (intro reads_value_ws) (simp_all add: when_pretty_def)
  obtain esc where q: "q = [CHR 0x22] @ esc @ [CHR 0x22]" "scans_key esc x" using dump_string_Inr [OF key 12(8)] .
  show ?case
  proof (cases "kvs = []")
    case True
    then have "s'' = ind @ q @ '':'' @ when_pretty opt '' '' @ out" using 12(3) ind key out line(1) by (simp add: bnd_def)
    then show ?thesis using reads_members_ws [OF reads_last_member [OF q(2) v 12(7)] line(2)] True by (simp add: q(1))
  next
    case False
    then obtain k3 rest where rest: "dump_keyed opt new kvs k2 = Some (Inr rest, k3)"
      "s'' = ind @ q @ '':'' @ when_pretty opt '' '' @ out @ '','' @ when_pretty opt [LF] @ rest"
      using 12(3) ind key out line(1) by (auto simp: bnd_InrI elim!: bnd_SomeE)
    have "fits opt new k2" using fits_mono [OF 12(4)] dump_fits(1) [OF out 12(4)] by simp
    then have "reads_members (rest @ w) (canon_members kvs)" using 12(2) [OF False rest(1)] 12(5-9) False by simp
    then have "reads_members (when_pretty opt [LF] @ rest @ w) (canon_members kvs)"
      by (rule reads_members_ws) (simp add: when_pretty_def)
    from reads_members_ws [OF reads_more_members [OF q(2) v this] line(2)] show ?thesis unfolding rest(2) q(1) by simp
  qed
qed simp_all

text \<open>The text starts with an ASCII character.\<close>

lemma dump_val_start:
  assumes "dump_val opt cur j n = Some (Inr s, n')"
  shows "s \<noteq> []" and "skip_bom s = Some s"
proof -
  have dec: "code (hd (dec_nat n)) < 0x80" "dec_nat n \<noteq> []" for n
    using dec_nat_digits [of "hd (dec_nat n)" n] by (simp_all add: is_digit_def)
  have start: "s \<noteq> [] \<and> code (hd s) < 0x80"
    using assms by (cases j) (auto simp: dump_integer_dec dump_unsigned_dec dec_int_def dec hd_append dump_string_def
        split: sum.splits if_splits elim!: bnd_SomeE)
  then show "s \<noteq> []" by simp
  show "skip_bom s = Some s" using start by (auto simp: skip_bom_def split: list.splits)
qed

lemma dump_val_returns:
  "returns (dump_val opt cur j)" "returns (dump_vals opt cur vs)" "returns (dump_keyed opt cur kvs)"
  by (induction opt cur j and opt cur vs and opt cur kvs rule: dump_val_dump_vals_dump_keyed.induct)
    (auto simp: new_line_def indentation_def grow_indent_def dump_string_def intro!: returns_rules;
      simp add: returns_def)+

lemma step_value: "0 \<le> indent \<Longrightarrow> indent < 2 ^ 31 \<Longrightarrow> unat (word_of_int indent :: 32 word) = nat indent"
  by (simp add: unsigned_of_int take_bit_int_eq_self)

lemma fits_start: "indent \<le> 1024 \<Longrightarrow> fits (dump_options indent ic a h) 0 512"
  using step_value [of indent] by (auto simp: fits_def dump_options_def)

section \<open>The properties\<close>

text \<open>
  C32: The call the server makes, \<open>dump()\<close> with its default arguments, prints what \<open>Json_Dump\<close> says: neither
  the indentation buffer nor the buffer for escaped strings shows.
\<close>

theorem server_dump: "json_dump (- 1) ic False Strict j = Some (dump j)"
  by (simp add: json_dump_def dump_options_def plain_dump)

text \<open>
  C31: With any options of the strict handler -- indented by up to 1024 blanks or tabs a level or not at all,
  escaped to ASCII or not -- the printed text is read back as the value.
\<close>

theorem pretty_roundtrip:
  assumes "json_dump indent ic ascii Strict j = Some (Inr s)"
    and "indent \<le> 1024" and "is_ws ic" and "json_wf j"
  shows "json_parse s = Inr (canon j)"
proof -
  let ?opt = "dump_options indent ic ascii Strict"
  obtain n' where out: "dump_val ?opt 0 j 512 = Some (Inr s, n')" using assms(1) by (auto simp: json_dump_def)
  have opt: "on_error ?opt = Strict" "is_ws (indent_char ?opt)" using assms(3) by (simp_all add: dump_options_def)
  have "reads_value s (canon j)" by (rule pretty_reads(1) [OF opt out fits_start [OF assms(2)] assms(4)])
  then obtain tok r where "scan (s @ []) = (tok, r)"
    "\<And>states. parse_loop (At_token tok) states r = parse_loop (After_value (canon j)) states []"
    using reads_value_delim [OF _ delimited_simps(1)] by metis
  then show ?thesis using dump_val_start [OF out] by (simp add: json_parse_def)
qed

lemma pretty_roundtrip_witness:
  "json_parse ([CHR ''['', LF, CHR 0x09] @ dump_integer 7 @ [LF, CHR '']'']) = Inr (canon (JArray [JInteger 7]))"
proof (rule pretty_roundtrip)
  show "json_dump 1 CHR 0x09 True Strict (JArray [JInteger 7]) = Some (Inr ([CHR ''['', LF, CHR 0x09] @ dump_integer 7 @ [LF, CHR '']'']))"
    by (simp add: json_dump_def dump_options_def grow_indent_def new_line_def indentation_def bnd_def)
qed (simp_all add: is_ws_def)

text \<open>
  C33: The indentation buffer is doubled once and not to the size needed.  With up to 1024 characters a level
  printing always returns and nothing is read behind the buffer, however deep the value; from 1026 characters a
  level on, printing any non-empty array or object reads behind it.
\<close>

theorem indent_overread:
  "(indent \<le> 1024 \<longrightarrow> (\<exists>r. json_dump indent ic ascii h j = Some r \<and> (\<forall>b. r \<noteq> Inl (UB b))))
   \<and> (1026 \<le> indent \<and> indent < 2 ^ 31 \<longrightarrow> json_dump indent ic ascii h (JArray (v # vs)) = Some (Inl (UB Heap_overread))
      \<and> json_dump indent ic ascii h (JObject ((k, w) # kvs)) = Some (Inl (UB Heap_overread)))"
proof (intro conjI impI; (elim conjE)?)
  assume le: "indent \<le> 1024"
  obtain r n' where run: "dump_val (dump_options indent ic ascii h) 0 j 512 = Some (r, n')"
    using dump_val_returns(1) [of "dump_options indent ic ascii h" 0 j] unfolding returns_def by fastforce
  from dump_fits(1) [OF run fits_start [OF le]] show "\<exists>r. json_dump indent ic ascii h j = Some r \<and> (\<forall>b. r \<noteq> Inl (UB b))"
    by (simp add: json_dump_def run)
next
  assume "1026 \<le> indent" "indent < 2 ^ 31"
  then have step: "unat (word_of_int indent :: 32 word) = nat indent" "0 \<le> indent" "1025 < nat indent" "512 < nat indent"
    using step_value [of indent] by simp_all
  show "json_dump indent ic ascii h (JArray (v # vs)) = Some (Inl (UB Heap_overread))"
    using step by (simp add: json_dump_def dump_options_def grow_indent_def new_line_def indentation_def bnd_def)
  show "json_dump indent ic ascii h (JObject ((k, w) # kvs)) = Some (Inl (UB Heap_overread))"
    using step by (simp add: json_dump_def dump_options_def grow_indent_def new_line_def indentation_def bnd_def)
qed

lemma indent_overread_witness:
  "json_dump 4 CHR '' '' False Strict JNull \<noteq> None
   \<and> json_dump 2000 CHR '' '' False Strict (JArray [JNull]) = Some (Inl (UB Heap_overread))"
  using indent_overread [of 4 "CHR '' ''" False Strict JNull] indent_overread [of 2000 "CHR '' ''" False Strict JNull JNull "[]"] by auto

text \<open>In between, at 1025 characters a level, the NUL that ends the buffer is printed.\<close>

lemma indent_nul:
  "\<exists>out. json_dump 1025 CHR '' '' False Strict (JArray [JNull]) = Some (Inr out) \<and> NUL \<in> set out"
  by (simp add: json_dump_def dump_options_def grow_indent_def new_line_def indentation_def bnd_def)

end
