(* ===== verification/NetPackets.thy ===== *)
theory NetPackets
  imports Scenario Json_Roundtrip
begin

text \<open>
  \<^verbatim>\<open>netpacketgenerator.cpp\<close>: every reply is a JSON object printed into the fixed array of a
  \<open>NetPacket\<close> by \<^verbatim>\<open>strcpy\<close>.  A text of \<open>BUF_SIZE\<close> bytes or more overruns the array, which the
  model reports as \<open>Buffer_overflow\<close>.  A packet is sent with one call on either transport.
\<close>

section \<open>Building a packet\<close>

definition strcpy_data :: "string \<Rightarrow> exn + string" where
  "strcpy_data s = (if length (c_str s) < BUF_SIZE then Inr (c_str s) else Inl (UB Buffer_overflow))"

text \<open>The common tail of all generators: print, copy, fill in the header.\<close>

definition make_packet :: "Purpose \<Rightarrow> json \<Rightarrow> exn + NetPacket" where
  "make_packet p jsonMsg = (case dump jsonMsg of
     Inl e \<Rightarrow> Inl e
   | Inr strMsg \<Rightarrow> (case strcpy_data strMsg of
       Inl e \<Rightarrow> Inl e
     | Inr d \<Rightarrow> Inr \<lparr>packetHeader = \<lparr>purpose = word_of_nat (purpose_int p),
         data_size = word_of_nat (length strMsg)\<rparr>, data = d\<rparr>))"

definition register_P :: "bool \<Rightarrow> exn + NetPacket" where
  "register_P success = make_packet Register
     (json_object [(''success'', JString (if success then ''true'' else ''false''))])"

definition login_P :: "bool \<Rightarrow> exn + NetPacket" where
  "login_P success = make_packet Login
     (json_object [(''success'', JString (if success then ''true'' else ''false''))])"

definition sendVideoId_P :: "string \<Rightarrow> exn + NetPacket" where
  "sendVideoId_P videoId = make_packet SendFile (json_object [(''videoId'', JString videoId)])"

definition sendComments_P :: "json \<Rightarrow> exn + NetPacket" where
  "sendComments_P comments = make_packet GetInfo (json_object
     [(''infotype'', enum_json (infotype_int InfoType.Comment)), (''comments'', comments)])"

definition sendVodList_P :: "json \<Rightarrow> exn + NetPacket" where
  "sendVodList_P vodList = make_packet GetInfo (json_object
     [(''infotype'', enum_json (infotype_int InfoType.VodList)), (''vodList'', vodList)])"

definition sendLikeInfo_P :: "json \<Rightarrow> exn + NetPacket" where
  "sendLikeInfo_P likeInfo = make_packet GetInfo (json_object
     [(''infotype'', enum_json (infotype_int InfoType.VideoLike)), (''likeInfo'', likeInfo)])"

definition sendFollowInfo_P :: "json \<Rightarrow> exn + NetPacket" where
  "sendFollowInfo_P followInfo = make_packet GetInfo (json_object
     [(''infotype'', enum_json (infotype_int InfoType.Follow)), (''followInfo'', followInfo)])"

definition sendFansInfo_P :: "json \<Rightarrow> exn + NetPacket" where
  "sendFansInfo_P fansInfo = make_packet GetInfo (json_object
     [(''infotype'', enum_json (infotype_int InfoType.Fans)), (''fansInfo'', fansInfo)])"

definition sendLiveInfo_P :: "json \<Rightarrow> exn + NetPacket" where
  "sendLiveInfo_P liveInfo = make_packet ModifyInfo (json_object
     [(''infotype'', enum_json (infotype_int InfoType.LiveList)), (''liveInfo'', liveInfo)])"

definition sendLiveList_P :: "json \<Rightarrow> exn + NetPacket" where
  "sendLiveList_P liveList = make_packet GetInfo (json_object
     [(''infotype'', enum_json (infotype_int InfoType.LiveList)), (''liveList'', liveList)])"

definition sendNickNameInfo_P :: "json \<Rightarrow> exn + NetPacket" where
  "sendNickNameInfo_P nickNameInfo = make_packet GetInfo (json_object
     [(''infotype'', enum_json (infotype_int InfoType.NickName)), (''nickNameInfo'', nickNameInfo)])"

definition sendUserVideoInfo_P :: "string \<Rightarrow> json \<Rightarrow> exn + NetPacket" where
  "sendUserVideoInfo_P uid userVideoList = make_packet GetInfo (json_object
     [(''infotype'', enum_json (infotype_int InfoType.UserVideo)), (''userId'', JString uid),
      (''userVideoList'', userVideoList)])"

definition sendUserVideoLikeInfo_P :: "string \<Rightarrow> json \<Rightarrow> exn + NetPacket" where
  "sendUserVideoLikeInfo_P uid userVideoLikeList = make_packet GetInfo (json_object
     [(''infotype'', enum_json (infotype_int InfoType.UserVideoLike)), (''userId'', JString uid),
      (''userVideoLikeList'', userVideoLikeList)])"

definition sendMessageInfo_P :: "json \<Rightarrow> exn + NetPacket" where
  "sendMessageInfo_P messages = make_packet GetInfo (json_object
     [(''infotype'', enum_json (infotype_int InfoType.Message)), (''messages'', messages)])"

definition sendVideoPushInfo_P :: "json \<Rightarrow> exn + NetPacket" where
  "sendVideoPushInfo_P videos = make_packet GetInfo (json_object
     [(''infotype'', enum_json (infotype_int InfoType.VideoPush)), (''videos'', videos)])"

section \<open>Sending a packet\<close>

type_synonym 'w sender = "NetPacket \<Rightarrow> ('w, unit) srv"

text \<open>
  The two calls that send a \<open>NetPacket\<close>; the result of \<^verbatim>\<open>my_send\<close> is ignored by every caller,
  \<^verbatim>\<open>boost::asio::write\<close> throws on an error.
\<close>

definition send_fd :: "'w ext \<Rightarrow> int \<Rightarrow> 'w sender" where
  "send_fd E fd p = bnd (my_send E fd (packet_bytes p)) (\<lambda>_. ret ())"

definition send_sock :: "'w ext \<Rightarrow> nat \<Rightarrow> 'w sender" where
  "send_sock E k p = bnd (boost_write E k (packet_bytes p)) (\<lambda>_. ret ())"

text \<open>Generate, then send.\<close>

definition reply :: "'w sender \<Rightarrow> exn + NetPacket \<Rightarrow> ('w, unit) srv" where
  "reply send p = bnd (lift_sum p) send"

section \<open>What is on the wire\<close>

lemma make_packet_Inr:
  assumes "make_packet p j = Inr np"
  obtains s where "dump j = Inr s" and "length s < BUF_SIZE" and "NUL \<notin> set s"
    and "np = \<lparr>packetHeader = \<lparr>purpose = word_of_nat (purpose_int p), data_size = word_of_nat (length s)\<rparr>,
      data = s\<rparr>"
  using assms dump_no_nul [of j]
  by (auto simp: make_packet_def strcpy_data_def split: sum.splits if_splits)

lemma make_packet_fits:
  "dump j = Inr s \<Longrightarrow> length s < BUF_SIZE \<Longrightarrow> make_packet p j =
    Inr \<lparr>packetHeader = \<lparr>purpose = word_of_nat (purpose_int p), data_size = word_of_nat (length s)\<rparr>, data = s\<rparr>"
  using dump_no_nul [of j s] by (simp add: make_packet_def strcpy_data_def)

lemma make_packet_overflow:
  "dump j = Inr s \<Longrightarrow> \<not> length s < BUF_SIZE \<Longrightarrow> make_packet p j = Inl (UB Buffer_overflow)"
  using dump_no_nul [of j s] by (simp add: make_packet_def strcpy_data_def)

lemma BUF_SIZE_word: "n < BUF_SIZE \<Longrightarrow> unat (word_of_nat n :: 32 word) = n"
  by (simp add: BUF_SIZE_def unsigned_of_nat take_bit_nat_eq_self)

lemma packet_bytes_make:
  assumes "make_packet p j = Inr np" and "dump j = Inr s"
  shows "packet_bytes np = header_bytes (packetHeader np) @ s \<and> unat (data_size (packetHeader np)) = length s"
  using assms(1)
  by (rule make_packet_Inr) (use assms(2) in \<open>simp add: packet_bytes_def BUF_SIZE_word\<close>)

section \<open>Properties\<close>

text \<open>
  C5: A reply that is built is decoded by its receiver: the first eight bytes give back the
  purpose and the number of bytes that follow, exactly that many follow, they fit the array, and
  parsing them gives the JSON value that was to be sent, up to the type of its integers: one that is
  not negative is read as unsigned.
\<close>

theorem packet_wire_roundtrip:
  assumes "make_packet p j = Inr np" and "json_wf j"
  shows "let bs = packet_bytes np; h = header_of_bytes bs in
      purpose_of (purpose h) = Some p
    \<and> length bs = header_size + unat (data_size h) \<and> unat (data_size h) < BUF_SIZE
    \<and> json_parse (drop header_size bs) = Inr (canon j)"
proof -
  obtain s where s: "dump j = Inr s" "length s < BUF_SIZE"
    "np = \<lparr>packetHeader = \<lparr>purpose = word_of_nat (purpose_int p), data_size = word_of_nat (length s)\<rparr>, data = s\<rparr>"
    using assms(1) by (rule make_packet_Inr)
  have w: "packet_bytes np = header_bytes (packetHeader np) @ s" "unat (data_size (packetHeader np)) = length s"
    using packet_bytes_make [OF assms(1) s(1)] by simp_all
  have "json_parse s = Inr (canon j)" using parse_dump [OF s(1) assms(2), of 0] by simp
  with w s(2,3) show ?thesis by (simp add: Let_def)
qed

theorem packet_wire_roundtrip_witness:
  "\<exists>np. login_P True = Inr np
    \<and> json_parse (drop header_size (packet_bytes np)) = Inr (JObject [(''success'', JString ''true'')])"
proof -
  have "\<exists>np. login_P True = Inr np"
    by (simp add: login_P_def make_packet_def json_object_def strcpy_data_def BUF_SIZE_def dump_eval)
  then obtain np where np: "login_P True = Inr np" by blast
  then have "make_packet Login (JObject [(''success'', JString ''true'')]) = Inr np"
    by (simp add: login_P_def json_object_def)
  from packet_wire_roundtrip [OF this] np show ?thesis by (simp add: Let_def)
qed

end
