(* ===== verification/DbBroker.thy ===== *)
theory DbBroker
  imports Scenario
begin

text \<open>
  \<^verbatim>\<open>dbbroker.cpp\<close>: the schema commands sent at start-up, and the pieces of SQL text shared by the
  handlers.  The two query functions are in \<open>Runtime\<close>.  The theory also holds the frame rules:
  calls to the outside change only the outside world and the record of calls.
\<close>

section \<open>SQL text\<close>

text \<open>A value between single quotes, as the handlers paste it into a command; nothing is escaped.\<close>

definition quoted :: "string \<Rightarrow> string" where
  "quoted s = [CHR 0x27] @ s @ [CHR 0x27]"

section \<open>initDataBase\<close>

definition schema_commands :: "string list" where
  "schema_commands =
    [''create table Video(id varchar(30), publisherId varchar(30), videoSuffix varchar(20), profile varchar(500), previewSuffix varchar(20), time datetime)'',
     ''create table User(id varchar(30), pw varchar(30), nickName varchar(30), pictureSuffix varchar(20))'',
     ''create table Message(sendId varchar(30), receiveId varchar(30), messageType int, message varchar(500), time datetime)'',
     ''create table Comment(id varchar(30), replyCommentId varchar(30), publisherId varchar(30), videoId varchar(30), content varchar(500), time datetime)'',
     ''create table VideoLike(videoId varchar(30), userId varchar(30))'',
     ''create table CommentLike(commentId varchar(30), userId varchar(30))'',
     ''create table Follow(userId varchar(30), followerId varchar(30))'',
     ''create table VideoPush(userId varchar(30), videoId varchar(30))'']"

text \<open>The result of each command is ignored: a table that exists already does not stop the rest.\<close>

definition initDataBase :: "'w ext \<Rightarrow> ('w, unit) srv" where
  "initDataBase E = for_each schema_commands (\<lambda>command. bnd (query_execute E command) (\<lambda>_. ret ()))"

section \<open>Frames\<close>

text \<open>A part of the state that neither the outside world nor the record of calls is part of.\<close>

definition inner :: "('w server \<Rightarrow> 'p) \<Rightarrow> bool" where
  "inner f \<longleftrightarrow> (\<forall>s w cs. f (s\<lparr>world := w, calls := cs\<rparr>) = f s)"

definition unchanged :: "('s \<Rightarrow> 'p) \<Rightarrow> 's \<Rightarrow> 's \<Rightarrow> bool" where
  "unchanged f s s' \<longleftrightarrow> f s' = f s"

interpretation part: frame "unchanged f" for f :: "'s \<Rightarrow> 'p"
  by unfold_locales (simp_all add: unchanged_def)

lemma innerD: "inner f \<Longrightarrow> f (s\<lparr>world := w, calls := cs\<rparr>) = f s"
  by (simp add: inner_def)

lemma inner_world: "inner f \<Longrightarrow> f (s\<lparr>world := w\<rparr>) = f s"
  using innerD [where f = f and s = s and w = w and cs = "calls s"] by simp

lemma inner_log: "inner f \<Longrightarrow> f (log_call c (s\<lparr>world := w\<rparr>)) = f s"
  by (simp add: log_call_def inner_def)

lemma keeps_outside:
  assumes "inner f"
  shows "keeps (unchanged f) (query_execute E c)" "keeps (unchanged f) (query_store E c)"
    "keeps (unchanged f) (boost_read E k n)" "keeps (unchanged f) (boost_write E k bs)"
    "keeps (unchanged f) (write_file E p bs)" "keeps (unchanged f) (remove_file E p)"
    "keeps (unchanged f) (close_fd E fd)" "keeps (unchanged f) (close_socket E k)"
    "keeps (unchanged f) (addFd E fd edge)" "keeps (unchanged f) (deleteFd E fd)"
    "keeps (unchanged f) (my_recv E fd len dontwait)" "keeps (unchanged f) (my_send E fd bs)"
  using assms
  by (auto simp: keeps_def unchanged_def inner_world inner_log query_execute_def query_store_def
      boost_read_def boost_write_def write_file_def remove_file_def close_fd_def close_socket_def
      addFd_def deleteFd_def my_recv_def my_send_def split: prod.splits option.splits)

text \<open>
  The tables of the process.  Calls to the outside never change them, drawing an id changes only
  the id worker.
\<close>

definition tables :: "'w server \<Rightarrow> int users \<times> nat users \<times> (string \<rightharpoonup> string)" where
  "tables s = (m_map s, m_map_boost s, m_liveList s)"

definition memory :: "'w server \<Rightarrow> (int users \<times> nat users \<times> (string \<rightharpoonup> string)) \<times> IdWorker" where
  "memory s = (tables s, worker s)"

lemma inner_tables [simp]: "inner tables" "inner memory" "inner m_map" "inner m_map_boost" "inner m_liveList"
  "inner (\<lambda>s. (m_map s, m_map_boost s))"
  by (simp_all add: inner_def tables_def memory_def)

lemma keeps_next_id: "keeps (unchanged tables) (next_id E)"
  by (auto simp: keeps_def unchanged_def tables_def next_id_def split: option.splits prod.splits)

lemma keeps_next_id_users: "keeps (unchanged (\<lambda>s. (m_map s, m_map_boost s))) (next_id E)"
  by (auto simp: keeps_def unchanged_def next_id_def split: option.splits prod.splits)

lemma keeps_case_option:
  "(\<And>x. v = Some x \<Longrightarrow> keeps R (g x)) \<Longrightarrow> (v = None \<Longrightarrow> keeps R f) \<Longrightarrow>
    keeps R (case v of None \<Rightarrow> f | Some x \<Rightarrow> g x)"
  by (cases v) auto

lemma keeps_case_list:
  "(\<And>x xs. v = x # xs \<Longrightarrow> keeps R (g x xs)) \<Longrightarrow> (v = [] \<Longrightarrow> keeps R f) \<Longrightarrow>
    keeps R (case v of [] \<Rightarrow> f | x # xs \<Rightarrow> g x xs)"
  by (cases v) auto

lemma keeps_if: "(b \<Longrightarrow> keeps R f) \<Longrightarrow> (\<not> b \<Longrightarrow> keeps R g) \<Longrightarrow> keeps R (if b then f else g)"
  by simp

lemmas keeps_split = keeps_case_option keeps_case_list keeps_if

text \<open>The calls made in between satisfy a predicate; nothing is taken out of the record.\<close>

definition only_calls :: "(call \<Rightarrow> bool) \<Rightarrow> 'w server \<Rightarrow> 'w server \<Rightarrow> bool" where
  "only_calls P s s' \<longleftrightarrow> (\<exists>cs. calls s' = calls s @ cs \<and> (\<forall>c \<in> set cs. P c))"

interpretation log: frame "only_calls P" for P
proof unfold_locales
  show "only_calls P s s" for s by (simp add: only_calls_def)
  show "only_calls P s t \<Longrightarrow> only_calls P t u \<Longrightarrow> only_calls P s u" for s t u
    by (fastforce simp: only_calls_def)
qed

lemma log_query_store: "P (Store c) \<Longrightarrow> keeps (only_calls P) (query_store E c)"
  by (auto simp: keeps_def only_calls_def query_store_def log_call_def split: prod.splits)

lemma log_query_execute: "P (Execute c) \<Longrightarrow> keeps (only_calls P) (query_execute E c)"
  by (auto simp: keeps_def only_calls_def query_execute_def log_call_def split: prod.splits)

lemma log_boost_write: "(\<And>bs'. P (Sent (Sock k) bs')) \<Longrightarrow> keeps (only_calls P) (boost_write E k bs)"
  by (auto simp: keeps_def only_calls_def boost_write_def log_call_def split: prod.splits option.splits)

lemma log_my_send: "(\<And>bs'. P (Sent (Fd fd) bs')) \<Longrightarrow> keeps (only_calls P) (my_send E fd bs)"
  by (auto simp: keeps_def only_calls_def my_send_def log_call_def split: prod.splits option.splits)

section \<open>Properties\<close>

lemma for_each_execute:
  "\<exists>w. for_each cs (\<lambda>command. bnd (query_execute E command) (\<lambda>_. ret ())) s
    = Some (Inr (), s\<lparr>world := w, calls := calls s @ map Execute cs\<rparr>)"
proof (induction cs arbitrary: s)
  case Nil
  then show ?case by (intro exI [of _ "world s"]) simp
next
  case (Cons c cs)
  obtain ok w where "mysql_execute E c (world s) = (ok, w)" by fastforce
  then have "query_execute E c s = Some (Inr ok, s\<lparr>world := w, calls := calls s @ [Execute c]\<rparr>)"
    by (simp add: query_execute_def log_call_def)
  with Cons [of "s\<lparr>world := w, calls := calls s @ [Execute c]\<rparr>"] show ?case
    by (simp add: bnd_InrI bnd_assoc)
qed

text \<open>
  Whatever the database answers, start-up sends the eight create commands in source order,
  each exactly once, returns normally, and changes nothing else of the process.
\<close>

theorem initDataBase_runs:
  "\<exists>w. initDataBase E s = Some (Inr (), s\<lparr>world := w, calls := calls s @ map Execute schema_commands\<rparr>)
    \<and> length schema_commands = 8 \<and> distinct schema_commands"
proof -
  have "distinct schema_commands" by (simp add: schema_commands_def)
  moreover have "length schema_commands = 8" by (simp add: schema_commands_def)
  ultimately show ?thesis using for_each_execute [of schema_commands E s]
    unfolding initDataBase_def by blast
qed

end
