(* ===== verification/InitControl.thy ===== *)
theory InitControl
  imports DbBroker UserStatus NetPackets
begin

text \<open>
  \<^verbatim>\<open>initcontrol.cpp\<close>: registration and login.  The two overloads of \<open>do_login\<close> differ in the
  table that records the user id; \<open>login_with\<close> is their common text with that call as a
  parameter.
\<close>

section \<open>The operations\<close>

text \<open>\<open>string x = jsonMsg["k"]\<close> inside a handler.\<close>

definition field :: "json \<Rightarrow> string \<Rightarrow> ('w, string) srv" where
  "field j k = lift_sum (str_field j k)"

text \<open>The three commands.\<close>

definition sql_find_user :: "string \<Rightarrow> string" where
  "sql_find_user uid = ''select id from User where id = '' @ uid"

definition sql_add_user :: "string \<Rightarrow> string \<Rightarrow> string" where
  "sql_add_user uid pw = ''insert into User(id, pw) values('' @ quoted uid @ '','' @ quoted pw @ '')''"

definition sql_find_pw :: "string \<Rightarrow> string" where
  "sql_find_pw uid = ''select pw from User where id = '' @ uid"

definition do_register :: "'w ext \<Rightarrow> string \<Rightarrow> ('w, bool) srv" where
  "do_register E strMsg =
     bnd (lift_sum (json_parse strMsg)) (\<lambda>jsonMsg.
     bnd (field jsonMsg ''id'') (\<lambda>uid.
     bnd (field jsonMsg ''pw'') (\<lambda>pw.
     bnd (query_store E (sql_find_user uid)) (\<lambda>res.
       case res of
         None \<Rightarrow> ret False
       | Some rows \<Rightarrow>
           if rows = []
           then query_execute E (sql_add_user uid pw)
           else ret False))))"

definition login_with :: "'w ext \<Rightarrow> (string \<Rightarrow> ('w, unit) srv) \<Rightarrow> string \<Rightarrow> ('w, bool) srv" where
  "login_with E add_userId strMsg =
     bnd (lift_sum (json_parse strMsg)) (\<lambda>jsonMsg.
     bnd (field jsonMsg ''id'') (\<lambda>uid.
     bnd (field jsonMsg ''pw'') (\<lambda>pw.
     bnd (query_store E (sql_find_pw uid)) (\<lambda>res.
       case res of
         None \<Rightarrow> ret False
       | Some rows \<Rightarrow> (case rows of
           [] \<Rightarrow> ret False
         | row # _ \<Rightarrow>
             bnd (lift_sum (row_at row 0)) (\<lambda>real_pw.
               if pw = real_pw then bnd (add_userId uid) (\<lambda>_. ret True) else ret False))))))"

definition do_login_fd :: "'w ext \<Rightarrow> int \<Rightarrow> string \<Rightarrow> ('w, bool) srv" where
  "do_login_fd E fd strMsg = login_with E (add_userId_fd fd) strMsg"

definition do_login_sock :: "'w ext \<Rightarrow> nat \<Rightarrow> string \<Rightarrow> ('w, bool) srv" where
  "do_login_sock E k strMsg = login_with E (add_userId_sock k) strMsg"

section \<open>What they do\<close>

text \<open>The request as both handlers read it: the object and its two fields, or an exception.\<close>

definition credentials :: "string \<Rightarrow> exn + (string \<times> string)" where
  "credentials strMsg = (case json_parse strMsg of Inl e \<Rightarrow> Inl e | Inr j \<Rightarrow>
     (case str_field j ''id'' of Inl e \<Rightarrow> Inl e | Inr uid \<Rightarrow>
        (case str_field j ''pw'' of Inl e \<Rightarrow> Inl e | Inr pw \<Rightarrow> Inr (uid, pw))))"

lemma do_register_eq:
  "do_register E strMsg = bnd (lift_sum (credentials strMsg)) (\<lambda>(uid, pw).
     bnd (query_store E (sql_find_user uid)) (\<lambda>res.
       case res of None \<Rightarrow> ret False | Some rows \<Rightarrow>
         if rows = []
         then query_execute E (sql_add_user uid pw)
         else ret False))"
  by (auto simp: do_register_def credentials_def field_def split: sum.splits)

lemma login_with_eq:
  "login_with E add_userId strMsg = bnd (lift_sum (credentials strMsg)) (\<lambda>(uid, pw).
     bnd (query_store E (sql_find_pw uid)) (\<lambda>res.
       case res of None \<Rightarrow> ret False | Some rows \<Rightarrow> (case rows of [] \<Rightarrow> ret False | row # _ \<Rightarrow>
         bnd (lift_sum (row_at row 0)) (\<lambda>real_pw.
           if pw = real_pw then bnd (add_userId uid) (\<lambda>_. ret True) else ret False))))"
  by (auto simp: login_with_def credentials_def field_def split: sum.splits)

text \<open>A request as a client prints it.\<close>

definition login_request :: "string \<Rightarrow> string \<Rightarrow> json" where
  "login_request uid pw = JObject [(''id'', JString uid), (''pw'', JString pw)]"

lemma credentials_request:
  assumes "dump (login_request uid pw) = Inr msg"
  shows "credentials msg = Inr (uid, pw)"
proof -
  have "json_wf (login_request uid pw)" by (simp add: login_request_def)
  from parse_dump [OF assms this, of 0] show ?thesis
    by (simp add: credentials_def login_request_def str_field_def field_with_def json_index_def json_string_def)
qed

lemma sample_request: "\<exists>msg. dump (login_request ''7'' ''x'') = Inr msg \<and> credentials msg = Inr (''7'', ''x'')"
proof -
  have "\<exists>msg. dump (login_request ''7'' ''x'') = Inr msg"
    by (simp add: login_request_def dump_eval)
  then show ?thesis using credentials_request by blast
qed

section \<open>Properties\<close>

text \<open>
  C28: Registration answers yes exactly when the request is well-formed, the query for the id
  succeeds without a row and the insertion succeeds; the insertion is attempted exactly in that
  case, after the query, and the memory of the process is not touched in any case.
\<close>

theorem register_correct:
  assumes "do_register E msg s = Some (r, s')"
  shows "memory s' = memory s
    \<and> (r = Inr True \<longleftrightarrow> (\<exists>uid pw w w'. credentials msg = Inr (uid, pw)
        \<and> mysql_store E (sql_find_user uid) (world s) = (Some [], w)
        \<and> mysql_execute E (sql_add_user uid pw) w = (True, w')))
    \<and> calls s' = calls s @ (case credentials msg of Inl e \<Rightarrow> [] | Inr (uid, pw) \<Rightarrow>
        Store (sql_find_user uid) #
        (if fst (mysql_store E (sql_find_user uid) (world s)) = Some []
         then [Execute (sql_add_user uid pw)] else []))"
  using assms unfolding do_register_eq
  by (auto simp: query_store_def query_execute_def log_call_def memory_def tables_def bnd_def
      split: sum.splits prod.splits option.splits if_splits)

theorem register_correct_witness:
  "\<exists>msg s'. dump (login_request ''7'' ''x'') = Inr msg
    \<and> do_register sample_ext msg sample_server = Some (Inr True, s')
    \<and> calls s' = [Store (sql_find_user ''7''), Execute (sql_add_user ''7'' ''x'')]"
proof -
  obtain msg where msg: "dump (login_request ''7'' ''x'') = Inr msg" "credentials msg = Inr (''7'', ''x'')"
    using sample_request by blast
  then obtain s' where s': "do_register sample_ext msg sample_server = Some (Inr True, s')"
    by (auto simp: do_register_eq sample_defs query_store_def query_execute_def bnd_def)
  from register_correct [OF this] msg(2) have "calls s' = [Store (sql_find_user ''7''), Execute (sql_add_user ''7'' ''x'')]"
    by (simp add: sample_defs)
  with msg(1) s' show ?thesis by blast
qed

text \<open>
  C3: Login on a socket answers yes exactly when the request is well-formed, the database returns
  a row for the id whose first cell is the given password, and the socket is still in the table;
  only then is the user id recorded, for this socket alone, and its heartbeat count is kept.
  Nothing else of the memory changes, whatever the outcome.
\<close>

theorem login_correct:
  assumes "do_login_sock E k msg s = Some (r, s')"
  shows "(r = Inr True \<longleftrightarrow> (\<exists>uid pw row rows w i. credentials msg = Inr (uid, pw)
        \<and> mysql_store E (sql_find_pw uid) (world s) = (Some (row # rows), w)
        \<and> row \<noteq> [] \<and> row ! 0 = pw \<and> m_map_boost s k = Some i))
    \<and> (r \<noteq> Inr True \<longrightarrow> memory s' = memory s)
    \<and> (r = Inr True \<longrightarrow> (\<exists>uid pw i. credentials msg = Inr (uid, pw) \<and> m_map_boost s k = Some i
        \<and> memory s' = memory (s\<lparr>m_map_boost := (m_map_boost s)(k \<mapsto> i\<lparr>userId := uid\<rparr>)\<rparr>)))"
  using assms unfolding do_login_sock_def login_with_eq
  by (auto simp: query_store_def log_call_def memory_def tables_def bnd_def row_at_def table_op_defs
      split: sum.splits prod.splits option.splits if_splits list.splits)

theorem login_correct_witness:
  "\<exists>msg s' w. dump (login_request ''7'' ''x'') = Inr msg
    \<and> do_login_sock sample_ext 1 msg (sample_server\<lparr>m_map_boost := [1 \<mapsto> fresh_info []],
        world := sample_world\<lparr>answers := (\<lambda>c. Some [[''x'']])\<rparr>\<rparr>) = Some (Inr True, s')
    \<and> m_map_boost s' = [1 \<mapsto> \<lparr>ip = [], userId = ''7'', num = 0\<rparr>]"
proof -
  let ?s = "sample_server\<lparr>m_map_boost := [1 \<mapsto> fresh_info []],
        world := sample_world\<lparr>answers := (\<lambda>c. Some [[''x'']])\<rparr>\<rparr>"
  obtain msg where msg: "dump (login_request ''7'' ''x'') = Inr msg" "credentials msg = Inr (''7'', ''x'')"
    using sample_request by blast
  then obtain s' where s': "do_login_sock sample_ext 1 msg ?s = Some (Inr True, s')"
    by (auto simp: do_login_sock_def login_with_eq sample_defs query_store_def row_at_def
        table_op_defs bnd_def log_call_def)
  from login_correct [OF this] msg(2) have "m_map_boost s' = [1 \<mapsto> \<lparr>ip = [], userId = ''7'', num = 0\<rparr>]"
    by (auto simp: sample_defs memory_def tables_def fresh_info_def)
  with msg(1) s' show ?thesis by blast
qed

end
