(* ===== verification/RegisterRace.thy ===== *)
theory RegisterRace
  imports InitControl
begin

text \<open>
  Two registrations at the same time.  \<^verbatim>\<open>do_register\<close> of \<^verbatim>\<open>initcontrol.cpp\<close> looks the id up and inserts
  the user with two commands; the threads of \<^verbatim>\<open>io_context\<close>, or two workers, can run it for two
  clients at once.  \<open>InitControl\<close> runs the operation as a whole; here it is cut at the database
  commands, and two runs of it interleave.
\<close>

section \<open>The operation, cut at its commands\<close>

text \<open>Up to the look-up: the id and password to insert, or \<^term>\<open>None\<close> when the answer is no.\<close>

definition register_find :: "'w ext \<Rightarrow> string \<Rightarrow> ('w, (string \<times> string) option) srv" where
  "register_find E strMsg =
     bnd (lift_sum (json_parse strMsg)) (\<lambda>jsonMsg.
     bnd (field jsonMsg ''id'') (\<lambda>uid.
     bnd (field jsonMsg ''pw'') (\<lambda>pw.
     bnd (query_store E (sql_find_user uid)) (\<lambda>res.
       case res of
         None \<Rightarrow> ret None
       | Some rows \<Rightarrow> ret (if rows = [] then Some (uid, pw) else None)))))"

definition register_add :: "'w ext \<Rightarrow> string \<times> string \<Rightarrow> ('w, bool) srv" where
  "register_add E u = query_execute E (sql_add_user (fst u) (snd u))"

text \<open>Where a run is: its request is in, it has found the id free, or it has answered.\<close>

datatype register = Asked string | Found "string \<times> string" | Answered bool

definition register_step :: "'w ext \<Rightarrow> register \<Rightarrow> ('w, register) srv" where
  "register_step E r = (case r of
     Asked strMsg \<Rightarrow> bnd (register_find E strMsg) (\<lambda>u. ret (case u of None \<Rightarrow> Answered False | Some up \<Rightarrow> Found up))
   | Found up \<Rightarrow> bnd (register_add E up) (\<lambda>ok. ret (Answered ok))
   | Answered ok \<Rightarrow> ret (Answered ok))"

text \<open>Two runs; the flags say whose turn it is (\<^term>\<open>True\<close>: the first).\<close>

fun two_registers :: "'w ext \<Rightarrow> bool list \<Rightarrow> register \<Rightarrow> register \<Rightarrow> ('w, register \<times> register) srv" where
  "two_registers E [] a b = ret (a, b)"
| "two_registers E (first # turns) a b =
     (if first then bnd (register_step E a) (\<lambda>a'. two_registers E turns a' b)
      else bnd (register_step E b) (\<lambda>b'. two_registers E turns a b'))"

text \<open>One run on its own is \<open>do_register\<close>.\<close>

lemma register_alone:
  "bnd (register_step E (Asked strMsg)) (register_step E) = bnd (do_register E strMsg) (\<lambda>ok. ret (Answered ok))"
proof -
  have "bnd (register_step E (Asked strMsg)) (register_step E)
      = bnd (register_find E strMsg) (\<lambda>u. case u of None \<Rightarrow> ret (Answered False)
          | Some up \<Rightarrow> bnd (register_add E up) (\<lambda>ok. ret (Answered ok)))"
    by (rule ext) (auto simp: register_step_def bnd_def split: option.split sum.split)
  also have "\<dots> = bnd (do_register E strMsg) (\<lambda>ok. ret (Answered ok))"
    by (rule ext) (auto simp: register_find_def do_register_def register_add_def bnd_def
        split: option.split sum.split)
  finally show ?thesis .
qed

section \<open>The table of users\<close>

text \<open>
  What the database does with the two commands for one id: the look-up succeeds and finds a row
  exactly when the id is in the table, the insertion with one of the given passwords succeeds -- the
  table has no key -- and puts it there.
\<close>

definition user_table :: "'w ext \<Rightarrow> string \<Rightarrow> string set \<Rightarrow> ('w \<Rightarrow> bool) \<Rightarrow> bool" where
  "user_table E uid pws known \<longleftrightarrow> (\<forall>w. \<exists>rows w'. mysql_store E (sql_find_user uid) w = (Some rows, w')
       \<and> (rows = [] \<longleftrightarrow> \<not> known w) \<and> known w' = known w)
     \<and> (\<forall>pw \<in> pws. \<forall>w. \<exists>w'. mysql_execute E (sql_add_user uid pw) w = (True, w') \<and> known w')"

lemma find_step:
  assumes "user_table E uid pws known" and "credentials msg = Inr (uid, pw)"
  shows "\<exists>w. register_step E (Asked msg) s = Some (Inr (if known (world s) then Answered False else Found (uid, pw)),
    s\<lparr>world := w, calls := calls s @ [Store (sql_find_user uid)]\<rparr>) \<and> known w = known (world s)"
proof -
  obtain rows w where "mysql_store E (sql_find_user uid) (world s) = (Some rows, w)"
    "rows = [] \<longleftrightarrow> \<not> known (world s)" "known w = known (world s)"
    using assms(1) unfolding user_table_def by blast
  then show ?thesis using assms(2)
    by (auto simp: register_step_def register_find_def credentials_def field_def query_store_def log_call_def bnd_def
        split: sum.splits)
qed

lemma add_step:
  assumes "user_table E uid pws known" and "pw \<in> pws"
  shows "\<exists>w. register_step E (Found (uid, pw)) s = Some (Inr (Answered True),
    s\<lparr>world := w, calls := calls s @ [Execute (sql_add_user uid pw)]\<rparr>) \<and> known w"
proof -
  obtain w where "mysql_execute E (sql_add_user uid pw) (world s) = (True, w)" "known w"
    using assms unfolding user_table_def by blast
  then show ?thesis
    by (intro exI [of _ w]) (simp add: register_step_def register_add_def query_execute_def log_call_def bnd_def)
qed

text \<open>The two clients are interchangeable.\<close>

lemma two_registers_swap:
  "two_registers E (map Not turns) b a s = map_option (map_prod (map_sum id prod.swap) id) (two_registers E turns a b s)"
proof (induction turns arbitrary: a b s)
  case (Cons first turns)
  then show ?case by (cases first) (auto simp: bnd_def split: option.split sum.split)
qed simp

text \<open>The three orders in which the first client starts.\<close>

lemma orders:
  assumes "user_table E uid pws known" and "\<not> known (world s)"
    and "credentials m1 = Inr (uid, p1)" and "credentials m2 = Inr (uid, p2)" and "p1 \<in> pws" and "p2 \<in> pws"
  shows "\<exists>w. two_registers E [True, True, False, False] (Asked m1) (Asked m2) s = Some (Inr (Answered True, Answered False),
      s\<lparr>world := w, calls := calls s @ [Store (sql_find_user uid), Execute (sql_add_user uid p1), Store (sql_find_user uid)]\<rparr>)"
    and "\<exists>w. two_registers E [True, False, True, False] (Asked m1) (Asked m2) s = Some (Inr (Answered True, Answered True),
      s\<lparr>world := w, calls := calls s @ [Store (sql_find_user uid), Store (sql_find_user uid),
        Execute (sql_add_user uid p1), Execute (sql_add_user uid p2)]\<rparr>)"
    and "\<exists>w. two_registers E [True, False, False, True] (Asked m1) (Asked m2) s = Some (Inr (Answered True, Answered True),
      s\<lparr>world := w, calls := calls s @ [Store (sql_find_user uid), Store (sql_find_user uid),
        Execute (sql_add_user uid p2), Execute (sql_add_user uid p1)]\<rparr>)"
proof -
  let ?S = "Store (sql_find_user uid)"
  obtain w1 where 1: "register_step E (Asked m1) s = Some (Inr (Found (uid, p1)), s\<lparr>world := w1, calls := calls s @ [?S]\<rparr>)"
    "\<not> known w1" using find_step [OF assms(1,3), of s] assms(2) by auto
  let ?s1 = "s\<lparr>world := w1, calls := calls s @ [?S]\<rparr>"
  obtain w2 where 2: "register_step E (Found (uid, p1)) ?s1 = Some (Inr (Answered True),
      ?s1\<lparr>world := w2, calls := calls ?s1 @ [Execute (sql_add_user uid p1)]\<rparr>)" "known w2"
    using add_step [OF assms(1,5), of ?s1] by auto
  let ?s2 = "?s1\<lparr>world := w2, calls := calls ?s1 @ [Execute (sql_add_user uid p1)]\<rparr>"
  obtain w3 where 3: "register_step E (Asked m2) ?s2 = Some (Inr (Answered False), ?s2\<lparr>world := w3, calls := calls ?s2 @ [?S]\<rparr>)"
    using find_step [OF assms(1,4), of ?s2] 2(2) by auto
  show "\<exists>w. two_registers E [True, True, False, False] (Asked m1) (Asked m2) s = Some (Inr (Answered True, Answered False),
      s\<lparr>world := w, calls := calls s @ [?S, Execute (sql_add_user uid p1), ?S]\<rparr>)"
    using 1 2 3 by (intro exI [of _ w3]) (simp add: bnd_def, simp add: register_step_def)
  obtain w4 where 4: "register_step E (Asked m2) ?s1 = Some (Inr (Found (uid, p2)), ?s1\<lparr>world := w4, calls := calls ?s1 @ [?S]\<rparr>)"
    using find_step [OF assms(1,4), of ?s1] 1(2) by auto
  let ?s4 = "?s1\<lparr>world := w4, calls := calls ?s1 @ [?S]\<rparr>"
  have both: "\<exists>w. register_step E (Found (uid, p)) ?s4 = Some (Inr (Answered True), ?s4\<lparr>world := w, calls := calls ?s4 @ [Execute (sql_add_user uid p)]\<rparr>)"
    if "p \<in> pws" for p using add_step [OF assms(1) that, of ?s4] by blast
  obtain w5 where 5: "register_step E (Found (uid, p1)) ?s4 = Some (Inr (Answered True), ?s4\<lparr>world := w5, calls := calls ?s4 @ [Execute (sql_add_user uid p1)]\<rparr>)"
    using both [OF assms(5)] by blast
  let ?s5 = "?s4\<lparr>world := w5, calls := calls ?s4 @ [Execute (sql_add_user uid p1)]\<rparr>"
  obtain w6 where 6: "register_step E (Found (uid, p2)) ?s5 = Some (Inr (Answered True), ?s5\<lparr>world := w6, calls := calls ?s5 @ [Execute (sql_add_user uid p2)]\<rparr>)"
    using add_step [OF assms(1,6), of ?s5] by blast
  show "\<exists>w. two_registers E [True, False, True, False] (Asked m1) (Asked m2) s = Some (Inr (Answered True, Answered True),
      s\<lparr>world := w, calls := calls s @ [?S, ?S, Execute (sql_add_user uid p1), Execute (sql_add_user uid p2)]\<rparr>)"
    using 1 4 5 6 by (intro exI [of _ w6]) (simp add: bnd_def)
  obtain w7 where 7: "register_step E (Found (uid, p2)) ?s4 = Some (Inr (Answered True), ?s4\<lparr>world := w7, calls := calls ?s4 @ [Execute (sql_add_user uid p2)]\<rparr>)"
    using both [OF assms(6)] by blast
  let ?s7 = "?s4\<lparr>world := w7, calls := calls ?s4 @ [Execute (sql_add_user uid p2)]\<rparr>"
  obtain w8 where 8: "register_step E (Found (uid, p1)) ?s7 = Some (Inr (Answered True), ?s7\<lparr>world := w8, calls := calls ?s7 @ [Execute (sql_add_user uid p1)]\<rparr>)"
    using add_step [OF assms(1,5), of ?s7] by blast
  show "\<exists>w. two_registers E [True, False, False, True] (Asked m1) (Asked m2) s = Some (Inr (Answered True, Answered True),
      s\<lparr>world := w, calls := calls s @ [?S, ?S, Execute (sql_add_user uid p2), Execute (sql_add_user uid p1)]\<rparr>)"
    using 1 4 7 8 by (intro exI [of _ w8]) (simp add: bnd_def)
qed

text \<open>What an order of the turns leads to.\<close>

definition race_outcome :: "string \<Rightarrow> string \<Rightarrow> string \<Rightarrow> bool list \<Rightarrow> bool \<Rightarrow> bool \<Rightarrow> call list \<Rightarrow> bool" where
  "race_outcome uid p1 p2 turns ok1 ok2 cs \<longleftrightarrow> (if turns ! 0 = turns ! 1
     then ok1 = turns ! 0 \<and> ok2 = (\<not> turns ! 0)
       \<and> cs = [Store (sql_find_user uid), Execute (sql_add_user uid (if ok1 then p1 else p2)), Store (sql_find_user uid)]
     else ok1 \<and> ok2 \<and> {Execute (sql_add_user uid p1), Execute (sql_add_user uid p2)} \<subseteq> set cs)"

lemma race_outcomeI:
  assumes "\<exists>w. two_registers E turns a b s = Some (Inr (Answered ok1, Answered ok2), s\<lparr>world := w, calls := calls s @ cs\<rparr>)"
    and "race_outcome uid p1 p2 turns ok1 ok2 cs"
  shows "\<exists>ok1 ok2 s' cs. two_registers E turns a b s = Some (Inr (Answered ok1, Answered ok2), s')
    \<and> calls s' = calls s @ cs \<and> race_outcome uid p1 p2 turns ok1 ok2 cs"
proof -
  obtain w where "two_registers E turns a b s = Some (Inr (Answered ok1, Answered ok2), s\<lparr>world := w, calls := calls s @ cs\<rparr>)"
    using assms(1) by blast
  with assms(2) show ?thesis by (intro exI conjI) (assumption, simp_all)
qed

lemma swapped_outcomeI:
  assumes "\<exists>w. two_registers E turns b a s = Some (Inr (Answered ok2, Answered ok1), s\<lparr>world := w, calls := calls s @ cs\<rparr>)"
    and "race_outcome uid p1 p2 (map Not turns) ok1 ok2 cs"
  shows "\<exists>ok1 ok2 s' cs. two_registers E (map Not turns) a b s = Some (Inr (Answered ok1, Answered ok2), s')
    \<and> calls s' = calls s @ cs \<and> race_outcome uid p1 p2 (map Not turns) ok1 ok2 cs"
  by (rule race_outcomeI [OF _ assms(2)]) (use assms(1) in \<open>auto simp: two_registers_swap simp del: two_registers.simps\<close>)

section \<open>Property\<close>

text \<open>
  C21: Two registrations of one id race.  Two clients ask for the same free id, and each has two turns.
  When one has both its turns before the other's first, it registers and the other is refused.
  In the other orders both look up before either inserts, so both are told yes, and the table
  gets the id twice, with both passwords.
\<close>

theorem registration_race:
  assumes "user_table E uid {p1, p2} known" and "\<not> known (world s)"
    and "credentials m1 = Inr (uid, p1)" and "credentials m2 = Inr (uid, p2)"
    and "turns \<in> {[True, True, False, False], [True, False, True, False], [True, False, False, True],
      [False, False, True, True], [False, True, False, True], [False, True, True, False]}"
  shows "\<exists>ok1 ok2 s' cs. two_registers E turns (Asked m1) (Asked m2) s = Some (Inr (Answered ok1, Answered ok2), s')
    \<and> calls s' = calls s @ cs
    \<and> (if turns ! 0 = turns ! 1
       then ok1 = turns ! 0 \<and> ok2 = (\<not> turns ! 0)
         \<and> cs = [Store (sql_find_user uid), Execute (sql_add_user uid (if ok1 then p1 else p2)), Store (sql_find_user uid)]
       else ok1 \<and> ok2 \<and> {Execute (sql_add_user uid p1), Execute (sql_add_user uid p2)} \<subseteq> set cs)"
proof -
  have p: "p1 \<in> {p1, p2}" "p2 \<in> {p1, p2}" by simp_all
  note first = orders [OF assms(1-4) p] and second = orders [OF assms(1,2,4,3) p(2,1)]
  consider "turns = [True, True, False, False]" | "turns = [True, False, True, False]" | "turns = [True, False, False, True]"
    | "turns = map Not [True, True, False, False]" | "turns = map Not [True, False, True, False]"
    | "turns = map Not [True, False, False, True]" using assms(5) by (simp only: list.map not_True_eq_False not_False_eq_True) blast
  then have "\<exists>ok1 ok2 s' cs. two_registers E turns (Asked m1) (Asked m2) s = Some (Inr (Answered ok1, Answered ok2), s')
      \<and> calls s' = calls s @ cs \<and> race_outcome uid p1 p2 turns ok1 ok2 cs"
  proof cases
    case 1
    show ?thesis unfolding 1 by (rule race_outcomeI [OF first(1)]) (simp add: race_outcome_def)
  next
    case 2
    show ?thesis unfolding 2 by (rule race_outcomeI [OF first(2)]) (simp add: race_outcome_def)
  next
    case 3
    show ?thesis unfolding 3 by (rule race_outcomeI [OF first(3)]) (simp add: race_outcome_def)
  next
    case 4
    show ?thesis unfolding 4 by (rule swapped_outcomeI [OF second(1)]) (simp add: race_outcome_def)
  next
    case 5
    show ?thesis unfolding 5 by (rule swapped_outcomeI [OF second(2)]) (simp add: race_outcome_def)
  next
    case 6
    show ?thesis unfolding 6 by (rule swapped_outcomeI [OF second(3)]) (simp add: race_outcome_def)
  qed
  then show ?thesis unfolding race_outcome_def .
qed

text \<open>A database in which every look-up succeeds once something was inserted.\<close>

definition filling_ext :: "sample ext" where
  "filling_ext = sample_ext\<lparr>mysql_execute := (\<lambda>c w. (True, w\<lparr>answers := (\<lambda>q. Some [[''7'']])\<rparr>)),
     mysql_store := (\<lambda>q w. (Some (if answers w q = Some [] then [] else [[''7'']]), w))\<rparr>"

theorem registration_race_witness:
  "\<exists>msg s'. two_registers filling_ext [True, False, False, True] (Asked msg) (Asked msg) sample_server
      = Some (Inr (Answered True, Answered True), s')
    \<and> (\<exists>s''. two_registers filling_ext [True, True, False, False] (Asked msg) (Asked msg) sample_server
      = Some (Inr (Answered True, Answered False), s''))"
proof -
  obtain msg where m: "credentials msg = Inr (''7'', ''x'')" using sample_request by blast
  have t: "user_table filling_ext ''7'' {''x'', ''x''} (\<lambda>w. answers w (sql_find_user ''7'') \<noteq> Some [])"
    by (simp add: user_table_def filling_ext_def sample_ext_def)
  have n: "\<not> (answers (world sample_server) (sql_find_user ''7'') \<noteq> Some [])"
    by (simp add: sample_server_def sample_world_def)
  from registration_race [OF t n m m, of "[True, False, False, True]"]
    registration_race [OF t n m m, of "[True, True, False, False]"]
  show ?thesis by (intro exI [of _ msg]) (auto simp del: two_registers.simps)
qed

end
