(* ===== verification/ModifyInfo.thy ===== *)
theory ModifyInfo
  imports InitControl LiveList
begin

text \<open>
  \<^verbatim>\<open>modifyinfocontrol.cpp\<close>: the requests that change stored information.  There is one definition
  per case of the \<open>switch\<close>, named after it, and one definition per SQL command.  The two
  overloads differ in how the one reply is sent, which is a parameter.
\<close>

section \<open>SQL commands\<close>

definition sql_add_comment :: "string \<Rightarrow> string \<Rightarrow> string \<Rightarrow> string \<Rightarrow> string \<Rightarrow> string" where
  "sql_add_comment cid replyCommentId publisherId videoId content =
     ''insert into Comment(id, replyCommentId, publisherId, videoId, content, time) values('' @
     quoted cid @ '', '' @ quoted replyCommentId @ '', '' @ quoted publisherId @ '','' @ quoted videoId
     @ '','' @ quoted content @ '',(select now()))''"

definition sql_video_suffix :: "string \<Rightarrow> string" where
  "sql_video_suffix videoId = ''select videoSuffix from Video where id='' @ videoId"

definition sql_delete_video :: "string \<Rightarrow> string" where
  "sql_delete_video videoId = ''delete from Video where id = '' @ videoId"

definition sql_delete_video_likes :: "string \<Rightarrow> string" where
  "sql_delete_video_likes videoId = ''delete from VideoLike where videoId = '' @ videoId"

definition sql_like_video :: "string \<Rightarrow> string \<Rightarrow> string" where
  "sql_like_video videoId uid = ''insert into VideoLike values('' @ quoted videoId @ '','' @ quoted uid @ '')''"

definition sql_unlike_video :: "string \<Rightarrow> string \<Rightarrow> string" where
  "sql_unlike_video videoId uid = ''delete from VideoLike where videoId='' @ videoId @ '' and userId='' @ uid"

definition sql_like_comment :: "string \<Rightarrow> string \<Rightarrow> string" where
  "sql_like_comment commentId uid = ''insert into CommentLike values('' @ quoted commentId @ '','' @ quoted uid @ '')''"

definition sql_unlike_comment :: "string \<Rightarrow> string \<Rightarrow> string" where
  "sql_unlike_comment commentId uid =
     ''delete from CommentLike where videoId='' @ commentId @ '' and userId='' @ uid"

definition sql_follow :: "string \<Rightarrow> string \<Rightarrow> string" where
  "sql_follow uid followerId = ''insert into Follow values('' @ quoted uid @ '','' @ quoted followerId @ '')''"

definition sql_unfollow :: "string \<Rightarrow> string \<Rightarrow> string" where
  "sql_unfollow uid followerId = ''delete from Follow where userId='' @ uid @ '' and followerId='' @ followerId"

definition sql_nick_name :: "string \<Rightarrow> string \<Rightarrow> string" where
  "sql_nick_name newNickName uid = ''update User set nickName = '' @ quoted newNickName @ '' where id ='' @ uid"

definition sql_video_profile :: "string \<Rightarrow> string \<Rightarrow> string" where
  "sql_video_profile newProfile videoId =
     ''update Video set profile = '' @ quoted newProfile @ '' where id ='' @ videoId"

definition live_url :: "string \<Rightarrow> string" where
  "live_url uid = ''rtmp://127.0.0.1:1935/live/'' @ uid"

section \<open>The cases\<close>

text \<open>A command whose result is ignored.\<close>

definition run_sql :: "'w ext \<Rightarrow> string \<Rightarrow> ('w, unit) srv" where
  "run_sql E command = bnd (query_execute E command) (\<lambda>_. ret ())"

definition modify_Comment :: "'w ext \<Rightarrow> json \<Rightarrow> ('w, unit) srv" where
  "modify_Comment E jsonMsg =
     bnd (next_id E) (\<lambda>i.
     bnd (field jsonMsg ''replyCommentId'') (\<lambda>replyCommentId.
     bnd (field jsonMsg ''publisherId'') (\<lambda>publisherId.
     bnd (field jsonMsg ''videoId'') (\<lambda>videoId.
     bnd (field jsonMsg ''content'') (\<lambda>content.
       run_sql E (sql_add_comment (id_string i) replyCommentId publisherId videoId content))))))"

text \<open>The first cell of the first row, when the query succeeds with a row.\<close>

definition first_cell :: "string list list option \<Rightarrow> nat \<Rightarrow> ('w, string) srv" where
  "first_cell res i = (case res of
     None \<Rightarrow> ret []
   | Some rows \<Rightarrow> (case rows of [] \<Rightarrow> ret [] | row # _ \<Rightarrow> lift_sum (row_at row i)))"

definition modify_Video :: "'w ext \<Rightarrow> json \<Rightarrow> ('w, unit) srv" where
  "modify_Video E jsonMsg =
     bnd (field jsonMsg ''videoId'') (\<lambda>videoId.
     bnd (query_store E (sql_video_suffix videoId)) (\<lambda>res.
     bnd (first_cell res 0) (\<lambda>videoSuffix.
     bnd (remove_file E (c_str (VIDEO_URL @ videoId @ videoSuffix))) (\<lambda>_.
     bnd (run_sql E (sql_delete_video videoId)) (\<lambda>_.
       run_sql E (sql_delete_video_likes videoId))))))"

text \<open>The three toggles read two ids and a flag, and send one of two commands.\<close>

definition toggle :: "'w ext \<Rightarrow> json \<Rightarrow> string \<Rightarrow> string \<Rightarrow> string
    \<Rightarrow> (string \<Rightarrow> string \<Rightarrow> string) \<Rightarrow> (string \<Rightarrow> string \<Rightarrow> string) \<Rightarrow> ('w, unit) srv" where
  "toggle E jsonMsg key1 key2 flag on off =
     bnd (field jsonMsg key1) (\<lambda>a.
     bnd (field jsonMsg key2) (\<lambda>b.
     bnd (lift_sum (bool_field jsonMsg flag)) (\<lambda>on_off.
       if on_off then run_sql E (on a b) else run_sql E (off a b))))"

definition modify_VideoLike :: "'w ext \<Rightarrow> json \<Rightarrow> ('w, unit) srv" where
  "modify_VideoLike E jsonMsg =
     toggle E jsonMsg ''id'' ''userId'' ''ifLike'' sql_like_video sql_unlike_video"

definition modify_CommentLike :: "'w ext \<Rightarrow> json \<Rightarrow> ('w, unit) srv" where
  "modify_CommentLike E jsonMsg =
     toggle E jsonMsg ''id'' ''userId'' ''ifLike'' sql_like_comment sql_unlike_comment"

definition modify_Follow :: "'w ext \<Rightarrow> json \<Rightarrow> ('w, unit) srv" where
  "modify_Follow E jsonMsg =
     toggle E jsonMsg ''userId'' ''followerId'' ''ifFollow'' sql_follow sql_unfollow"

definition modify_LiveList :: "'w sender \<Rightarrow> json \<Rightarrow> ('w, unit) srv" where
  "modify_LiveList send jsonMsg =
     bnd (field jsonMsg ''userId'') (\<lambda>uid.
     bnd (lift_sum (bool_field jsonMsg ''ifStart'')) (\<lambda>ifStart.
       if ifStart
       then bnd (live_add uid (live_url uid)) (\<lambda>_.
            reply send (sendLiveInfo_P (json_object [(''url'', JString (live_url uid))])))
       else live_remove uid))"

definition modify_NickName :: "'w ext \<Rightarrow> json \<Rightarrow> ('w, unit) srv" where
  "modify_NickName E jsonMsg =
     bnd (field jsonMsg ''userId'') (\<lambda>uid.
     bnd (field jsonMsg ''newNickName'') (\<lambda>newNickName.
       run_sql E (sql_nick_name newNickName uid)))"

definition modify_VideoProfile :: "'w ext \<Rightarrow> json \<Rightarrow> ('w, unit) srv" where
  "modify_VideoProfile E jsonMsg =
     bnd (field jsonMsg ''videoId'') (\<lambda>videoId.
     bnd (field jsonMsg ''newProfile'') (\<lambda>newProfile.
       run_sql E (sql_video_profile newProfile videoId)))"

section \<open>The switch\<close>

definition modify_case :: "'w ext \<Rightarrow> 'w sender \<Rightarrow> json \<Rightarrow> InfoType option \<Rightarrow> ('w, unit) srv" where
  "modify_case E send jsonMsg t = (case t of
     Some InfoType.Comment \<Rightarrow> modify_Comment E jsonMsg
   | Some InfoType.Video \<Rightarrow> modify_Video E jsonMsg
   | Some InfoType.VideoLike \<Rightarrow> modify_VideoLike E jsonMsg
   | Some InfoType.CommentLike \<Rightarrow> modify_CommentLike E jsonMsg
   | Some InfoType.Follow \<Rightarrow> modify_Follow E jsonMsg
   | Some InfoType.LiveList \<Rightarrow> modify_LiveList send jsonMsg
   | Some InfoType.NickName \<Rightarrow> modify_NickName E jsonMsg
   | Some InfoType.VideoProfile \<Rightarrow> modify_VideoProfile E jsonMsg
   | _ \<Rightarrow> ret ())"

definition modify_with :: "'w ext \<Rightarrow> 'w sender \<Rightarrow> string \<Rightarrow> ('w, unit) srv" where
  "modify_with E send buf =
     bnd (lift_sum (json_parse buf)) (\<lambda>jsonMsg.
     bnd (lift_sum (enum_field jsonMsg ''infotype'')) (\<lambda>infotype.
       modify_case E send jsonMsg (infotype_of infotype)))"

definition modify_info_fd :: "'w ext \<Rightarrow> int \<Rightarrow> string \<Rightarrow> ('w, unit) srv" where
  "modify_info_fd E fd buf = modify_with E (send_fd E fd) buf"

definition modify_info_sock :: "'w ext \<Rightarrow> nat \<Rightarrow> string \<Rightarrow> ('w, unit) srv" where
  "modify_info_sock E k buf = modify_with E (send_sock E k) buf"

section \<open>What they do\<close>

text \<open>The connection tables are out of reach of every case.\<close>

definition connections :: "'w server \<Rightarrow> int users \<times> nat users" where
  "connections s = (m_map s, m_map_boost s)"

lemma inner_connections [simp]: "inner connections"
  by (simp add: inner_def connections_def)

lemma keeps_connections [simp]:
  "keeps (unchanged connections) (next_id E)" "keeps (unchanged connections) (live_add uid url)"
  "keeps (unchanged connections) (live_remove uid)"
  by (auto simp: keeps_def unchanged_def connections_def next_id_def live_add_def live_remove_def
      split: option.splits prod.splits)

lemma keeps_field: "keeps (unchanged f) (field j k)"
  by (simp add: field_def part.keeps_lift_sum)

lemma keeps_run_sql: "inner f \<Longrightarrow> keeps (unchanged f) (run_sql E c)"
  by (auto simp: run_sql_def intro: part.keeps_rules keeps_outside)

lemma keeps_first_cell: "keeps (unchanged f) (first_cell res i)"
  by (auto simp: first_cell_def intro!: part.keeps_rules keeps_split)

lemma keeps_send: "inner f \<Longrightarrow> keeps (unchanged f) (send_fd E fd p)"
  "inner f \<Longrightarrow> keeps (unchanged f) (send_sock E k p)"
  by (auto simp: send_fd_def send_sock_def intro: part.keeps_rules keeps_outside)

lemma keeps_reply: "(\<And>p. keeps (unchanged f) (send p)) \<Longrightarrow> keeps (unchanged f) (reply send q)"
  by (auto simp: reply_def intro: part.keeps_rules)

lemmas keeps_handler = part.keeps_rules keeps_outside keeps_field keeps_run_sql keeps_first_cell
  keeps_reply keeps_if

lemma keeps_modify_case:
  assumes "\<And>p. keeps (unchanged connections) (send p)"
  shows "keeps (unchanged connections) (modify_case E send j t)"
proof (cases t)
  case None
  then show ?thesis by (simp add: modify_case_def part.keeps_rules)
next
  case (Some i)
  then show ?thesis unfolding modify_case_def
    by (cases i) (auto simp: modify_Comment_def modify_Video_def modify_VideoLike_def modify_CommentLike_def
        modify_Follow_def modify_LiveList_def modify_NickName_def modify_VideoProfile_def toggle_def
        intro!: keeps_handler assms)
qed

lemma keeps_modify_with:
  assumes "\<And>p. keeps (unchanged connections) (send p)"
  shows "keeps (unchanged connections) (modify_with E send buf)"
  by (auto simp: modify_with_def intro!: part.keeps_rules keeps_modify_case assms)

lemma field_app [handler_simps]: "str_field j k = Inr v \<Longrightarrow> bnd (field j k) f s = f v s"
  by (simp add: field_def bnd_def)

lemma run_sql_app [handler_simps]: "run_sql E c s = Some (Inr (), s\<lparr>world := snd (mysql_execute E c (world s)),
    calls := calls s @ [Execute c]\<rparr>)"
  by (simp add: run_sql_def query_execute_def bnd_def log_call_def split: prod.split)

lemma query_store_app [handler_simps]: "bnd (query_store E c) f s = f (fst (mysql_store E c (world s)))
    (s\<lparr>world := snd (mysql_store E c (world s)), calls := calls s @ [Store c]\<rparr>)"
  by (simp add: query_store_def bnd_def log_call_def split: prod.split)

lemma modify_with_app:
  assumes "json_parse buf = Inr j" and "enum_field j ''infotype'' = Inr (infotype_int t)"
  shows "modify_with E send buf s = modify_case E send j (Some t) s"
  using assms by (simp add: modify_with_def bnd_def)

text \<open>Ids handed out through the server state: never one below \<open>ids_used\<close>.\<close>

definition id_inv :: "'w ext \<Rightarrow> 'w server \<Rightarrow> bool" where
  "id_inv E s \<longleftrightarrow> snow_inv (clock_ms E) (worker s, world s)"

definition ids_used :: "'w server \<Rightarrow> nat" where
  "ids_used s = snow_free (worker s, world s)"

lemma id_state_cong: "worker s' = worker s \<Longrightarrow> id_inv E s' = id_inv E s \<and> ids_used s' = ids_used s"
  by (simp add: id_inv_def ids_used_def snow_inv_def snow_free_def)

lemma next_id_fresh:
  assumes "id_inv E s" and "next_id E s = Some (Inr i, s')"
  shows "id_inv E s' \<and> ids_used s \<le> unat i \<and> ids_used s' = Suc (unat i)
    \<and> calls s' = calls s \<and> tables s' = tables s"
proof -
  obtain wk w where n: "nextId (clock_ms E) (worker s, world s) = Some (Inr i, wk, w)"
    and s': "s' = s\<lparr>worker := wk, world := w\<rparr>"
    using assms(2) by (auto simp: next_id_def split: option.splits prod.splits)
  from snow.id_fresh [OF assms(1) [unfolded id_inv_def] n] s' show ?thesis
    by (simp add: id_inv_def ids_used_def tables_def)
qed

definition comment_fields :: "json \<Rightarrow> exn + (string \<times> string \<times> string \<times> string)" where
  "comment_fields j = (case str_field j ''replyCommentId'' of Inl e \<Rightarrow> Inl e | Inr r \<Rightarrow>
     (case str_field j ''publisherId'' of Inl e \<Rightarrow> Inl e | Inr p \<Rightarrow>
       (case str_field j ''videoId'' of Inl e \<Rightarrow> Inl e | Inr v \<Rightarrow>
         (case str_field j ''content'' of Inl e \<Rightarrow> Inl e | Inr c \<Rightarrow> Inr (r, p, v, c)))))"

lemma modify_Comment_eq:
  "modify_Comment E j = bnd (next_id E) (\<lambda>i. bnd (lift_sum (comment_fields j))
     (\<lambda>(r, p, v, c). run_sql E (sql_add_comment (id_string i) r p v c)))"
  unfolding modify_Comment_def comment_fields_def field_def
  by (intro arg_cong [where f = "bnd (next_id E)"] ext) (auto split: sum.split)

lemma modify_Comment_fresh:
  assumes "id_inv E s" and "modify_Comment E j s = Some (Inr (), s')"
  obtains i r p v c where "comment_fields j = Inr (r, p, v, c)"
    and "calls s' = calls s @ [Execute (sql_add_comment (id_string i) r p v c)]"
    and "id_inv E s'" and "ids_used s \<le> unat i" and "ids_used s' = Suc (unat i)"
proof -
  obtain i s1 where i: "next_id E s = Some (Inr i, s1)"
    and rest: "bnd (lift_sum (comment_fields j))
      (\<lambda>(r, p, v, c). run_sql E (sql_add_comment (id_string i) r p v c)) s1 = Some (Inr (), s')"
    using assms(2) unfolding modify_Comment_eq by (auto elim: bnd_SomeE)
  note fresh = next_id_fresh [OF assms(1) i]
  obtain r p v c where f: "comment_fields j = Inr (r, p, v, c)"
    and s': "s' = s1\<lparr>world := snd (mysql_execute E (sql_add_comment (id_string i) r p v c) (world s1)),
        calls := calls s1 @ [Execute (sql_add_comment (id_string i) r p v c)]\<rparr>"
    using rest by (cases "comment_fields j") (auto simp: run_sql_app)
  have "worker s' = worker s1" by (simp add: s')
  then have "id_inv E s' = id_inv E s1 \<and> ids_used s' = ids_used s1" by (rule id_state_cong)
  with fresh f s' show ?thesis by (intro that [OF f, of i]) auto
qed

text \<open>The commands of a run of comments, with the ids they were given.\<close>

definition comment_command :: "64 word \<Rightarrow> json \<Rightarrow> call" where
  "comment_command i j = (case comment_fields j of
     Inl e \<Rightarrow> Execute []
   | Inr (r, p, v, c) \<Rightarrow> Execute (sql_add_comment (id_string i) r p v c))"

lemma comments_fresh:
  assumes "id_inv E s" and "for_each js (modify_Comment E) s = Some (Inr (), s')"
  shows "\<exists>ids. length ids = length js \<and> calls s' = calls s @ map2 comment_command ids js
    \<and> sorted_wrt (<) ids \<and> (\<forall>i \<in> set ids. ids_used s \<le> unat i)"
  using assms
proof (induction js arbitrary: s)
  case Nil
  then show ?case by simp
next
  case (Cons j js)
  obtain s1 where 1: "modify_Comment E j s = Some (Inr (), s1)"
    and rest: "for_each js (modify_Comment E) s1 = Some (Inr (), s')"
    using Cons.prems(2) by (auto elim: bnd_SomeE)
  obtain i r p v c where f: "comment_fields j = Inr (r, p, v, c)"
    "calls s1 = calls s @ [Execute (sql_add_comment (id_string i) r p v c)]"
    "id_inv E s1" "ids_used s \<le> unat i" "ids_used s1 = Suc (unat i)"
    using modify_Comment_fresh [OF Cons.prems(1) 1] .
  obtain ids where ids: "length ids = length js" "calls s' = calls s1 @ map2 comment_command ids js"
    "sorted_wrt (<) ids" "\<forall>i \<in> set ids. ids_used s1 \<le> unat i"
    using Cons.IH [OF f(3) rest] by blast
  have "\<forall>i' \<in> set ids. i < i'" using ids(4) f(5) by (auto simp: word_less_nat_alt)
  with ids f show ?case
    by (intro exI [of _ "i # ids"]) (auto simp: comment_command_def)
qed

lemma id_string_inj: "id_string i = id_string i' \<longleftrightarrow> i = i'"
  by (simp add: id_string_def dec_nat_inj word_unat_eq_iff)

text \<open>A follow request as a client prints it.\<close>

definition follow_request :: "string \<Rightarrow> string \<Rightarrow> bool \<Rightarrow> json" where
  "follow_request u f b = JObject [(''followerId'', JString f), (''ifFollow'', JBool b),
     (''infotype'', JUnsigned 3), (''userId'', JString u)]"

lemma follow_request_fields:
  "enum_field (follow_request u f b) ''infotype'' = Inr (infotype_int InfoType.Follow)"
  "str_field (follow_request u f b) ''userId'' = Inr u"
  "str_field (follow_request u f b) ''followerId'' = Inr f"
  "bool_field (follow_request u f b) ''ifFollow'' = Inr b"
  by (simp_all add: follow_request_def enum_field_def str_field_def bool_field_def field_with_def
      json_index_def json_string_def json_bool_def json_enum_def get_arithmetic_value_def word_to_int_def)

lemma follow_request_parses:
  "dump (follow_request u f b) = Inr buf \<Longrightarrow> json_parse buf = Inr (follow_request u f b)"
  using parse_dump [of "follow_request u f b" buf 0] by (simp add: follow_request_def)

lemma follow_request_prints: "\<exists>buf. dump (follow_request ''8'' ''9'' b) = Inr buf"
  by (simp add: follow_request_def dump_eval)

lemma follow_request_runs:
  assumes "dump (follow_request u f b) = Inr buf"
  shows "modify_info_sock E k buf s = Some (Inr (), s\<lparr>
    world := snd (mysql_execute E (if b then sql_follow u f else sql_unfollow u f) (world s)),
    calls := calls s @ [Execute (if b then sql_follow u f else sql_unfollow u f)]\<rparr>)"
  unfolding modify_info_sock_def modify_with_app [OF follow_request_parses [OF assms] follow_request_fields(1)]
  by (simp add: modify_case_def modify_Follow_def toggle_def field_app follow_request_fields run_sql_app)

section \<open>Properties\<close>

text \<open>
  No modification request, well-formed or not, on whatever outcome, changes the connection
  tables: it can neither log a connection in nor drop it or reset its heartbeat.
\<close>

theorem modify_keeps_connections:
  assumes "modify_info_sock E k buf s = Some (r, s')"
  shows "m_map s' = m_map s \<and> m_map_boost s' = m_map_boost s"
proof -
  have "keeps (unchanged connections) (modify_info_sock E k buf)"
    unfolding modify_info_sock_def by (intro keeps_modify_with keeps_send) simp
  with assms show ?thesis by (auto simp: keeps_def unchanged_def connections_def)
qed

theorem modify_keeps_connections_witness:
  "\<exists>buf s'. modify_info_sock sample_ext 1 buf (sample_server\<lparr>m_map_boost := [1 \<mapsto> fresh_info []]\<rparr>) = Some (Inr (), s')
    \<and> calls s' = [Execute (sql_follow ''8'' ''9'')] \<and> m_map_boost s' = [1 \<mapsto> fresh_info []]"
proof -
  let ?s = "sample_server\<lparr>m_map_boost := [1 \<mapsto> fresh_info []]\<rparr>"
  obtain buf where "dump (follow_request ''8'' ''9'' True) = Inr buf" using follow_request_prints by blast
  then obtain s' where s': "modify_info_sock sample_ext 1 buf ?s = Some (Inr (), s')"
    "calls s' = [Execute (sql_follow ''8'' ''9'')]"
    by (auto simp: follow_request_runs sample_server_def)
  from modify_keeps_connections [OF s'(1)] have "m_map_boost s' = [1 \<mapsto> fresh_info []]" by simp
  with s' show ?thesis by blast
qed

text \<open>
  A request that does not parse, that has no numeric \<open>infotype\<close>, or whose type is not one of
  the eight handled cases, does nothing at all; the first two leave the handler with an exception.
\<close>

theorem modify_rejects:
  "modify_info_sock E k buf s = (case json_parse buf of
      Inl e \<Rightarrow> Some (Inl e, s)
    | Inr j \<Rightarrow> (case enum_field j ''infotype'' of
        Inl e \<Rightarrow> Some (Inl e, s)
      | Inr i \<Rightarrow> if infotype_of i \<in> Some ` {InfoType.Comment, InfoType.Video, InfoType.VideoLike,
            InfoType.CommentLike, InfoType.Follow, InfoType.LiveList, InfoType.NickName, InfoType.VideoProfile}
          then modify_case E (send_sock E k) j (infotype_of i) s
          else Some (Inr (), s)))"
  by (auto simp: modify_info_sock_def modify_with_def modify_case_def bnd_def
      split: option.split InfoType.split sum.split)

text \<open>
  Following and unfollowing, as one toggle: a well-formed request sends exactly one command,
  the insertion when the flag is set and the deletion otherwise, for the pair of ids given, and
  returns normally whatever the database answers.
\<close>

theorem follow_toggle:
  assumes "json_parse buf = Inr j" and "enum_field j ''infotype'' = Inr (infotype_int InfoType.Follow)"
    and "str_field j ''userId'' = Inr u" and "str_field j ''followerId'' = Inr f"
    and "bool_field j ''ifFollow'' = Inr b"
  shows "\<exists>w. modify_info_sock E k buf s = Some (Inr (), s\<lparr>world := w,
    calls := calls s @ [Execute (if b then sql_follow u f else sql_unfollow u f)]\<rparr>)"
  unfolding modify_info_sock_def modify_with_app [OF assms(1,2)] using assms(3-5)
  by (auto simp: modify_case_def modify_Follow_def toggle_def field_app run_sql_app)

theorem follow_toggle_witness:
  "\<exists>buf w. dump (follow_request ''8'' ''9'' False) = Inr buf \<and>
    modify_info_sock sample_ext 1 buf sample_server
      = Some (Inr (), sample_server\<lparr>world := w, calls := [Execute (sql_unfollow ''8'' ''9'')]\<rparr>)"
proof -
  obtain buf where buf: "dump (follow_request ''8'' ''9'' False) = Inr buf" using follow_request_prints by blast
  from follow_toggle [OF follow_request_parses [OF this] follow_request_fields, of sample_ext 1 sample_server] buf
  show ?thesis by (auto simp: sample_server_def)
qed

text \<open>
  Deleting a video: the suffix is looked up, the file is removed under the path as the C
  library sees it, and both deletions are sent, in this order, whether or not the lookup found a
  row, the file existed or the first deletion succeeded.
\<close>

theorem video_deletion:
  assumes "json_parse buf = Inr j" and "enum_field j ''infotype'' = Inr (infotype_int InfoType.Video)"
    and "str_field j ''videoId'' = Inr v"
    and "fst (mysql_store E (sql_video_suffix v) (world s)) = res"
    and "res = None \<or> res = Some [] \<or> (\<exists>cells rows. res = Some ((suffix # cells) # rows))"
  shows "\<exists>w. modify_info_sock E k buf s = Some (Inr (), s\<lparr>world := w, calls := calls s @
    [Store (sql_video_suffix v),
     Remove_file (c_str (VIDEO_URL @ v @ (if res = None \<or> res = Some [] then [] else suffix))),
     Execute (sql_delete_video v), Execute (sql_delete_video_likes v)]\<rparr>)"
proof -
  let ?s = "s\<lparr>world := snd (mysql_store E (sql_video_suffix v) (world s)), calls := calls s @ [Store (sql_video_suffix v)]\<rparr>"
  let ?suffix = "if res = None \<or> res = Some [] then [] else suffix"
  have cell: "first_cell res 0 ?s = Some (Inr ?suffix, ?s)"
    using assms(5) by (auto simp: first_cell_def row_at_def)
  have run: "modify_info_sock E k buf s
      = bnd (first_cell res 0) (\<lambda>videoSuffix. bnd (remove_file E (c_str (VIDEO_URL @ v @ videoSuffix)))
          (\<lambda>_. bnd (run_sql E (sql_delete_video v)) (\<lambda>_. run_sql E (sql_delete_video_likes v)))) ?s"
    unfolding modify_info_sock_def modify_with_app [OF assms(1,2)] using assms(3,4)
    by (simp add: modify_case_def modify_Video_def field_app query_store_app)
  show ?thesis unfolding run bnd_InrI [where m = "first_cell res 0" and s = ?s, OF cell]
    by (auto simp: bnd_def remove_file_def run_sql_app log_call_def split: prod.split)
qed

text \<open>A video deletion request as a client prints it.\<close>

definition video_request :: "string \<Rightarrow> json" where
  "video_request v = JObject [(''infotype'', JUnsigned 7), (''videoId'', JString v)]"

lemma video_request_fields:
  "enum_field (video_request v) ''infotype'' = Inr (infotype_int InfoType.Video)"
  "str_field (video_request v) ''videoId'' = Inr v"
  by (simp_all add: video_request_def enum_field_def str_field_def field_with_def
      json_index_def json_string_def json_enum_def get_arithmetic_value_def word_to_int_def)

theorem video_deletion_witness:
  "\<exists>buf w. dump (video_request ''7'') = Inr buf \<and>
    modify_info_sock sample_ext 1 buf sample_server = Some (Inr (), sample_server\<lparr>world := w, calls :=
      [Store (sql_video_suffix ''7''), Remove_file (VIDEO_URL @ ''7''),
       Execute (sql_delete_video ''7''), Execute (sql_delete_video_likes ''7'')]\<rparr>)"
proof -
  have "\<exists>buf. dump (video_request ''7'') = Inr buf"
    by (simp add: video_request_def dump_eval)
  then obtain buf where buf: "dump (video_request ''7'') = Inr buf" by blast
  have "json_parse buf = Inr (video_request ''7'')"
    using parse_dump [OF buf, of 0] by (simp add: video_request_def)
  note d = video_deletion [OF this video_request_fields, of sample_ext sample_server "Some []" "[]" 1]
  have "c_str (VIDEO_URL @ ''7'') = VIDEO_URL @ ''7''" by (simp add: VIDEO_URL_def)
  with d buf show ?thesis by (auto simp: sample_defs)
qed

text \<open>
  Starting a stream: the user is entered in the live list with the url made from the id,
  unless already listed, and this holds even if sending the reply fails afterwards; stopping
  removes the user, sends nothing and always succeeds.
\<close>

theorem live_stream_toggle:
  assumes "json_parse buf = Inr j" and "enum_field j ''infotype'' = Inr (infotype_int InfoType.LiveList)"
    and "str_field j ''userId'' = Inr u" and "bool_field j ''ifStart'' = Inr b"
    and "modify_info_sock E k buf s = Some (r, s')"
  shows "m_liveList s' = (if b then map_insert u (live_url u) (m_liveList s) else (m_liveList s)(u := None))
    \<and> (\<not> b \<longrightarrow> r = Inr () \<and> calls s' = calls s)
    \<and> (b \<and> r = Inr () \<longrightarrow> (\<exists>np n. sendLiveInfo_P (json_object [(''url'', JString (live_url u))]) = Inr np
        \<and> calls s' = calls s @ [Sent (Sock k) (take n (packet_bytes np))]))"
proof -
  have "modify_LiveList (send_sock E k) j s = Some (r, s')"
    using assms(5) unfolding modify_info_sock_def modify_with_app [OF assms(1,2)] by (simp add: modify_case_def)
  then show ?thesis using assms(3,4)
    by (auto simp: modify_LiveList_def field_def live_add_def live_remove_def
        reply_def send_sock_def boost_write_def bnd_def log_call_def
        split: if_splits sum.splits option.splits prod.splits)
qed

theorem live_stream_toggle_witness:
  "\<exists>buf s'. dump (JObject [(''ifStart'', JBool True), (''infotype'', JUnsigned 6), (''userId'', JString ''9'')]) = Inr buf
    \<and> modify_info_sock sample_ext 1 buf sample_server = Some (Inr (), s') \<and> m_liveList s' = [''9'' \<mapsto> live_url ''9'']"
proof -
  let ?j = "JObject [(''ifStart'', JBool True), (''infotype'', JUnsigned 6), (''userId'', JString ''9'')]"
  have fields: "enum_field ?j ''infotype'' = Inr (infotype_int InfoType.LiveList)"
    "str_field ?j ''userId'' = Inr ''9''" "bool_field ?j ''ifStart'' = Inr True"
    by (simp_all add: enum_field_def str_field_def bool_field_def field_with_def json_index_def
        json_string_def json_bool_def json_enum_def get_arithmetic_value_def word_to_int_def)
  have "\<exists>buf. dump ?j = Inr buf" by (simp add: dump_eval)
  then obtain buf where buf: "dump ?j = Inr buf" by blast
  then have parse: "json_parse buf = Inr ?j" using parse_dump [OF buf, of 0] by simp
  have "\<exists>np. sendLiveInfo_P (json_object [(''url'', JString (live_url ''9''))]) = Inr np"
    unfolding sendLiveInfo_P_def
    by (rule exI, rule make_packet_fits) (simp add: json_object_def live_url_def dump_eval
        enum_json_def dump_integer_dec dec_int_def dec_nat.simps, simp add: BUF_SIZE_def)
  then obtain s' where s': "modify_info_sock sample_ext 1 buf sample_server = Some (Inr (), s')"
    unfolding modify_info_sock_def modify_with_app [OF parse fields(1)]
    by (auto simp: modify_case_def modify_LiveList_def field_def fields live_add_def reply_def
        send_sock_def boost_write_def bnd_def sample_defs)
  from live_stream_toggle [OF parse fields s'] have "m_liveList s' = [''9'' \<mapsto> live_url ''9'']"
    by (simp add: sample_defs map_insert_def)
  with buf s' show ?thesis by blast
qed

text \<open>
  C37: In any run of comment requests that is carried out, every comment is stored under an id of
  its own: the decimal ids in the insertions are pairwise different (and increase as numbers), and
  none of them was used before the run.
\<close>

theorem comment_ids_distinct:
  assumes "id_inv E s" and "for_each js (modify_Comment E) s = Some (Inr (), s')"
  shows "\<exists>ids. length ids = length js \<and> calls s' = calls s @ map2 comment_command ids js
    \<and> sorted_wrt (<) ids \<and> distinct (map id_string ids) \<and> (\<forall>i \<in> set ids. ids_used s \<le> unat i)"
proof -
  obtain ids where ids: "length ids = length js" "calls s' = calls s @ map2 comment_command ids js"
    "sorted_wrt (<) ids" "\<forall>i \<in> set ids. ids_used s \<le> unat i"
    using comments_fresh [OF assms] by blast
  moreover have "distinct ids" using ids(3) by (simp add: strict_sorted_iff)
  ultimately show ?thesis by (auto simp: distinct_map inj_on_def id_string_inj)
qed

text \<open>A clock that reads the epoch first and the next millisecond from then on.\<close>

definition steady_ext :: "sample ext" where
  "steady_ext = sample_ext\<lparr>clock_ms := (\<lambda>w. (if now w = twepoch then twepoch else twepoch + 1, w\<lparr>now := now w + 1\<rparr>))\<rparr>"

theorem comment_ids_distinct_witness:
  "\<exists>ids s' j. for_each [j, j] (modify_Comment steady_ext) sample_server = Some (Inr (), s')
    \<and> length ids = 2 \<and> distinct (map id_string ids) \<and> calls s' = map2 comment_command ids [j, j]"
proof -
  let ?j = "JObject [(''content'', JString ''c''), (''publisherId'', JString ''p''),
     (''replyCommentId'', JString ''r''), (''videoId'', JString ''v'')]"
  have f: "comment_fields ?j = Inr (''r'', ''p'', ''v'', ''c'')"
    by (simp add: comment_fields_def str_field_def field_with_def json_index_def json_string_def)
  have inv: "id_inv steady_ext sample_server"
    by (auto simp: id_inv_def snow_inv_def clock_in_range_def ts_ok_def steady_ext_def sample_server_def
        new_IdWorker_def id_wf_def twepoch_def)
  obtain s' where s': "for_each [?j, ?j] (modify_Comment steady_ext) sample_server = Some (Inr (), s')"
    by (simp add: modify_Comment_eq f next_id_def steady_ext_def sample_defs nextId_def new_IdWorker_def
        twepoch_def Let_def run_sql_def query_execute_def bnd_def log_call_def)
  have "calls sample_server = []" by (simp add: sample_server_def)
  with comment_ids_distinct [OF inv s'] obtain ids where
    "length ids = length [?j, ?j]" "calls s' = map2 comment_command ids [?j, ?j]" "distinct (map id_string ids)"
    by (metis append_Nil)
  with s' show ?thesis
    by (intro exI [of _ ids] exI [of _ s'] exI [of _ ?j] conjI, (assumption | simp)+)
qed

end
