(* ===== verification/ReceiveFile.thy ===== *)
theory ReceiveFile
  imports ModifyInfo
begin

text \<open>
  \<^verbatim>\<open>receivefilecontrol.cpp\<close>: storing an uploaded file, recording it in the database and, for a
  video, telling the client its new id and every follower of the publisher about it.  One
  definition per file type; each yields the file path, the command and the video id that the
  common tail of the function works with.  The overloads differ in the reply call and in the
  quoting of one command.
\<close>

section \<open>SQL commands\<close>

definition sql_picture_fd :: "string \<Rightarrow> string \<Rightarrow> string" where
  "sql_picture_fd suffix uid = ''update User set pictureSuffix='' @ quoted suffix @ '' where id='' @ quoted uid"

definition sql_picture_sock :: "string \<Rightarrow> string \<Rightarrow> string" where
  "sql_picture_sock suffix uid = ''update User set pictureSuffix='' @ quoted suffix @ '' where id='' @ uid"

text \<open>The insertion into the message table, shared with the chat requests.\<close>

definition sql_message :: "string \<Rightarrow> string \<Rightarrow> MessageType \<Rightarrow> string \<Rightarrow> string" where
  "sql_message sendId receiveId t content =
     ''insert into Message(sendId, receiveId, messageType, message, time) values('' @ quoted sendId
     @ '', '' @ quoted receiveId @ '', '' @ quoted (dec_int (messagetype_int t)) @ '', '' @ quoted content
     @ '', (select now()))''"

definition sql_preview :: "string \<Rightarrow> string \<Rightarrow> string" where
  "sql_preview suffix videoId =
     ''update Video set previewSuffix = '' @ quoted suffix @ '' where id = '' @ quoted videoId"

definition sql_add_video :: "string \<Rightarrow> string \<Rightarrow> string \<Rightarrow> string \<Rightarrow> string" where
  "sql_add_video videoId publisherId suffix profile =
     ''insert into Video(id, publisherId, videoSuffix, profile, time) values('' @ quoted videoId @ '', ''
     @ quoted publisherId @ '', '' @ quoted suffix @ '', '' @ quoted profile @ '',(select now()))''"

definition sql_followers :: "string \<Rightarrow> string" where
  "sql_followers uid = ''select followerId from Follow where userId = '' @ uid"

definition sql_push :: "string \<Rightarrow> string \<Rightarrow> string" where
  "sql_push followerId videoId = ''insert into VideoPush Values('' @ quoted followerId @ '', '' @ quoted videoId @ '')''"

section \<open>The cases\<close>

text \<open>What a case leaves in \<open>filepath\<close>, \<open>command\<close> and \<open>videoId\<close>.\<close>

record upload =
  filepath :: string
  command :: string
  videoId :: string

definition filetype_is :: "json \<Rightarrow> FileType \<Rightarrow> ('w, bool) srv" where
  "filetype_is jsonMsg t =
     bnd (lift_sum (json_index jsonMsg ''filetype'')) (\<lambda>v. ret (json_eq_enum v (filetype_int t)))"

definition receive_ProfilePicture :: "(string \<Rightarrow> string \<Rightarrow> string) \<Rightarrow> json \<Rightarrow> ('w, upload) srv" where
  "receive_ProfilePicture sql_picture jsonMsg =
     bnd (field jsonMsg ''id'') (\<lambda>uid.
     bnd (field jsonMsg ''suffix'') (\<lambda>suffix.
       ret \<lparr>filepath = PROFILE_PICTURE_URL @ uid @ suffix, command = sql_picture suffix uid, videoId = []\<rparr>))"

definition receive_ChatImg :: "'w ext \<Rightarrow> json \<Rightarrow> ('w, upload) srv" where
  "receive_ChatImg E jsonMsg =
     bnd (next_id E) (\<lambda>i.
     bnd (field jsonMsg ''suffix'') (\<lambda>suffix.
     bnd (field jsonMsg ''sendId'') (\<lambda>sendId.
     bnd (field jsonMsg ''receiveId'') (\<lambda>receiveId.
       ret \<lparr>filepath = CHAT_PICTURE_URL @ id_string i @ suffix,
            command = sql_message sendId receiveId MessageType.ChatImg (id_string i @ suffix), videoId = []\<rparr>))))"

definition receive_VideoPreviewImg :: "json \<Rightarrow> ('w, upload) srv" where
  "receive_VideoPreviewImg jsonMsg =
     bnd (field jsonMsg ''id'') (\<lambda>vid.
     bnd (field jsonMsg ''suffix'') (\<lambda>suffix.
       ret \<lparr>filepath = PREVIEW_PICTURE_URL @ vid @ suffix, command = sql_preview suffix vid, videoId = []\<rparr>))"

definition receive_Video :: "'w ext \<Rightarrow> 'w sender \<Rightarrow> json \<Rightarrow> ('w, upload) srv" where
  "receive_Video E send jsonMsg =
     bnd (next_id E) (\<lambda>i.
     bnd (field jsonMsg ''suffix'') (\<lambda>suffix.
     bnd (field jsonMsg ''id'') (\<lambda>publisherId.
     bnd (field jsonMsg ''profile'') (\<lambda>profile.
     bnd (reply send (sendVideoId_P (id_string i))) (\<lambda>_.
       ret \<lparr>filepath = VIDEO_URL @ id_string i @ suffix,
            command = sql_add_video (id_string i) publisherId suffix profile, videoId = id_string i\<rparr>)))))"

text \<open>The \<open>if\<close> chain; no case applies to an unknown type, and the strings stay empty.\<close>

definition receive_case :: "'w ext \<Rightarrow> 'w sender \<Rightarrow> (string \<Rightarrow> string \<Rightarrow> string) \<Rightarrow> json \<Rightarrow> ('w, upload) srv" where
  "receive_case E send sql_picture jsonMsg =
     bnd (filetype_is jsonMsg FileType.ProfilePicture) (\<lambda>b. if b then receive_ProfilePicture sql_picture jsonMsg else
     bnd (filetype_is jsonMsg FileType.ChatImg) (\<lambda>b. if b then receive_ChatImg E jsonMsg else
     bnd (filetype_is jsonMsg FileType.VideoPreviewImg) (\<lambda>b. if b then receive_VideoPreviewImg jsonMsg else
     bnd (filetype_is jsonMsg FileType.Video) (\<lambda>b. if b then receive_Video E send jsonMsg else
       ret \<lparr>filepath = [], command = [], videoId = []\<rparr>))))"

text \<open>The last step for a video: one row per follower.\<close>

definition push_video :: "'w ext \<Rightarrow> json \<Rightarrow> string \<Rightarrow> ('w, unit) srv" where
  "push_video E jsonMsg vid =
     bnd (field jsonMsg ''id'') (\<lambda>publisherId.
     bnd (query_store E (sql_followers publisherId)) (\<lambda>res.
       case res of
         None \<Rightarrow> ret ()
       | Some rows \<Rightarrow> for_each rows (\<lambda>row.
           bnd (lift_sum (row_at row 0)) (\<lambda>followerId. run_sql E (sql_push followerId vid)))))"

definition receive_with ::
  "'w ext \<Rightarrow> 'w sender \<Rightarrow> (string \<Rightarrow> string \<Rightarrow> string) \<Rightarrow> string \<Rightarrow> string \<Rightarrow> ('w, bool) srv" where
  "receive_with E send sql_picture fileInfo fileData =
     bnd (lift_sum (json_parse fileInfo)) (\<lambda>jsonMsg.
     bnd (receive_case E send sql_picture jsonMsg) (\<lambda>u.
     bnd (write_file E (c_str (filepath u)) fileData) (\<lambda>_.
     bnd (run_sql E (command u)) (\<lambda>_.
     bnd (filetype_is jsonMsg FileType.Video) (\<lambda>b.
     bnd (if b then push_video E jsonMsg (videoId u) else ret ()) (\<lambda>_.
       ret True))))))"

definition receive_file_fd :: "'w ext \<Rightarrow> int \<Rightarrow> string \<Rightarrow> string \<Rightarrow> ('w, bool) srv" where
  "receive_file_fd E fd fileInfo fileData = receive_with E (send_fd E fd) sql_picture_fd fileInfo fileData"

definition receive_file_sock :: "'w ext \<Rightarrow> nat \<Rightarrow> string \<Rightarrow> string \<Rightarrow> ('w, bool) srv" where
  "receive_file_sock E k fileInfo fileData = receive_with E (send_sock E k) sql_picture_sock fileInfo fileData"

section \<open>What they do\<close>

lemma keeps_tables_next_id: "keeps (unchanged tables) (next_id E)"
  by (rule keeps_next_id)

lemma keeps_filetype_is: "keeps (unchanged f) (filetype_is j t)"
  by (auto simp: filetype_is_def intro: part.keeps_rules)

lemma keeps_receive_with:
  assumes "\<And>p. keeps (unchanged tables) (send p)"
  shows "keeps (unchanged tables) (receive_with E send sql fileInfo fileData)"
proof -
  have "keeps (unchanged tables) (push_video E j vid)" for j vid
    by (auto simp: push_video_def intro!: keeps_handler keeps_split)
  moreover have "keeps (unchanged tables) (receive_case E send sql j)" for j
    by (auto simp: receive_case_def receive_ProfilePicture_def receive_ChatImg_def receive_VideoPreviewImg_def
        receive_Video_def intro!: keeps_handler keeps_filetype_is keeps_next_id assms)
  ultimately show ?thesis
    by (auto simp: receive_with_def intro!: keeps_handler keeps_filetype_is)
qed

lemma filetype_app [handler_simps]: "json_index j ''filetype'' = Inr v \<Longrightarrow>
    bnd (filetype_is j t) f s = f (json_eq_enum v (filetype_int t)) s"
  by (simp add: filetype_is_def bnd_def)

lemma write_file_app [handler_simps]: "bnd (write_file E p bs) f s = f () (s\<lparr>world := file_write E p bs (world s),
    calls := calls s @ [Write_file p bs]\<rparr>)"
  by (simp add: write_file_def bnd_def log_call_def)

lemma bnd_run_sql [handler_simps]: "bnd (run_sql E c) f s = f () (s\<lparr>world := snd (mysql_execute E c (world s)),
    calls := calls s @ [Execute c]\<rparr>)"
  by (simp add: bnd_def run_sql_app)

text \<open>The pushes to the followers, one per row, in the order of the rows.\<close>

lemma push_rows:
  assumes "\<forall>row \<in> set rows. row \<noteq> []"
  shows "\<exists>w. for_each rows (\<lambda>row. bnd (lift_sum (row_at row 0)) (\<lambda>f. run_sql E (sql_push f vid))) s
    = Some (Inr (), s\<lparr>world := w, calls := calls s @ map (\<lambda>row. Execute (sql_push (row ! 0) vid)) rows\<rparr>)"
  using assms
proof (induction rows arbitrary: s)
  case Nil
  then show ?case by (intro exI [of _ "world s"]) simp
next
  case (Cons row rows)
  let ?s = "s\<lparr>world := snd (mysql_execute E (sql_push (row ! 0) vid) (world s)),
    calls := calls s @ [Execute (sql_push (row ! 0) vid)]\<rparr>"
  have "row_at row 0 = Inr (row ! 0)" using Cons.prems by (simp add: row_at_def)
  then have step: "bnd (lift_sum (row_at row 0)) (\<lambda>f. run_sql E (sql_push f vid)) s = Some (Inr (), ?s)"
    by (simp add: run_sql_app)
  let ?F = "\<lambda>row. bnd (lift_sum (row_at row 0)) (\<lambda>f. run_sql E (sql_push f vid))"
  have all: "for_each (row # rows) ?F s = for_each rows ?F ?s"
    unfolding for_each.simps by (rule bnd_InrI) (rule step)
  obtain w where "for_each rows ?F ?s = Some (Inr (), ?s\<lparr>world := w,
      calls := calls ?s @ map (\<lambda>row. Execute (sql_push (row ! 0) vid)) rows\<rparr>)"
    using Cons.IH [of ?s] Cons.prems by (auto simp del: lift_sum_app)
  then show ?case unfolding all by (intro exI [of _ w]) simp
qed

text \<open>A value equals at most one enumerator.\<close>

lemma json_eq_enum_unique: "json_eq_enum v i \<Longrightarrow> json_eq_enum v i' \<longleftrightarrow> i' = i"
  by (auto simp: json_eq_enum_def Let_def split: json.splits if_splits)

text \<open>Upload requests as a client prints them.\<close>

definition picture_request :: "string \<Rightarrow> string \<Rightarrow> json" where
  "picture_request u x = JObject [(''filetype'', JUnsigned 0), (''id'', JString u), (''suffix'', JString x)]"

definition video_upload_request :: "string \<Rightarrow> string \<Rightarrow> string \<Rightarrow> json" where
  "video_upload_request u pr x = JObject [(''filetype'', JUnsigned 3), (''id'', JString u),
     (''profile'', JString pr), (''suffix'', JString x)]"

lemma picture_request_fields:
  "json_index (picture_request u x) ''filetype'' = Inr (JUnsigned 0)"
  "str_field (picture_request u x) ''id'' = Inr u" "str_field (picture_request u x) ''suffix'' = Inr x"
  by (simp_all add: picture_request_def str_field_def field_with_def json_index_def json_string_def)

lemma video_upload_request_fields:
  "json_index (video_upload_request u pr x) ''filetype'' = Inr (JUnsigned 3)"
  "str_field (video_upload_request u pr x) ''suffix'' = Inr x"
  "str_field (video_upload_request u pr x) ''id'' = Inr u"
  "str_field (video_upload_request u pr x) ''profile'' = Inr pr"
  by (simp_all add: video_upload_request_def str_field_def field_with_def json_index_def json_string_def)

lemma upload_requests_parse:
  "dump (picture_request u x) = Inr m \<Longrightarrow> json_parse m = Inr (picture_request u x)"
  "dump (video_upload_request u pr x) = Inr m \<Longrightarrow> json_parse m = Inr (video_upload_request u pr x)"
  using parse_dump [of "picture_request u x" m 0] parse_dump [of "video_upload_request u pr x" m 0]
  by (simp_all add: picture_request_def video_upload_request_def)

lemma upload_requests_print:
  "\<exists>m. dump (picture_request ''7'' ''.png'') = Inr m" "\<exists>m. dump (video_upload_request ''7'' ''p'' ''.mp4'') = Inr m"
  by (simp_all add: picture_request_def video_upload_request_def dump_eval)

lemma json_eq_enum_0: "json_eq_enum (JUnsigned 0) 0" and json_eq_enum_3: "json_eq_enum (JUnsigned 3) 3"
  by (simp_all add: json_eq_enum_def)

section \<open>Properties\<close>

text \<open>
  Storing a file changes neither the connection tables nor the live list, whatever the
  request says and however it ends.
\<close>

theorem receive_keeps_tables:
  assumes "receive_file_sock E k fileInfo fileData s = Some (r, s')"
  shows "m_map s' = m_map s \<and> m_map_boost s' = m_map_boost s \<and> m_liveList s' = m_liveList s"
proof -
  have "keeps (unchanged tables) (receive_file_sock E k fileInfo fileData)"
    unfolding receive_file_sock_def by (intro keeps_receive_with keeps_send) simp
  with assms show ?thesis by (auto simp: keeps_def unchanged_def tables_def)
qed

theorem receive_keeps_tables_witness:
  "\<exists>m r s'. dump (picture_request ''7'' ''.png'') = Inr m
    \<and> receive_file_sock sample_ext 1 m ''bytes'' (sample_server\<lparr>m_liveList := [''7'' \<mapsto> ''u'']\<rparr>) = Some (r, s')
    \<and> calls s' \<noteq> [] \<and> m_liveList s' = [''7'' \<mapsto> ''u'']"
proof -
  let ?s = "sample_server\<lparr>m_liveList := [''7'' \<mapsto> ''u'']\<rparr>"
  obtain m where m: "dump (picture_request ''7'' ''.png'') = Inr m" using upload_requests_print by blast
  then obtain r s' where s': "receive_file_sock sample_ext 1 m ''bytes'' ?s = Some (r, s')" "calls s' \<noteq> []"
    using upload_requests_parse(1) [OF m] json_eq_enum_unique [OF json_eq_enum_0]
    by (simp add: receive_file_sock_def receive_with_def receive_case_def receive_ProfilePicture_def
        picture_request_fields bnd_assoc filetype_app field_app write_file_app bnd_run_sql)
  from receive_keeps_tables [OF s'(1)] have "m_liveList s' = [''7'' \<mapsto> ''u'']" by simp
  with m s' show ?thesis by blast
qed

text \<open>
  Uploading a profile picture: the bytes are written under the path built from the id and
  the suffix, as the C library reads it, then the user row is updated; nothing is sent and no
  id is drawn.
\<close>

theorem picture_upload:
  assumes "json_parse fileInfo = Inr j" and "json_index j ''filetype'' = Inr v" and "json_eq_enum v 0"
    and "str_field j ''id'' = Inr u" and "str_field j ''suffix'' = Inr x"
  shows "\<exists>w. receive_file_sock E k fileInfo fileData s = Some (Inr True, s\<lparr>world := w, calls := calls s @
    [Write_file (c_str (PROFILE_PICTURE_URL @ u @ x)) fileData, Execute (sql_picture_sock x u)]\<rparr>)"
proof -
  have "\<not> json_eq_enum v 3" using json_eq_enum_unique [OF assms(3)] by simp
  then show ?thesis using assms
    by (simp add: receive_file_sock_def receive_with_def receive_case_def receive_ProfilePicture_def
        bnd_assoc filetype_app field_app write_file_app bnd_run_sql) blast
qed

theorem picture_upload_witness:
  "\<exists>m w. dump (picture_request ''7'' ''.png'') = Inr m \<and>
    receive_file_sock sample_ext 1 m ''bytes'' sample_server = Some (Inr True, sample_server\<lparr>world := w, calls :=
      [Write_file (PROFILE_PICTURE_URL @ ''7.png'') ''bytes'', Execute (sql_picture_sock ''.png'' ''7'')]\<rparr>)"
proof -
  obtain m where m: "dump (picture_request ''7'' ''.png'') = Inr m" using upload_requests_print by blast
  have "c_str (PROFILE_PICTURE_URL @ ''7'' @ ''.png'') = PROFILE_PICTURE_URL @ ''7.png''"
    by (simp add: PROFILE_PICTURE_URL_def)
  with m picture_upload [OF upload_requests_parse(1) [OF m] picture_request_fields(1) json_eq_enum_0
      picture_request_fields(2,3), of sample_ext 1 "''bytes''" sample_server]
  show ?thesis by (auto simp: sample_server_def)
qed

text \<open>
  C27: Uploading a video, when the publisher's followers can be read and the reply gets through:
  the client is told the new id first, then the file is written, the video is recorded under
  this id, and exactly one push is stored for every follower, in the order of the rows.
\<close>

theorem video_upload:
  assumes "json_parse fileInfo = Inr j" and "json_index j ''filetype'' = Inr v" and "json_eq_enum v 3"
    and "str_field j ''suffix'' = Inr x" and "str_field j ''id'' = Inr u" and "str_field j ''profile'' = Inr pr"
    and "next_id E s = Some (Inr i, s1)" and "reply (send_sock E k) (sendVideoId_P (id_string i)) s1 = Some (Inr (), s2)"
    and "\<And>w. fst (mysql_store E (sql_followers u) w) = Some rows" and "\<forall>row \<in> set rows. row \<noteq> []"
  shows "\<exists>w. receive_file_sock E k fileInfo fileData s = Some (Inr True, s2\<lparr>world := w, calls := calls s2 @
      [Write_file (c_str (VIDEO_URL @ id_string i @ x)) fileData, Execute (sql_add_video (id_string i) u x pr),
       Store (sql_followers u)] @ map (\<lambda>row. Execute (sql_push (row ! 0) (id_string i))) rows\<rparr>)"
proof -
  have ne: "\<not> json_eq_enum v 0" "\<not> json_eq_enum v 1" "\<not> json_eq_enum v 2"
    using json_eq_enum_unique [OF assms(3)] by simp_all
  let ?push = "\<lambda>row. bnd (lift_sum (row_at row 0)) (\<lambda>f. run_sql E (sql_push f (id_string i)))"
  let ?calls = "calls s2 @ [Write_file (c_str (VIDEO_URL @ id_string i @ x)) fileData,
    Execute (sql_add_video (id_string i) u x pr), Store (sql_followers u)]"
  obtain w3 where run: "receive_file_sock E k fileInfo fileData s
      = bnd (for_each rows ?push) (\<lambda>_. ret True) (s2\<lparr>world := w3, calls := ?calls\<rparr>)"
    using assms ne unfolding receive_file_sock_def receive_with_def receive_case_def receive_Video_def
    by (simp add: bnd_assoc filetype_app field_app write_file_app bnd_run_sql push_video_def
        query_store_app bnd_InrI [where m = "next_id E" and s = s, OF assms(7)]
        bnd_InrI [where m = "reply (send_sock E k) (sendVideoId_P (id_string i))" and s = s1, OF assms(8)]
        del: lift_sum_app)
  obtain w where "for_each rows ?push (s2\<lparr>world := w3, calls := ?calls\<rparr>) = Some (Inr (), s2\<lparr>world := w,
      calls := ?calls @ map (\<lambda>row. Execute (sql_push (row ! 0) (id_string i))) rows\<rparr>)"
    using push_rows [OF assms(10), of E "id_string i" "s2\<lparr>world := w3, calls := ?calls\<rparr>"] by auto
  then show ?thesis unfolding run by (auto simp: bnd_def)
qed

theorem video_upload_witness:
  "\<exists>E :: sample ext. \<exists>m s'. dump (video_upload_request ''7'' ''p'' ''.mp4'') = Inr m
    \<and> receive_file_sock E 1 m ''bytes'' sample_server = Some (Inr True, s')
    \<and> (\<exists>i bs. calls s' = [Sent (Sock 1) bs, Write_file (VIDEO_URL @ id_string i @ ''.mp4'') ''bytes'',
        Execute (sql_add_video (id_string i) ''7'' ''.mp4'' ''p''), Store (sql_followers ''7''),
        Execute (sql_push ''8'' (id_string i)), Execute (sql_push ''9'' (id_string i))])"
proof -
  let ?E = "sample_ext\<lparr>mysql_store := (\<lambda>c w. (Some [[''8''], [''9'']], w))\<rparr>"
  obtain m where m: "dump (video_upload_request ''7'' ''p'' ''.mp4'') = Inr m" using upload_requests_print by blast
  have "\<exists>s1. next_id ?E sample_server = Some (Inr 0, s1) \<and> calls s1 = []"
    by (simp add: next_id_def sample_defs nextId_def new_IdWorker_def Let_def compose_id_def twepoch_def)
  then obtain s1 where i: "next_id ?E sample_server = Some (Inr 0, s1)" and c1: "calls s1 = []" by blast
  have "id_string 0 = ''0''" by (simp add: id_string_def dec_nat_0)
  moreover have "\<exists>np. sendVideoId_P ''0'' = Inr np"
    unfolding sendVideoId_P_def
    by (rule exI, rule make_packet_fits) (simp add: json_object_def dump_eval, simp add: BUF_SIZE_def)
  ultimately obtain np where np: "sendVideoId_P (id_string 0) = Inr np" by auto
  obtain s2 where r: "reply (send_sock ?E 1) (sendVideoId_P (id_string 0)) s1 = Some (Inr (), s2)"
    and c2: "calls s2 = [Sent (Sock 1) (packet_bytes np)]"
    using c1 by (simp add: reply_def np send_sock_def boost_write_def bnd_def sample_ext_def log_call_def)
  have "\<And>w. fst (mysql_store ?E (sql_followers ''7'') w) = Some [[''8''], [''9'']]" by simp
  from video_upload [OF upload_requests_parse(2) [OF m] video_upload_request_fields(1) json_eq_enum_3
      video_upload_request_fields(2-4) i r this, of "''bytes''"] c2
  obtain s' where "receive_file_sock ?E 1 m ''bytes'' sample_server = Some (Inr True, s')"
    "calls s' = [Sent (Sock 1) (packet_bytes np), Write_file (c_str (VIDEO_URL @ id_string 0 @ ''.mp4'')) ''bytes'',
      Execute (sql_add_video (id_string 0) ''7'' ''.mp4'' ''p''), Store (sql_followers ''7''),
      Execute (sql_push ''8'' (id_string 0)), Execute (sql_push ''9'' (id_string 0))]" by auto
  moreover have "c_str (VIDEO_URL @ id_string 0 @ ''.mp4'') = VIDEO_URL @ id_string 0 @ ''.mp4''"
    by (simp add: VIDEO_URL_def id_string_def)
  ultimately show ?thesis using m by metis
qed

end
