(* ===== verification/SendFile.thy ===== *)
theory SendFile
  imports ReceiveFile
begin

text \<open>
  \<^verbatim>\<open>sendfilecontrol.cpp\<close>: serving a file.  A file travels as one \<open>FileNetPacket\<close>: header, a fixed
  area for its description and the bytes.  The packet is taken from the heap uninitialised, so
  what \<^verbatim>\<open>strcpy\<close> and \<^verbatim>\<open>read\<close> do not fill is sent as it was; \<open>fresh_heap\<close> gives these bytes.
\<close>

section \<open>The description of a file\<close>

definition getFileSize :: "'w ext \<Rightarrow> string \<Rightarrow> ('w, nat) srv" where
  "getFileSize E fileName = get_st (\<lambda>s. case file_stat E fileName (world s) of None \<Rightarrow> 0 | Some n \<Rightarrow> n)"

definition toJson_PFileInfo :: "FileType \<Rightarrow> string \<Rightarrow> string \<Rightarrow> json" where
  "toJson_PFileInfo filetype i suffix = json_object
     [(''filetype'', enum_json (filetype_int filetype)), (''id'', JString i), (''suffix'', JString suffix)]"

definition toJson_VFileInfo :: "FileType \<Rightarrow> string \<Rightarrow> string \<Rightarrow> string \<Rightarrow> json" where
  "toJson_VFileInfo filetype vid publisherId suffix = json_object
     [(''filetype'', enum_json (filetype_int filetype)), (''videoId'', JString vid),
      (''publisherId'', JString publisherId), (''suffix'', JString suffix)]"

section \<open>The file packet\<close>

text \<open>\<open>bytes\<close> copied to the start of a memory area.\<close>

definition overlay :: "string \<Rightarrow> string \<Rightarrow> string" where
  "overlay bytes area = bytes @ drop (length bytes) area"

definition file_packet_bytes :: "NetPacketHeader \<Rightarrow> string \<Rightarrow> string \<Rightarrow> string \<Rightarrow> string" where
  "file_packet_bytes h info content heap =
     header_bytes h @ overlay (info @ [NUL]) (take BUF_SIZE heap) @ overlay content (drop BUF_SIZE heap)"

text \<open>
  The common text of the four functions \<open>send_pfile\<close> and \<open>send_vfile\<close>; \<open>send\<close> returns the number
  of bytes sent.  The size is an \<open>unsigned int\<close>.
\<close>

definition send_packet_file ::
  "'w ext \<Rightarrow> (string \<Rightarrow> ('w, int) srv) \<Rightarrow> json \<Rightarrow> string \<Rightarrow> ('w, bool) srv" where
  "send_packet_file E send json_fileInfo path =
     bnd (getFileSize E path) (\<lambda>n. let file_size = (word_of_nat n :: 32 word) in
       if file_size = 0
       then bnd (send (header_bytes \<lparr>purpose = word_of_nat (purpose_int GetFile), data_size = 0\<rparr>)) (\<lambda>_. ret False)
       else bnd (get_st (\<lambda>s. file_is_open E path (world s))) (\<lambda>is_open.
         if \<not> is_open then ret False
         else bnd (lift_sum (dump json_fileInfo)) (\<lambda>str_fileInfo.
              bnd (lift_sum (strcpy_data str_fileInfo)) (\<lambda>info.
              if FILE_BUF_SIZE < unat file_size then throw (UB Heap_overflow)
              else bnd (get_st (\<lambda>s. (file_read E path (unat file_size) (world s),
                                     fresh_heap E (BUF_SIZE + unat file_size) (world s)))) (\<lambda>(content, heap).
                bnd (send (file_packet_bytes \<lparr>purpose = word_of_nat (purpose_int GetFile), data_size = file_size\<rparr>
                       info content heap)) (\<lambda>sent.
                  ret (\<not> (sent = 0 \<or> sent = - 1))))))))"

text \<open>The transports: \<^verbatim>\<open>my_send\<close> and \<^verbatim>\<open>boost::asio::write\<close>.\<close>

definition send_bytes_fd :: "'w ext \<Rightarrow> int \<Rightarrow> string \<Rightarrow> ('w, int) srv" where
  "send_bytes_fd E fd bs = my_send E fd bs"

definition send_bytes_sock :: "'w ext \<Rightarrow> nat \<Rightarrow> string \<Rightarrow> ('w, int) srv" where
  "send_bytes_sock E k bs = bnd (boost_write E k bs) (\<lambda>n. ret (int n))"

definition send_pfile_fd :: "'w ext \<Rightarrow> int \<Rightarrow> FileType \<Rightarrow> string \<Rightarrow> string \<Rightarrow> string \<Rightarrow> ('w, bool) srv" where
  "send_pfile_fd E fd filetype path i suffix =
     send_packet_file E (send_bytes_fd E fd) (toJson_PFileInfo filetype i suffix) path"

definition send_pfile_sock :: "'w ext \<Rightarrow> nat \<Rightarrow> FileType \<Rightarrow> string \<Rightarrow> string \<Rightarrow> string \<Rightarrow> ('w, bool) srv" where
  "send_pfile_sock E k filetype path i suffix =
     send_packet_file E (send_bytes_sock E k) (toJson_PFileInfo filetype i suffix) path"

definition send_vfile_fd ::
  "'w ext \<Rightarrow> int \<Rightarrow> FileType \<Rightarrow> string \<Rightarrow> string \<Rightarrow> string \<Rightarrow> string \<Rightarrow> ('w, bool) srv" where
  "send_vfile_fd E fd filetype path vid publisherId suffix =
     send_packet_file E (send_bytes_fd E fd) (toJson_VFileInfo filetype vid publisherId suffix) path"

definition send_vfile_sock ::
  "'w ext \<Rightarrow> nat \<Rightarrow> FileType \<Rightarrow> string \<Rightarrow> string \<Rightarrow> string \<Rightarrow> string \<Rightarrow> ('w, bool) srv" where
  "send_vfile_sock E k filetype path vid publisherId suffix =
     send_packet_file E (send_bytes_sock E k) (toJson_VFileInfo filetype vid publisherId suffix) path"

section \<open>The request\<close>

definition sql_picture_suffix :: "string \<Rightarrow> string" where
  "sql_picture_suffix uid = ''select pictureSuffix from User where id='' @ uid"

definition sql_video_file :: "string \<Rightarrow> string" where
  "sql_video_file vid = ''select videoSuffix,publisherId from Video where id='' @ vid"

definition sql_preview_suffix :: "string \<Rightarrow> string" where
  "sql_preview_suffix vid = ''select previewSuffix from Video where id='' @ vid"

type_synonym 'w pfile_sender = "FileType \<Rightarrow> string \<Rightarrow> string \<Rightarrow> string \<Rightarrow> ('w, bool) srv"
type_synonym 'w vfile_sender = "FileType \<Rightarrow> string \<Rightarrow> string \<Rightarrow> string \<Rightarrow> string \<Rightarrow> ('w, bool) srv"

definition send_ProfilePicture :: "'w ext \<Rightarrow> 'w pfile_sender \<Rightarrow> json \<Rightarrow> ('w, bool) srv" where
  "send_ProfilePicture E send_pfile jsonMsg =
     bnd (field jsonMsg ''id'') (\<lambda>uid.
     bnd (query_store E (sql_picture_suffix uid)) (\<lambda>res.
     bnd (first_cell res 0) (\<lambda>pictureSuffix.
       send_pfile FileType.ProfilePicture (c_str (PROFILE_PICTURE_URL @ uid @ pictureSuffix)) uid pictureSuffix)))"

definition send_Video :: "'w ext \<Rightarrow> 'w vfile_sender \<Rightarrow> json \<Rightarrow> ('w, bool) srv" where
  "send_Video E send_vfile jsonMsg =
     bnd (field jsonMsg ''id'') (\<lambda>vid.
     bnd (query_store E (sql_video_file vid)) (\<lambda>res.
     bnd (first_cell res 0) (\<lambda>videoSuffix.
     bnd (first_cell res 1) (\<lambda>publisherId.
       send_vfile FileType.Video (c_str (VIDEO_URL @ vid @ videoSuffix)) vid publisherId videoSuffix))))"

definition send_ChatImg :: "'w pfile_sender \<Rightarrow> json \<Rightarrow> ('w, bool) srv" where
  "send_ChatImg send_pfile jsonMsg =
     bnd (field jsonMsg ''imgName'') (\<lambda>imgName.
     bnd (field jsonMsg ''id'') (\<lambda>uid.
       send_pfile FileType.ChatImg (c_str (CHAT_PICTURE_URL @ imgName)) uid imgName))"

definition send_VideoPreviewImg :: "'w ext \<Rightarrow> 'w pfile_sender \<Rightarrow> json \<Rightarrow> ('w, bool) srv" where
  "send_VideoPreviewImg E send_pfile jsonMsg =
     bnd (field jsonMsg ''videoId'') (\<lambda>vid.
     bnd (query_store E (sql_preview_suffix vid)) (\<lambda>res.
     bnd (first_cell res 0) (\<lambda>previewSuffix.
     bnd (field jsonMsg ''id'') (\<lambda>uid.
       send_pfile FileType.VideoPreviewImg (c_str (PREVIEW_PICTURE_URL @ vid @ previewSuffix)) uid
         (vid @ previewSuffix)))))"

text \<open>The result of the inner call is only logged.\<close>

definition send_file_with :: "'w ext \<Rightarrow> 'w pfile_sender \<Rightarrow> 'w vfile_sender \<Rightarrow> string \<Rightarrow> ('w, unit) srv" where
  "send_file_with E send_pfile send_vfile buf =
     bnd (lift_sum (json_parse buf)) (\<lambda>jsonMsg.
     bnd (filetype_is jsonMsg FileType.ProfilePicture) (\<lambda>b. if b then bnd (send_ProfilePicture E send_pfile jsonMsg) (\<lambda>_. ret ()) else
     bnd (filetype_is jsonMsg FileType.Video) (\<lambda>b. if b then bnd (send_Video E send_vfile jsonMsg) (\<lambda>_. ret ()) else
     bnd (filetype_is jsonMsg FileType.ChatImg) (\<lambda>b. if b then bnd (send_ChatImg send_pfile jsonMsg) (\<lambda>_. ret ()) else
     bnd (filetype_is jsonMsg FileType.VideoPreviewImg) (\<lambda>b. if b then bnd (send_VideoPreviewImg E send_pfile jsonMsg) (\<lambda>_. ret ()) else
       ret ())))))"

definition send_file_fd :: "'w ext \<Rightarrow> int \<Rightarrow> string \<Rightarrow> ('w, unit) srv" where
  "send_file_fd E fd buf = send_file_with E (send_pfile_fd E fd) (send_vfile_fd E fd) buf"

definition send_file_sock :: "'w ext \<Rightarrow> nat \<Rightarrow> string \<Rightarrow> ('w, unit) srv" where
  "send_file_sock E k buf = send_file_with E (send_pfile_sock E k) (send_vfile_sock E k) buf"

section \<open>What they do\<close>

lemma keeps_send_bytes: "inner f \<Longrightarrow> keeps (unchanged f) (send_bytes_fd E fd bs)"
  "inner f \<Longrightarrow> keeps (unchanged f) (send_bytes_sock E k bs)"
  by (auto simp: send_bytes_fd_def send_bytes_sock_def intro: keeps_handler)

lemma keeps_send_packet_file:
  assumes "\<And>bs. keeps (unchanged f) (send bs)"
  shows "keeps (unchanged f) (send_packet_file E send info path)"
  unfolding send_packet_file_def getFileSize_def Let_def
  by (auto intro!: keeps_handler assms split: prod.split)

lemma keeps_send_file_with:
  assumes "inner f" and "\<And>t p i x. keeps (unchanged f) (pf t p i x)" and "\<And>t p i u x. keeps (unchanged f) (vf t p i u x)"
  shows "keeps (unchanged f) (send_file_with E pf vf buf)"
  unfolding send_file_with_def send_ProfilePicture_def send_Video_def send_ChatImg_def send_VideoPreviewImg_def
  by (intro keeps_handler keeps_filetype_is assms)

lemma overlay_take: "length bs \<le> n \<Longrightarrow> n = length area \<Longrightarrow> length (overlay bs area) = n"
  by (simp add: overlay_def)

lemma overlay_exact: "length bs = length area \<Longrightarrow> overlay bs area = bs"
  by (simp add: overlay_def)

lemma c_str_overlay: "NUL \<notin> set d \<Longrightarrow> c_str (overlay (d @ [NUL]) area) = d"
  by (simp add: overlay_def c_str_append_nul)

text \<open>Taking the packet apart again.\<close>

lemma file_packet_parts:
  assumes "length d < BUF_SIZE" and "NUL \<notin> set d" and "length heap = BUF_SIZE + length content"
  shows "header_of_bytes (file_packet_bytes h d content heap) = h"
    and "length (file_packet_bytes h d content heap) = header_size + BUF_SIZE + length content"
    and "c_str (take BUF_SIZE (drop header_size (file_packet_bytes h d content heap))) = d"
    and "drop (header_size + BUF_SIZE) (file_packet_bytes h d content heap) = content"
    and "take (BUF_SIZE - (length d + 1)) (drop (header_size + length d + 1) (file_packet_bytes h d content heap))
       = drop (length d + 1) (take BUF_SIZE heap)"
proof -
  let ?i = "overlay (d @ [NUL]) (take BUF_SIZE heap)" and ?c = "overlay content (drop BUF_SIZE heap)"
  have i: "length ?i = BUF_SIZE" by (rule overlay_take) (use assms in auto)
  have c: "?c = content" by (rule overlay_exact) (use assms in auto)
  have p: "file_packet_bytes h d content heap = header_bytes h @ ?i @ content"
    by (simp add: file_packet_bytes_def c)
  show "header_of_bytes (file_packet_bytes h d content heap) = h" by (simp add: p)
  show "length (file_packet_bytes h d content heap) = header_size + BUF_SIZE + length content" by (simp add: p i)
  show "c_str (take BUF_SIZE (drop header_size (file_packet_bytes h d content heap))) = d"
    using c_str_overlay [OF assms(2)] by (simp add: p i)
  show "drop (header_size + BUF_SIZE) (file_packet_bytes h d content heap) = content" by (simp add: p i)
  have "drop (length d + 1) ?i = drop (length d + 1) (take BUF_SIZE heap)" by (simp add: overlay_def)
  then show "take (BUF_SIZE - (length d + 1)) (drop (header_size + length d + 1) (file_packet_bytes h d content heap))
       = drop (length d + 1) (take BUF_SIZE heap)"
    using i assms(1,3) by (simp add: p)
qed

text \<open>The calls serving a file may make: queries, and bytes for the requesting socket.\<close>

definition read_call :: "peer \<Rightarrow> call \<Rightarrow> bool" where
  "read_call p c \<longleftrightarrow> (case c of Store _ \<Rightarrow> True | Sent q _ \<Rightarrow> q = p | _ \<Rightarrow> False)"

lemma log_field: "keeps (only_calls P) (field j key)"
  by (simp add: field_def log.keeps_lift_sum)

lemma log_first_cell: "keeps (only_calls P) (first_cell res i)"
  by (auto simp: first_cell_def intro!: log.keeps_rules keeps_split)

lemma log_filetype_is: "keeps (only_calls P) (filetype_is j t)"
  by (auto simp: filetype_is_def intro!: log.keeps_rules)

lemma log_send_bytes:
  "keeps (only_calls (read_call (Sock k))) (send_bytes_sock E k bs)"
  "keeps (only_calls (read_call (Fd fd))) (send_bytes_fd E fd bs)"
  unfolding send_bytes_sock_def send_bytes_fd_def
  by (intro log.keeps_rules log_boost_write log_my_send; simp add: read_call_def)+

lemma log_send_packet_file:
  assumes "\<And>bs. keeps (only_calls P) (send bs)"
  shows "keeps (only_calls P) (send_packet_file E send info path)"
  unfolding send_packet_file_def getFileSize_def Let_def
  by (auto intro!: log.keeps_rules keeps_if assms split: prod.split)

lemma log_send_file:
  "keeps (only_calls (read_call (Sock k))) (send_file_sock E k buf)"
  "keeps (only_calls (read_call (Fd fd))) (send_file_fd E fd buf)"
  unfolding send_file_sock_def send_file_fd_def send_file_with_def send_ProfilePicture_def send_Video_def send_ChatImg_def
    send_VideoPreviewImg_def send_pfile_sock_def send_vfile_sock_def send_pfile_fd_def send_vfile_fd_def
  by (intro log.keeps_rules keeps_if log_field log_first_cell log_filetype_is log_send_packet_file
      log_send_bytes log_query_store; simp add: read_call_def)+

text \<open>Serving a file always comes back: no loop depends on the peer.\<close>

lemma returns_send_bytes_sock: "returns (send_bytes_sock E k bs)"
  by (auto simp: send_bytes_sock_def boost_write_def returns_def bnd_def split: option.splits prod.splits)

lemma returns_send_packet_file: "(\<And>bs. returns (send bs)) \<Longrightarrow> returns (send_packet_file E send info path)"
  unfolding send_packet_file_def getFileSize_def Let_def
  by (auto intro!: returns_rules split: prod.split)

section \<open>Properties\<close>

text \<open>
  Serving a file never changes the memory of the process and never sends a command that
  writes to the database: every call it makes is a query or bytes sent to the requesting socket.
\<close>

theorem send_file_reads_only:
  assumes "send_file_sock E k buf s = Some (r, s')"
  shows "memory s' = memory s \<and> (\<exists>cs. calls s' = calls s @ cs \<and> (\<forall>c \<in> set cs. read_call (Sock k) c))"
proof -
  have "keeps (unchanged memory) (send_file_sock E k buf)"
    unfolding send_file_sock_def send_pfile_sock_def send_vfile_sock_def
    by (intro keeps_send_file_with keeps_send_packet_file keeps_send_bytes) simp_all
  with assms log_send_file(1) [of k E buf] show ?thesis
    by (auto simp: keeps_def unchanged_def only_calls_def)
qed

lemma picture_json: "\<exists>d. dump (toJson_PFileInfo FileType.ProfilePicture ''7'' ''.png'') = Inr d \<and> length d < BUF_SIZE
    \<and> json_wf (toJson_PFileInfo FileType.ProfilePicture ''7'' ''.png'')"
  by (simp add: toJson_PFileInfo_def json_object_def enum_json_def dump_eval dump_integer_dec dec_int_def
      dec_nat_0 BUF_SIZE_def)

theorem send_file_reads_only_witness:
  "\<exists>m r s'. dump (picture_request ''7'' ''.png'') = Inr m
    \<and> send_file_sock sample_ext 1 m (sample_server\<lparr>m_liveList := [''7'' \<mapsto> ''u'']\<rparr>) = Some (r, s')
    \<and> calls s' \<noteq> [] \<and> m_liveList s' = [''7'' \<mapsto> ''u'']"
proof -
  let ?s = "sample_server\<lparr>m_liveList := [''7'' \<mapsto> ''u'']\<rparr>"
  obtain m where m: "dump (picture_request ''7'' ''.png'') = Inr m" using upload_requests_print by blast
  let ?q = "sql_picture_suffix ''7''"
  let ?f = "send_packet_file sample_ext (send_bytes_sock sample_ext 1)
    (toJson_PFileInfo FileType.ProfilePicture ''7'' []) (c_str (PROFILE_PICTURE_URL @ ''7''))"
  have q: "fst (mysql_store sample_ext ?q (world ?s)) = Some []" by (simp add: sample_defs)
  have run: "send_file_sock sample_ext 1 m ?s = bnd ?f (\<lambda>_. ret ())
      (?s\<lparr>world := snd (mysql_store sample_ext ?q (world ?s)), calls := calls ?s @ [Store ?q]\<rparr>)"
    using upload_requests_parse(1) [OF m] json_eq_enum_0 q
    by (simp add: send_file_sock_def send_file_with_def send_ProfilePicture_def bnd_assoc filetype_app
        picture_request_fields field_app query_store_app first_cell_def send_pfile_sock_def)
  have "returns (bnd ?f (\<lambda>_. ret ()))"
    by (intro returns_rules returns_send_packet_file returns_send_bytes_sock)
  then obtain r s' where s': "send_file_sock sample_ext 1 m ?s = Some (r, s')"
    unfolding returns_def run by (metis not_Some_eq surj_pair)
  have "keeps (only_calls (\<lambda>_. True)) (bnd ?f (\<lambda>_. ret ()))"
    unfolding send_bytes_sock_def by (intro log.keeps_rules log_send_packet_file log_boost_write) simp
  from keepsD [OF this s' [unfolded run]] have "calls s' \<noteq> []" by (auto simp: only_calls_def)
  from send_file_reads_only [OF s'] have "m_liveList s' = [''7'' \<mapsto> ''u'']"
    by (simp add: memory_def tables_def)
  with m s' \<open>calls s' \<noteq> []\<close> show ?thesis by blast
qed

text \<open>
  C29: A file that can be read completely, of at most \<open>FILE_BUF_SIZE\<close> bytes and with a description
  that fits its area, is served as one packet on a socket that takes it: it decodes to the purpose and
  the size of the file, its description parses to the JSON object meant, and what follows the
  fixed description area is exactly the content.
\<close>

theorem file_served:
  assumes "file_stat E path (world s) = Some (length content)" and "content \<noteq> []"
    and "length content \<le> FILE_BUF_SIZE" and "file_is_open E path (world s)"
    and "file_read E path (length content) (world s) = content"
    and "\<And>n w. length (fresh_heap E n w) = n"
    and "dump info = Inr d" and "length d < BUF_SIZE" and "json_wf info"
    and "\<And>bs w. fst (asio_write E k bs w) = Some (length bs)"
  shows "\<exists>w bs. send_packet_file E (send_bytes_sock E k) info path s
      = Some (Inr True, s\<lparr>world := w, calls := calls s @ [Sent (Sock k) bs]\<rparr>)
    \<and> purpose_of (purpose (header_of_bytes bs)) = Some GetFile
    \<and> unat (data_size (header_of_bytes bs)) = length content
    \<and> json_parse (c_str (take BUF_SIZE (drop header_size bs))) = Inr (canon info)
    \<and> drop (header_size + BUF_SIZE) bs = content"
proof -
  let ?n = "length content"
  let ?h = "\<lparr>purpose = word_of_nat (purpose_int GetFile), data_size = word_of_nat ?n\<rparr> :: NetPacketHeader"
  let ?bs = "file_packet_bytes ?h d content (fresh_heap E (BUF_SIZE + ?n) (world s))"
  have w: "unat (word_of_nat ?n :: 32 word) = ?n"
    using assms(3) by (simp add: FILE_BUF_SIZE_def unsigned_of_nat take_bit_nat_eq_self)
  have nz: "(word_of_nat ?n :: 32 word) \<noteq> 0" using w assms(2) by (metis length_0_conv unat_0)
  have nul: "NUL \<notin> set d" by (rule dump_no_nul [OF assms(7)])
  have d: "strcpy_data d = Inr d" using nul assms(8) by (simp add: strcpy_data_def)
  note parts = file_packet_parts [OF assms(8) nul, of "fresh_heap E (BUF_SIZE + ?n) (world s)" content ?h]
  have parts': "header_of_bytes ?bs = ?h" "length ?bs = header_size + BUF_SIZE + ?n"
    "c_str (take BUF_SIZE (drop header_size ?bs)) = d" "drop (header_size + BUF_SIZE) ?bs = content"
    using parts assms(6) by simp_all
  have send: "send_bytes_sock E k ?bs s = Some (Inr (int (length ?bs)),
      s\<lparr>world := snd (asio_write E k ?bs (world s)), calls := calls s @ [Sent (Sock k) ?bs]\<rparr>)"
    using assms(10) [of ?bs "world s"]
    by (auto simp: send_bytes_sock_def boost_write_def bnd_def log_call_def split: prod.splits)
  have "send_packet_file E (send_bytes_sock E k) info path s
      = bnd (send_bytes_sock E k ?bs) (\<lambda>sent. ret (\<not> (sent = 0 \<or> sent = - 1))) s"
    using assms(1,3,4,5,7) nz w d
    by (simp add: send_packet_file_def getFileSize_def bnd_get_st Let_def not_less)
  also have "\<dots> = Some (Inr True, s\<lparr>world := snd (asio_write E k ?bs (world s)), calls := calls s @ [Sent (Sock k) ?bs]\<rparr>)"
    using send parts'(2) by (simp add: bnd_def header_size_def)
  finally have run: "send_packet_file E (send_bytes_sock E k) info path s = \<dots>" .
  have "json_parse d = Inr (canon info)" using parse_dump [OF assms(7,9), of 0] by simp
  with run parts' w purpose_of_int [of GetFile] show ?thesis by (intro exI [of _ "snd (asio_write E k ?bs (world s))"] exI [of _ ?bs]) simp
qed

theorem file_served_witness:
  "\<exists>w bs. send_packet_file sample_ext (send_bytes_sock sample_ext 1)
        (toJson_PFileInfo FileType.ProfilePicture ''7'' ''.png'') ''p'' sample_server
      = Some (Inr True, sample_server\<lparr>world := w, calls := [Sent (Sock 1) bs]\<rparr>)
    \<and> drop (header_size + BUF_SIZE) bs = ''xxxxx''"
proof -
  let ?info = "toJson_PFileInfo FileType.ProfilePicture ''7'' ''.png''"
  obtain d where d: "dump ?info = Inr d" "length d < BUF_SIZE" "json_wf ?info" using picture_json by blast
  have "file_stat sample_ext ''p'' (world sample_server) = Some (length ''xxxxx'')" "''xxxxx'' \<noteq> []"
    "file_is_open sample_ext ''p'' (world sample_server)"
    "length (fresh_heap sample_ext n w) = n" "fst (asio_write sample_ext 1 bs w) = Some (length bs)" for n w bs
    by (simp_all add: sample_ext_def)
  note e = this
  have f: "file_read sample_ext ''p'' (length ''xxxxx'') (world sample_server) = ''xxxxx''"
    by (simp add: sample_ext_def numeral_eq_Suc)
  have l: "length ''xxxxx'' \<le> FILE_BUF_SIZE" by (simp add: FILE_BUF_SIZE_def)
  from file_served [OF e(1,2) l e(3) f e(4) d e(5)]
  show ?thesis by (simp add: sample_server_def) blast
qed

text \<open>
  What the description area carries after the text and its terminator is the memory the
  packet was allocated from, as it was: the server sends it to the client.
\<close>

theorem file_packet_padding:
  assumes "length d < BUF_SIZE" and "NUL \<notin> set d" and "length heap = BUF_SIZE + length content"
  shows "take (BUF_SIZE - (length d + 1)) (drop (header_size + length d + 1) (file_packet_bytes h d content heap))
       = drop (length d + 1) (take BUF_SIZE heap)"
  using file_packet_parts(5) [OF assms] .

theorem file_packet_padding_witness:
  "take (BUF_SIZE - 2) (drop (header_size + 2)
      (file_packet_bytes \<lparr>purpose = 4, data_size = 1\<rparr> ''x'' ''c'' (replicate (BUF_SIZE + 1) CHR ''S'')))
    = replicate (BUF_SIZE - 2) CHR ''S''"
proof -
  have len: "length ''x'' < BUF_SIZE" and n: "BUF_SIZE - 2 + 2 = BUF_SIZE" by (simp_all add: BUF_SIZE_def)
  let ?heap = "replicate (BUF_SIZE + 1) CHR ''S''"
  have "drop (length ''x'' + 1) (take BUF_SIZE ?heap) = replicate (BUF_SIZE - 2) CHR ''S''"
    unfolding take_replicate drop_replicate by simp
  with file_packet_padding [OF len, of ?heap "''c''" "\<lparr>purpose = 4, data_size = 1\<rparr>"]
  show ?thesis by (simp del: replicate_Suc add: numeral_2_eq_2)
qed

text \<open>
  A file that does not exist, is empty, or whose size is a multiple of 2 to the 32, is
  answered with a header alone, of size 0, and the database and the disk are left alone.
\<close>

theorem file_missing:
  assumes "case file_stat E path (world s) of None \<Rightarrow> True | Some n \<Rightarrow> 2 ^ 32 dvd n"
    and "fst (asio_write E k (header_bytes \<lparr>purpose = 4, data_size = 0\<rparr>) (world s)) = Some header_size"
  shows "\<exists>w. send_packet_file E (send_bytes_sock E k) info path s = Some (Inr False, s\<lparr>world := w,
      calls := calls s @ [Sent (Sock k) (header_bytes \<lparr>purpose = word_of_nat (purpose_int GetFile), data_size = 0\<rparr>)]\<rparr>)"
proof -
  have "(word_of_nat (case file_stat E path (world s) of None \<Rightarrow> 0 | Some n \<Rightarrow> n) :: 32 word) = 0"
    using assms(1) by (auto simp: word_of_nat_eq_0_iff split: option.splits)
  then show ?thesis using assms(2)
    by (auto simp: send_packet_file_def getFileSize_def bnd_get_st Let_def send_bytes_sock_def
        boost_write_def bnd_def log_call_def split: prod.splits)
qed

theorem file_missing_witness:
  "\<exists>w. send_packet_file (sample_ext\<lparr>file_stat := (\<lambda>p w. None)\<rparr>)
        (send_bytes_sock (sample_ext\<lparr>file_stat := (\<lambda>p w. None)\<rparr>) 1) JNull ''p'' sample_server
    = Some (Inr False, sample_server\<lparr>world := w,
        calls := [Sent (Sock 1) (header_bytes \<lparr>purpose = 4, data_size = 0\<rparr>)]\<rparr>)"
  using file_missing [of "sample_ext\<lparr>file_stat := (\<lambda>p w. None)\<rparr>" "''p''" sample_server 1 JNull]
  by (auto simp: sample_defs)

end
