(* ===== verification/SendInfo.thy ===== *)
theory SendInfo
  imports SendFile
begin

text \<open>
  \<^verbatim>\<open>sendinfocontrol.cpp\<close>: answering a request for stored information.  Eleven cases run a query,
  turn its rows into JSON and send one packet; a failed query is logged and answered by nothing.
  The overloads differ in the reply call and in the host part of the url of a video.
\<close>

section \<open>SQL commands\<close>

definition sql_comments :: "string \<Rightarrow> string" where
  "sql_comments vid = ''select * from Comment where videoId='' @ vid @ '' order by time desc''"

definition sql_vod_list :: "int \<Rightarrow> int \<Rightarrow> string" where
  "sql_vod_list offset number = ''select * from Video limit '' @ dec_int offset @ '','' @ dec_int number"

definition sql_like_info :: "string \<Rightarrow> string \<Rightarrow> string" where
  "sql_like_info vid uid =
     ''select count(distinct userId),(select if(count(*)=1,true,false) from VideoLike where videoId='' @ vid
     @ '' and userId='' @ uid @ '') from VideoLike where videoId='' @ vid"

definition sql_follow_info :: "string \<Rightarrow> string" where
  "sql_follow_info uid = ''select userId from Follow where followerId='' @ uid"

definition sql_fans_info :: "string \<Rightarrow> string" where
  "sql_fans_info uid = ''select followerId from Follow where userId='' @ uid"

definition sql_get_nick_name :: "string \<Rightarrow> string" where
  "sql_get_nick_name uid = ''select nickName from User where id='' @ uid"

definition sql_user_video :: "string \<Rightarrow> string" where
  "sql_user_video uid = ''select id from Video where publisherId='' @ uid"

definition sql_user_video_like :: "string \<Rightarrow> string" where
  "sql_user_video_like uid = ''select videoId from VideoLike where userId='' @ uid"

definition sql_messages :: "string \<Rightarrow> string \<Rightarrow> string" where
  "sql_messages u1 u2 =
     ''select * from (select * from Message where sendId = '' @ u1 @ '' and receiveId = '' @ u2
     @ '' union select * from Message where sendId = '' @ u2 @ '' and receiveId = '' @ u1
     @ '') as t order by time desc''"

definition sql_pushes :: "string \<Rightarrow> string" where
  "sql_pushes uid = ''select videoId from VideoPush where userId = '' @ uid"

definition sql_publisher :: "string \<Rightarrow> string" where
  "sql_publisher vid = ''select publisherId from Video where id = '' @ vid"

definition sql_delete_pushes :: "string \<Rightarrow> string" where
  "sql_delete_pushes uid = ''delete from VideoPush where userId = '' @ uid"

section \<open>Rows as JSON\<close>

definition toJson_CommentInfo :: "string \<Rightarrow> string \<Rightarrow> string \<Rightarrow> string \<Rightarrow> string \<Rightarrow> string \<Rightarrow> json" where
  "toJson_CommentInfo cid replyCommentId publisherId vid content time = json_object
     [(''id'', JString cid), (''replyCommentId'', JString replyCommentId), (''publisherId'', JString publisherId),
      (''videoId'', JString vid), (''content'', JString content), (''time'', JString time)]"

definition toJson_VodListInfo :: "string \<Rightarrow> string \<Rightarrow> string \<Rightarrow> string \<Rightarrow> string \<Rightarrow> json" where
  "toJson_VodListInfo vid publisherId url profile time = json_object
     [(''videoId'', JString vid), (''publisherId'', JString publisherId), (''url'', JString url),
      (''profile'', JString profile), (''time'', JString time)]"

definition toJson_LikeInfo :: "int \<Rightarrow> bool \<Rightarrow> json" where
  "toJson_LikeInfo likeCount ifLike = json_object
     [(''likeCount'', enum_json likeCount), (''ifLike'', JBool ifLike)]"

definition toJson_FollowInfo :: "string \<Rightarrow> json" where
  "toJson_FollowInfo uid = json_object [(''userId'', JString uid)]"

definition toJson_FansInfo :: "string \<Rightarrow> json" where
  "toJson_FansInfo followerId = json_object [(''followerId'', JString followerId)]"

definition toJson_LiveListInfo :: "string \<Rightarrow> string \<Rightarrow> json" where
  "toJson_LiveListInfo publisherId url = json_object [(''publisherId'', JString publisherId), (''url'', JString url)]"

definition toJson_NickNameInfo :: "string \<Rightarrow> string \<Rightarrow> json" where
  "toJson_NickNameInfo uid nickName = json_object [(''userId'', JString uid), (''nickName'', JString nickName)]"

definition toJson_UserVideoInfo :: "string \<Rightarrow> json" where
  "toJson_UserVideoInfo vid = json_object [(''videoId'', JString vid)]"

definition toJson_MessageInfo :: "string \<Rightarrow> string \<Rightarrow> string \<Rightarrow> string \<Rightarrow> string \<Rightarrow> json" where
  "toJson_MessageInfo sendId receiveId messageType content time = json_object
     [(''sendId'', JString sendId), (''receiveId'', JString receiveId), (''messageType'', JString messageType),
      (''content'', JString content), (''time'', JString time)]"

text \<open>\<open>string(row[i])\<close>.\<close>

definition cell :: "string list \<Rightarrow> nat \<Rightarrow> ('w, string) srv" where
  "cell row i = lift_sum (row_at row i)"

text \<open>The common text of the cases: query, then one packet, null standing for no rows.\<close>

definition answer :: "'w ext \<Rightarrow> 'w sender \<Rightarrow> string \<Rightarrow> (string list list \<Rightarrow> ('w, json) srv)
    \<Rightarrow> (json \<Rightarrow> exn + NetPacket) \<Rightarrow> ('w, unit) srv" where
  "answer E send cmd render packet =
     bnd (query_store E cmd) (\<lambda>res. case res of
       None \<Rightarrow> ret ()
     | Some rows \<Rightarrow>
         if rows \<noteq> [] then bnd (render rows) (\<lambda>j. reply send (packet j))
         else reply send (packet JNull))"

text \<open>One \<open>push_back\<close> per row, and a value built from the first row.\<close>

definition all_rows :: "(string list \<Rightarrow> ('w, json) srv) \<Rightarrow> string list list \<Rightarrow> ('w, json) srv" where
  "all_rows render rows = bnd (map_each render rows) (\<lambda>js. ret (json_array js))"

definition first_row :: "(string list \<Rightarrow> ('w, json) srv) \<Rightarrow> string list list \<Rightarrow> ('w, json) srv" where
  "first_row render rows = render (hd rows)"

section \<open>The cases\<close>

definition row_Comment :: "string list \<Rightarrow> ('w, json) srv" where
  "row_Comment row =
     bnd (cell row 0) (\<lambda>a. bnd (cell row 1) (\<lambda>b. bnd (cell row 2) (\<lambda>c.
     bnd (cell row 3) (\<lambda>d. bnd (cell row 4) (\<lambda>e. bnd (cell row 5) (\<lambda>f.
       ret (toJson_CommentInfo a b c d e f)))))))"

definition info_Comment :: "'w ext \<Rightarrow> 'w sender \<Rightarrow> json \<Rightarrow> ('w, unit) srv" where
  "info_Comment E send jsonMsg =
     bnd (field jsonMsg ''id'') (\<lambda>vid.
       answer E send (sql_comments vid) (all_rows row_Comment) sendComments_P)"

text \<open>The column \<open>previewSuffix\<close>, number 4, is skipped.\<close>

definition row_VodList :: "string \<Rightarrow> string list \<Rightarrow> ('w, json) srv" where
  "row_VodList host row =
     bnd (cell row 0) (\<lambda>vid. bnd (cell row 2) (\<lambda>videoSuffix. bnd (cell row 1) (\<lambda>publisherId.
     bnd (cell row 3) (\<lambda>profile. bnd (cell row 5) (\<lambda>time.
       ret (toJson_VodListInfo vid publisherId (host @ vid @ videoSuffix) profile time))))))"

definition info_VodList :: "'w ext \<Rightarrow> 'w sender \<Rightarrow> string \<Rightarrow> json \<Rightarrow> ('w, unit) srv" where
  "info_VodList E send host jsonMsg =
     bnd (lift_sum (int_field jsonMsg ''offset'')) (\<lambda>offset.
     bnd (lift_sum (int_field jsonMsg ''num'')) (\<lambda>number.
       answer E send (sql_vod_list offset number) (all_rows (row_VodList host)) sendVodList_P))"

text \<open>The cells are converted by mysql++; the order of the two conversions is immaterial.\<close>

definition row_VideoLike :: "'w ext \<Rightarrow> string list \<Rightarrow> ('w, json) srv" where
  "row_VideoLike E row =
     bnd (cell row 0) (\<lambda>a. bnd (cell row 1) (\<lambda>b.
     bnd (lift_sum (as_int E a)) (\<lambda>likeCount. bnd (lift_sum (as_bool E b)) (\<lambda>ifLike.
       ret (toJson_LikeInfo likeCount ifLike)))))"

definition info_VideoLike :: "'w ext \<Rightarrow> 'w sender \<Rightarrow> json \<Rightarrow> ('w, unit) srv" where
  "info_VideoLike E send jsonMsg =
     bnd (field jsonMsg ''id'') (\<lambda>vid.
     bnd (field jsonMsg ''userId'') (\<lambda>uid.
       answer E send (sql_like_info vid uid) (first_row (row_VideoLike E)) sendLikeInfo_P))"

definition row_Follow :: "string list \<Rightarrow> ('w, json) srv" where
  "row_Follow row = bnd (cell row 0) (\<lambda>uid. ret (toJson_FollowInfo uid))"

definition info_Follow :: "'w ext \<Rightarrow> 'w sender \<Rightarrow> json \<Rightarrow> ('w, unit) srv" where
  "info_Follow E send jsonMsg =
     bnd (field jsonMsg ''userId'') (\<lambda>uid.
       answer E send (sql_follow_info uid) (all_rows row_Follow) sendFollowInfo_P)"

definition row_Fans :: "string list \<Rightarrow> ('w, json) srv" where
  "row_Fans row = bnd (cell row 0) (\<lambda>followerId. ret (toJson_FansInfo followerId))"

definition info_Fans :: "'w ext \<Rightarrow> 'w sender \<Rightarrow> json \<Rightarrow> ('w, unit) srv" where
  "info_Fans E send jsonMsg =
     bnd (field jsonMsg ''userId'') (\<lambda>uid.
       answer E send (sql_fans_info uid) (all_rows row_Fans) sendFansInfo_P)"

definition live_list_json :: "'w ext \<Rightarrow> (string \<rightharpoonup> string) \<Rightarrow> json" where
  "live_list_json E liveList =
     json_array (map (\<lambda>(uid, url). toJson_LiveListInfo uid url) (map_order E liveList))"

definition info_LiveList :: "'w ext \<Rightarrow> 'w sender \<Rightarrow> ('w, unit) srv" where
  "info_LiveList E send =
     bnd getLiveList (\<lambda>liveList. reply send (sendLiveList_P (live_list_json E liveList)))"

definition row_NickName :: "string \<Rightarrow> string list \<Rightarrow> ('w, json) srv" where
  "row_NickName uid row = bnd (cell row 0) (\<lambda>nickName. ret (toJson_NickNameInfo uid nickName))"

definition info_NickName :: "'w ext \<Rightarrow> 'w sender \<Rightarrow> json \<Rightarrow> ('w, unit) srv" where
  "info_NickName E send jsonMsg =
     bnd (field jsonMsg ''userId'') (\<lambda>uid.
       answer E send (sql_get_nick_name uid) (first_row (row_NickName uid)) sendNickNameInfo_P)"

definition row_UserVideo :: "string list \<Rightarrow> ('w, json) srv" where
  "row_UserVideo row = bnd (cell row 0) (\<lambda>vid. ret (toJson_UserVideoInfo vid))"

definition info_UserVideo :: "'w ext \<Rightarrow> 'w sender \<Rightarrow> json \<Rightarrow> ('w, unit) srv" where
  "info_UserVideo E send jsonMsg =
     bnd (field jsonMsg ''userId'') (\<lambda>uid.
       answer E send (sql_user_video uid) (all_rows row_UserVideo) (sendUserVideoInfo_P uid))"

definition info_UserVideoLike :: "'w ext \<Rightarrow> 'w sender \<Rightarrow> json \<Rightarrow> ('w, unit) srv" where
  "info_UserVideoLike E send jsonMsg =
     bnd (field jsonMsg ''userId'') (\<lambda>uid.
       answer E send (sql_user_video_like uid) (all_rows row_UserVideo) (sendUserVideoLikeInfo_P uid))"

definition row_Message :: "string list \<Rightarrow> ('w, json) srv" where
  "row_Message row =
     bnd (cell row 0) (\<lambda>a. bnd (cell row 1) (\<lambda>b. bnd (cell row 2) (\<lambda>c.
     bnd (cell row 3) (\<lambda>d. bnd (cell row 4) (\<lambda>e. ret (toJson_MessageInfo a b c d e))))))"

definition info_Message :: "'w ext \<Rightarrow> 'w sender \<Rightarrow> json \<Rightarrow> ('w, unit) srv" where
  "info_Message E send jsonMsg =
     bnd (field jsonMsg ''userId1'') (\<lambda>userId1.
     bnd (field jsonMsg ''userId2'') (\<lambda>userId2.
       answer E send (sql_messages userId1 userId2) (all_rows row_Message) sendMessageInfo_P))"

text \<open>
  The pushes.  \<open>video\<close> is declared before the loop and only overwritten in it: a video whose
  publisher is not found keeps the \<open>publisherId\<close> of the one before.
\<close>

definition set_publisher :: "string list list option \<Rightarrow> json \<Rightarrow> ('w, json) srv" where
  "set_publisher res video = (case res of
     None \<Rightarrow> ret video
   | Some rows \<Rightarrow> (case rows of
       [] \<Rightarrow> ret video
     | row # _ \<Rightarrow> bnd (cell row 0) (\<lambda>p. lift_sum (json_set ''publisherId'' (JString p) video))))"

primrec push_videos :: "'w ext \<Rightarrow> json \<Rightarrow> string list list \<Rightarrow> ('w, json list) srv" where
  "push_videos E video [] = ret []"
| "push_videos E video (row # rows) =
     bnd (cell row 0) (\<lambda>vid.
     bnd (lift_sum (json_set ''videoId'' (JString vid) video)) (\<lambda>video1.
     bnd (query_store E (sql_publisher vid)) (\<lambda>res.
     bnd (set_publisher res video1) (\<lambda>video2.
     bnd (push_videos E video2 rows) (\<lambda>videos. ret (video2 # videos))))))"

definition info_VideoPush :: "'w ext \<Rightarrow> 'w sender \<Rightarrow> json \<Rightarrow> ('w, unit) srv" where
  "info_VideoPush E send jsonMsg =
     bnd (field jsonMsg ''userId'') (\<lambda>uid.
     bnd (query_store E (sql_pushes uid)) (\<lambda>res. case res of
       None \<Rightarrow> ret ()
     | Some rows \<Rightarrow>
         if rows \<noteq> [] then
           bnd (push_videos E JNull rows) (\<lambda>videos.
           bnd (reply send (sendVideoPushInfo_P (json_array videos))) (\<lambda>_.
             run_sql E (sql_delete_pushes uid)))
         else reply send (sendVideoPushInfo_P JNull)))"

section \<open>The switch\<close>

definition info_case :: "'w ext \<Rightarrow> 'w sender \<Rightarrow> string \<Rightarrow> json \<Rightarrow> InfoType option \<Rightarrow> ('w, unit) srv" where
  "info_case E send host jsonMsg t = (case t of
     Some InfoType.Comment \<Rightarrow> info_Comment E send jsonMsg
   | Some InfoType.VodList \<Rightarrow> info_VodList E send host jsonMsg
   | Some InfoType.VideoLike \<Rightarrow> info_VideoLike E send jsonMsg
   | Some InfoType.Follow \<Rightarrow> info_Follow E send jsonMsg
   | Some InfoType.Fans \<Rightarrow> info_Fans E send jsonMsg
   | Some InfoType.LiveList \<Rightarrow> info_LiveList E send
   | Some InfoType.NickName \<Rightarrow> info_NickName E send jsonMsg
   | Some InfoType.UserVideo \<Rightarrow> info_UserVideo E send jsonMsg
   | Some InfoType.UserVideoLike \<Rightarrow> info_UserVideoLike E send jsonMsg
   | Some InfoType.Message \<Rightarrow> info_Message E send jsonMsg
   | Some InfoType.VideoPush \<Rightarrow> info_VideoPush E send jsonMsg
   | _ \<Rightarrow> ret ())"

definition send_info_with :: "'w ext \<Rightarrow> 'w sender \<Rightarrow> string \<Rightarrow> string \<Rightarrow> ('w, unit) srv" where
  "send_info_with E send host buf =
     bnd (lift_sum (json_parse buf)) (\<lambda>jsonMsg.
     bnd (lift_sum (enum_field jsonMsg ''infotype'')) (\<lambda>infotype.
       info_case E send host jsonMsg (infotype_of infotype)))"

definition LOCAL_VIDEO_URL :: string where
  "LOCAL_VIDEO_URL = ''http://127.0.0.1/''"

definition send_info_fd :: "'w ext \<Rightarrow> int \<Rightarrow> string \<Rightarrow> ('w, unit) srv" where
  "send_info_fd E fd buf = send_info_with E (send_fd E fd) NET_VIDEO_URL buf"

definition send_info_sock :: "'w ext \<Rightarrow> nat \<Rightarrow> string \<Rightarrow> ('w, unit) srv" where
  "send_info_sock E k buf = send_info_with E (send_sock E k) LOCAL_VIDEO_URL buf"

section \<open>What they do\<close>

text \<open>The calls answering a request may make.\<close>

definition info_call :: "peer \<Rightarrow> call \<Rightarrow> bool" where
  "info_call p c \<longleftrightarrow> read_call p c \<or> (\<exists>uid. c = Execute (sql_delete_pushes uid))"

lemma cell_row: "i < length row \<Longrightarrow> cell row i = ret (row ! i)"
  by (simp add: cell_def row_at_def)

lemma cell_row0: "row \<noteq> [] \<Longrightarrow> cell row 0 = ret (row ! 0)"
  by (simp add: cell_row)

lemma keeps_cell: "keeps (unchanged f) (cell row i)"
  by (simp add: cell_def part.keeps_lift_sum)

lemma log_cell: "keeps (only_calls P) (cell row i)"
  by (simp add: cell_def log.keeps_lift_sum)

lemma keeps_push_videos: "inner f \<Longrightarrow> keeps (unchanged f) (push_videos E video rows)"
  by (induction rows arbitrary: video)
    (auto simp: set_publisher_def intro!: keeps_handler keeps_cell keeps_split)

lemma log_push_videos: "(\<And>c. P (Store c)) \<Longrightarrow> keeps (only_calls P) (push_videos E video rows)"
  by (induction rows arbitrary: video)
    (auto simp: set_publisher_def intro!: log.keeps_rules log_cell log_query_store keeps_split)

lemma keeps_info_case:
  assumes "inner f" and "\<And>p. keeps (unchanged f) (send p)"
  shows "keeps (unchanged f) (info_case E send host j t)"
proof -
  have a: "keeps (unchanged f) (answer E send c render packet)"
    if "\<And>rows. keeps (unchanged f) (render rows)" for c render packet
    using that assms by (auto simp: answer_def intro!: keeps_handler keeps_split)
  have r: "keeps (unchanged f) (row_Comment row)" "keeps (unchanged f) (row_VodList host row)"
    "keeps (unchanged f) (row_VideoLike E row)" "keeps (unchanged f) (row_Follow row)" "keeps (unchanged f) (row_Fans row)"
    "keeps (unchanged f) (row_NickName uid row)" "keeps (unchanged f) (row_UserVideo row)" "keeps (unchanged f) (row_Message row)"
    for row uid
    unfolding row_Comment_def row_VodList_def row_VideoLike_def row_Follow_def row_Fans_def row_NickName_def
      row_UserVideo_def row_Message_def
    by (intro part.keeps_rules keeps_cell)+
  show ?thesis
    unfolding info_case_def info_Comment_def info_VodList_def info_VideoLike_def info_Follow_def info_Fans_def
      info_LiveList_def info_NickName_def info_UserVideo_def info_UserVideoLike_def info_Message_def
      info_VideoPush_def getLiveList_def all_rows_def first_row_def
    using assms by (auto intro!: keeps_handler a r keeps_push_videos split: option.split InfoType.split)
qed

lemma log_send:
  "(\<And>bs. P (Sent (Sock k) bs)) \<Longrightarrow> keeps (only_calls P) (send_sock E k np)"
  "(\<And>bs. P (Sent (Fd fd) bs)) \<Longrightarrow> keeps (only_calls P) (send_fd E fd np)"
  by (auto simp: send_sock_def send_fd_def intro!: log.keeps_rules log_boost_write log_my_send)

lemma log_reply: "(\<And>np. keeps (only_calls P) (send np)) \<Longrightarrow> keeps (only_calls P) (reply send p)"
  by (auto simp: reply_def intro!: log.keeps_rules)

lemma log_info_case:
  assumes send: "\<And>np. keeps (only_calls (info_call q)) (send np)"
  shows "keeps (only_calls (info_call q)) (info_case E send host j t)"
proof -
  have p: "info_call q (Store c)" "info_call q (Execute (sql_delete_pushes u))"
    for c u by (auto simp: info_call_def read_call_def)
  have a: "keeps (only_calls (info_call q)) (answer E send c render packet)"
    if "\<And>rows. keeps (only_calls (info_call q)) (render rows)" for c render packet
    using that by (auto simp: answer_def intro!: log.keeps_rules log_query_store log_reply send p keeps_split)
  have r: "keeps (only_calls P) (row_Comment row)" "keeps (only_calls P) (row_VodList host row)"
    "keeps (only_calls P) (row_VideoLike E row)" "keeps (only_calls P) (row_Follow row)" "keeps (only_calls P) (row_Fans row)"
    "keeps (only_calls P) (row_NickName uid row)" "keeps (only_calls P) (row_UserVideo row)" "keeps (only_calls P) (row_Message row)"
    for P row uid
    unfolding row_Comment_def row_VodList_def row_VideoLike_def row_Follow_def row_Fans_def row_NickName_def
      row_UserVideo_def row_Message_def
    by (intro log.keeps_rules log_cell)+
  show ?thesis
    unfolding info_case_def info_Comment_def info_VodList_def info_VideoLike_def info_Follow_def info_Fans_def
      info_LiveList_def info_NickName_def info_UserVideo_def info_UserVideoLike_def info_Message_def
      info_VideoPush_def getLiveList_def all_rows_def first_row_def run_sql_def
    by (auto intro!: log.keeps_rules a r log_field log_push_videos log_reply send log_query_store
        log_query_execute p keeps_if split: option.split InfoType.split)
qed

lemma log_send_info:
  "keeps (only_calls (info_call (Sock k))) (send_info_sock E k buf)"
  "keeps (only_calls (info_call (Fd fd))) (send_info_fd E fd buf)"
  unfolding send_info_sock_def send_info_fd_def send_info_with_def
  by (intro log.keeps_rules log_info_case log_send; simp add: info_call_def read_call_def)+

lemma send_info_with_app:
  assumes "json_parse buf = Inr j" and "enum_field j ''infotype'' = Inr (infotype_int t)"
  shows "send_info_with E send host buf s = info_case E send host j (Some t) s"
  using assms by (simp add: send_info_with_def bnd_def)

lemma reply_sock_app:
  assumes "p = Inr np" and "\<And>w. fst (asio_write E k (packet_bytes np) w) = Some (length (packet_bytes np))"
  shows "reply (send_sock E k) p s = Some (Inr (), s\<lparr>world := snd (asio_write E k (packet_bytes np) (world s)),
    calls := calls s @ [Sent (Sock k) (packet_bytes np)]\<rparr>)"
  using assms(2) [of "world s"]
  by (auto simp: assms(1) reply_def send_sock_def boost_write_def bnd_def log_call_def split: prod.splits)

lemma map_each_ret: "(\<And>x. x \<in> set xs \<Longrightarrow> f x = ret (g x)) \<Longrightarrow> map_each f xs = ret (map g xs)"
  by (induction xs) (simp_all del: ret_app)

text \<open>A reply built from all rows, sent on a socket that takes it.\<close>

lemma answer_rows:
  assumes "fst (mysql_store E c (world s)) = Some rows" and "\<And>row. row \<in> set rows \<Longrightarrow> render row = ret (g row)"
    and "packet (json_array (map g rows)) = Inr np"
    and "\<And>w. fst (asio_write E k (packet_bytes np) w) = Some (length (packet_bytes np))"
  shows "\<exists>w. answer E (send_sock E k) c (all_rows render) packet s = Some (Inr (), s\<lparr>world := w,
    calls := calls s @ [Store c, Sent (Sock k) (packet_bytes np)]\<rparr>)"
proof -
  let ?s = "s\<lparr>world := snd (mysql_store E c (world s)), calls := calls s @ [Store c]\<rparr>"
  have "answer E (send_sock E k) c (all_rows render) packet s = reply (send_sock E k) (packet (json_array (map g rows))) ?s"
  proof (cases "rows = []")
    case True
    with assms(1) show ?thesis by (simp add: answer_def query_store_app json_array_def)
  next
    case False
    have "all_rows render rows = ret (json_array (map g rows))"
      using map_each_ret [of rows render g] assms(2) by (simp add: all_rows_def del: ret_app)
    with assms(1) False show ?thesis by (simp add: answer_def query_store_app)
  qed
  then show ?thesis by (simp add: reply_sock_app [OF assms(3,4)]) blast
qed

lemma canon_elements_map: "(\<And>x. x \<in> set xs \<Longrightarrow> canon (g x) = g x) \<Longrightarrow> canon_elements (map g xs) = map g xs"
  by (induction xs) simp_all

lemma json_wf_elements_map: "json_wf_elements (map g xs) \<longleftrightarrow> (\<forall>x \<in> set xs. json_wf (g x))"
  by (induction xs) simp_all

lemma toJson_plain:
  "canon (toJson_CommentInfo a b c d e f) = toJson_CommentInfo a b c d e f" "json_wf (toJson_CommentInfo a b c d e f)"
  "canon (toJson_LiveListInfo a b) = toJson_LiveListInfo a b" "json_wf (toJson_LiveListInfo a b)"
  by (simp_all add: toJson_CommentInfo_def toJson_LiveListInfo_def json_object_def)

text \<open>What the receiver of a packet that carries a list of plain objects parses.\<close>

lemma list_packet:
  assumes "make_packet p (json_object [(''infotype'', enum_json (infotype_int t)), (key, json_array (map g xs))]) = Inr np"
    and "\<And>x. x \<in> set xs \<Longrightarrow> canon (g x) = g x \<and> json_wf (g x)" and "key \<noteq> ''infotype''"
  shows "json_parse (drop header_size (packet_bytes np))
    = Inr (json_object [(''infotype'', JUnsigned (word_of_int (infotype_int t))), (key, json_array (map g xs))])"
proof -
  let ?j = "json_object [(''infotype'', enum_json (infotype_int t)), (key, json_array (map g xs))]"
  have key: "json_object [(''infotype'', a), (key, b)]
      = JObject (if key < ''infotype'' then [(key, b), (''infotype'', a)] else [(''infotype'', a), (key, b)])" for a b
    using assms(3) by (auto simp: json_object_def)
  have list: "canon (json_array (map g xs)) = json_array (map g xs) \<and> json_wf (json_array (map g xs))"
    using assms(2) by (auto simp: json_array_def json_wf_elements_map intro!: canon_elements_map)
  have int: "canon (enum_json (infotype_int t)) = JUnsigned (word_of_int (infotype_int t))"
    "json_wf (enum_json (infotype_int t))"
    by (cases t; simp add: enum_json_def)+
  obtain out where out: "dump ?j = Inr out" using assms(1) by (rule make_packet_Inr)
  have "''infotype'' < key" if "\<not> key < ''infotype''" using that assms(3) by (metis linorder_less_linear)
  then have "json_wf ?j" "canon ?j = json_object [(''infotype'', JUnsigned (word_of_int (infotype_int t))), (key, json_array (map g xs))]"
    using list int by (auto simp: key)
  with parse_dump [OF out, of 0] packet_bytes_make [OF assms(1) out] show ?thesis by simp
qed

text \<open>The pushes: each video with the last publisher found so far.\<close>

definition push_json :: "string \<Rightarrow> string option \<Rightarrow> json" where
  "push_json v p = JObject ((case p of None \<Rightarrow> [] | Some u \<Rightarrow> [(''publisherId'', JString u)]) @ [(''videoId'', JString v)])"

definition found :: "string list list option \<Rightarrow> string option" where
  "found res = (case res of Some (row # _) \<Rightarrow> Some (row ! 0) | _ \<Rightarrow> None)"

fun carried :: "string option \<Rightarrow> (string \<times> string option) list \<Rightarrow> (string \<times> string option) list" where
  "carried p [] = []"
| "carried p ((v, q) # vs) = (let p' = (case q of None \<Rightarrow> p | Some u \<Rightarrow> Some u) in (v, p') # carried p' vs)"

lemma set_publisher_found:
  assumes "\<And>row rows. res = Some (row # rows) \<Longrightarrow> row \<noteq> []"
  shows "set_publisher res (push_json v p) = ret (push_json v (case found res of None \<Rightarrow> p | Some u \<Rightarrow> Some u))"
  using assms
  by (auto simp: set_publisher_def found_def cell_row push_json_def json_set_def split: option.splits list.splits)

lemma set_videoId: "video = JNull \<and> p = None \<or> (\<exists>u. video = push_json u p) \<Longrightarrow>
    json_set ''videoId'' (JString v) video = Inr (push_json v p)"
  by (auto simp: json_set_def push_json_def split: option.splits)

lemma push_videos_run:
  assumes "\<And>row. row \<in> set rows \<Longrightarrow> row \<noteq> []"
    and "\<And>v w. fst (mysql_store E (sql_publisher v) w) = publishers v"
    and "\<And>v row rs. publishers v = Some (row # rs) \<Longrightarrow> row \<noteq> []"
    and "video = JNull \<and> p = None \<or> (\<exists>u. video = push_json u p)"
  shows "\<exists>w. push_videos E video rows s = Some
      (Inr (map (\<lambda>(v, p). push_json v p) (carried p (map (\<lambda>row. (row ! 0, found (publishers (row ! 0)))) rows))),
       s\<lparr>world := w, calls := calls s @ map (\<lambda>row. Store (sql_publisher (row ! 0))) rows\<rparr>)"
  using assms(1,4)
proof (induction rows arbitrary: video p s)
  case Nil
  then show ?case by (intro exI [of _ "world s"]) simp
next
  case (Cons row rows)
  let ?v = "row ! 0" let ?p = "case found (publishers (row ! 0)) of None \<Rightarrow> p | Some u \<Rightarrow> Some u"
  let ?s = "s\<lparr>world := snd (mysql_store E (sql_publisher ?v) (world s)), calls := calls s @ [Store (sql_publisher ?v)]\<rparr>"
  have row: "cell row 0 = ret ?v" using Cons.prems(1) [of row] by (simp add: cell_row)
  have "push_videos E video (row # rows) s
      = bnd (push_videos E (push_json ?v ?p) rows) (\<lambda>videos. ret (push_json ?v ?p # videos)) ?s"
    using assms(3) by (simp add: row set_videoId [OF Cons.prems(2)] query_store_app assms(2) set_publisher_found)
  moreover obtain w where "push_videos E (push_json ?v ?p) rows ?s = Some
      (Inr (map (\<lambda>(v, p). push_json v p) (carried ?p (map (\<lambda>row. (row ! 0, found (publishers (row ! 0)))) rows))),
       ?s\<lparr>world := w, calls := calls ?s @ map (\<lambda>row. Store (sql_publisher (row ! 0))) rows\<rparr>)"
    using Cons.IH [of "push_json ?v ?p" ?p ?s] Cons.prems(1) by auto
  ultimately show ?case
    by (intro exI [of _ w]) (simp add: bnd_InrI Let_def del: push_videos.simps)
qed

lemma info_VideoPush_run:
  assumes "str_field j ''userId'' = Inr u" and "fst (mysql_store E (sql_pushes u) (world s)) = Some rows" and "rows \<noteq> []"
    and "\<forall>row \<in> set rows. row \<noteq> []"
    and "\<And>v w. fst (mysql_store E (sql_publisher v) w) = publishers v"
    and "\<forall>v row rs. publishers v = Some (row # rs) \<longrightarrow> row \<noteq> []"
    and "sendVideoPushInfo_P (json_array (map (\<lambda>(v, p). push_json v p)
        (carried None (map (\<lambda>row. (row ! 0, found (publishers (row ! 0)))) rows)))) = Inr np"
  shows "\<exists>w. info_VideoPush E send j s = bnd (send np) (\<lambda>_. run_sql E (sql_delete_pushes u)) (s\<lparr>world := w,
      calls := calls s @ Store (sql_pushes u) # map (\<lambda>row. Store (sql_publisher (row ! 0))) rows\<rparr>)"
proof -
  let ?s = "s\<lparr>world := snd (mysql_store E (sql_pushes u) (world s)), calls := calls s @ [Store (sql_pushes u)]\<rparr>"
  obtain w where "push_videos E JNull rows ?s = Some
      (Inr (map (\<lambda>(v, p). push_json v p) (carried None (map (\<lambda>row. (row ! 0, found (publishers (row ! 0)))) rows))),
       ?s\<lparr>world := w, calls := calls ?s @ map (\<lambda>row. Store (sql_publisher (row ! 0))) rows\<rparr>)"
    using push_videos_run [where rows = rows and E = E and publishers = publishers and video = JNull and p = None
        and s = ?s] assms(4-6) by blast
  with assms(1-3,7) show ?thesis
    by (intro exI [of _ w]) (simp add: info_VideoPush_def field_app query_store_app bnd_InrI reply_def bnd_assoc)
qed

text \<open>Requests as a client prints them.\<close>

definition info_request :: "InfoType \<Rightarrow> string \<Rightarrow> string \<Rightarrow> json" where
  "info_request t key v = json_object [(''infotype'', JUnsigned (word_of_int (infotype_int t))), (key, JString v)]"

lemma info_request_fields:
  "enum_field (info_request t ''userId'' u) ''infotype'' = Inr (infotype_int t)"
  "enum_field (info_request t ''id'' u) ''infotype'' = Inr (infotype_int t)"
  "str_field (info_request t ''userId'' u) ''userId'' = Inr u" "str_field (info_request t ''id'' u) ''id'' = Inr u"
  by (cases t; simp add: info_request_def json_object_def enum_field_def str_field_def field_with_def
      json_index_def json_string_def json_enum_def get_arithmetic_value_def word_to_int_def)+

lemma info_request_parses:
  "dump (info_request t ''userId'' u) = Inr buf \<Longrightarrow> json_parse buf = Inr (info_request t ''userId'' u)"
  "dump (info_request t ''id'' u) = Inr buf \<Longrightarrow> json_parse buf = Inr (info_request t ''id'' u)"
  using parse_dump [of "info_request t ''userId'' u" buf 0] parse_dump [of "info_request t ''id'' u" buf 0]
  by (simp_all add: info_request_def json_object_def)

lemma info_requests_print:
  "\<exists>buf. dump (info_request InfoType.VideoPush ''userId'' ''7'') = Inr buf"
  "\<exists>buf. dump (info_request InfoType.LiveList ''userId'' ''7'') = Inr buf"
  "\<exists>buf. dump (info_request InfoType.Comment ''id'' ''7'') = Inr buf"
  by (simp_all add: info_request_def json_object_def dump_eval)

section \<open>Properties\<close>

text \<open>
  Answering a request for information never changes the memory of the process; the calls it
  makes are queries, bytes for the requesting socket, and at most the command that deletes the
  delivered pushes of a user.
\<close>

theorem send_info_reads_only:
  assumes "send_info_sock E k buf s = Some (r, s')"
  shows "memory s' = memory s \<and> (\<exists>cs. calls s' = calls s @ cs \<and> (\<forall>c \<in> set cs. info_call (Sock k) c))"
proof -
  have "keeps (unchanged memory) (send_info_sock E k buf)"
    unfolding send_info_sock_def send_info_with_def
    by (intro part.keeps_rules keeps_info_case keeps_send) simp_all
  moreover have "keeps (only_calls (info_call (Sock k))) (send_info_sock E k buf)" by (rule log_send_info)
  ultimately show ?thesis using assms by (auto simp: keeps_def unchanged_def only_calls_def)
qed

theorem send_info_reads_only_witness:
  "\<exists>buf r s'. dump (info_request InfoType.Comment ''id'' ''7'') = Inr buf
    \<and> send_info_sock (sample_ext\<lparr>mysql_store := (\<lambda>c w. (None, w))\<rparr>) 1 buf
        (sample_server\<lparr>m_liveList := [''7'' \<mapsto> ''u'']\<rparr>) = Some (r, s')
    \<and> calls s' = [Store (sql_comments ''7'')] \<and> m_liveList s' = [''7'' \<mapsto> ''u'']"
proof -
  let ?s = "sample_server\<lparr>m_liveList := [''7'' \<mapsto> ''u'']\<rparr>" let ?E = "sample_ext\<lparr>mysql_store := (\<lambda>c w. (None, w))\<rparr>"
  obtain buf where buf: "dump (info_request InfoType.Comment ''id'' ''7'') = Inr buf" using info_requests_print by blast
  obtain s' where s': "send_info_sock ?E 1 buf ?s = Some (Inr (), s')" "calls s' = [Store (sql_comments ''7'')]"
    by (simp add: send_info_sock_def send_info_with_app [OF info_request_parses(2) [OF buf] info_request_fields(2)]
        info_case_def info_Comment_def field_app [OF info_request_fields(4)] answer_def query_store_app sample_server_def)
  from send_info_reads_only [OF s'(1)] have "m_liveList s' = [''7'' \<mapsto> ''u'']" by (simp add: memory_def tables_def)
  with buf s' show ?thesis by blast
qed

text \<open>
  The comments of a video: when the query succeeds, with complete rows, one packet is sent,
  and what its receiver parses is the list of all rows of the answer, in their order, each with
  its six columns under their names (null when there are none).
\<close>

theorem comments_reply:
  assumes "json_parse buf = Inr j" and "enum_field j ''infotype'' = Inr 0" and "str_field j ''id'' = Inr v"
    and "fst (mysql_store E (sql_comments v) (world s)) = Some rows" and "\<And>row. row \<in> set rows \<Longrightarrow> 6 \<le> length row"
    and "sendComments_P (json_array (map (\<lambda>r. toJson_CommentInfo (r ! 0) (r ! 1) (r ! 2) (r ! 3) (r ! 4) (r ! 5)) rows)) = Inr np"
    and "\<And>w. fst (asio_write E k (packet_bytes np) w) = Some (length (packet_bytes np))"
  shows "\<exists>w. send_info_sock E k buf s = Some (Inr (), s\<lparr>world := w,
        calls := calls s @ [Store (sql_comments v), Sent (Sock k) (packet_bytes np)]\<rparr>)
    \<and> json_parse (drop header_size (packet_bytes np)) = Inr (json_object [(''infotype'', JUnsigned 0), (''comments'',
        json_array (map (\<lambda>r. toJson_CommentInfo (r ! 0) (r ! 1) (r ! 2) (r ! 3) (r ! 4) (r ! 5)) rows))])"
proof -
  let ?g = "\<lambda>r. toJson_CommentInfo (r ! 0) (r ! 1) (r ! 2) (r ! 3) (r ! 4) (r ! 5)"
  have "row_Comment row = ret (?g row)" if "row \<in> set rows" for row
    using assms(5) [OF that] by (cases "row = []") (simp_all add: row_Comment_def cell_row cell_row0 del: ret_app)
  from answer_rows [where s = s and render = row_Comment and g = ?g and packet = sendComments_P, OF assms(4) this assms(6,7)]
  obtain w where w: "answer E (send_sock E k) (sql_comments v) (all_rows row_Comment) sendComments_P s
    = Some (Inr (), s\<lparr>world := w, calls := calls s @ [Store (sql_comments v), Sent (Sock k) (packet_bytes np)]\<rparr>)"
    by blast
  have t: "enum_field j ''infotype'' = Inr (infotype_int InfoType.Comment)" using assms(2) by simp
  have "send_info_sock E k buf s = answer E (send_sock E k) (sql_comments v) (all_rows row_Comment) sendComments_P s"
    by (simp add: send_info_sock_def send_info_with_app [OF assms(1) t] info_case_def info_Comment_def
        field_app [OF assms(3)])
  moreover have "json_parse (drop header_size (packet_bytes np)) = Inr (json_object [(''infotype'', JUnsigned
      (word_of_int (infotype_int InfoType.Comment))), (''comments'', json_array (map ?g rows))])"
    by (rule list_packet [OF assms(6) [unfolded sendComments_P_def]]) (simp_all add: toJson_plain)
  ultimately show ?thesis using w by (intro exI [of _ w]) simp
qed

theorem comments_reply_witness:
  "\<exists>E :: sample ext. \<exists>buf np w. dump (info_request InfoType.Comment ''id'' ''7'') = Inr buf
    \<and> send_info_sock E 1 buf sample_server = Some (Inr (), sample_server\<lparr>world := w,
        calls := [Store (sql_comments ''7''), Sent (Sock 1) (packet_bytes np)]\<rparr>)
    \<and> json_parse (drop header_size (packet_bytes np)) = Inr (json_object [(''infotype'', JUnsigned 0), (''comments'',
        JArray [toJson_CommentInfo ''1'' ''0'' ''8'' ''7'' ''hi'' ''t''])])"
proof -
  let ?rows = "[[''1'', ''0'', ''8'', ''7'', ''hi'', ''t'']]"
  let ?E = "sample_ext\<lparr>mysql_store := (\<lambda>c w. (Some ?rows, w))\<rparr>"
  let ?js = "json_array (map (\<lambda>r. toJson_CommentInfo (r ! 0) (r ! 1) (r ! 2) (r ! 3) (r ! 4) (r ! 5)) ?rows)"
  obtain buf where buf: "dump (info_request InfoType.Comment ''id'' ''7'') = Inr buf" using info_requests_print by blast
  have "\<exists>np. sendComments_P ?js = Inr np" unfolding sendComments_P_def
    by (rule exI, rule make_packet_fits)
      (simp add: json_object_def json_array_def toJson_CommentInfo_def enum_json_def dump_integer_dec dec_int_def
        dec_nat_0 dump_eval, simp add: BUF_SIZE_def)
  then obtain np where np: "sendComments_P ?js = Inr np" by blast
  have i: "enum_field (info_request InfoType.Comment ''id'' ''7'') ''infotype'' = Inr 0"
    using info_request_fields(2) [of InfoType.Comment] by simp
  have "\<And>w. fst (asio_write ?E 1 (packet_bytes np) w) = Some (length (packet_bytes np))" by (simp add: sample_ext_def)
  from comments_reply [OF info_request_parses(2) [OF buf] i info_request_fields(4), of ?E sample_server ?rows,
      OF _ _ np this] buf
  show ?thesis by (auto simp: sample_server_def json_array_def)
qed

text \<open>
  A request for the live list is answered by one packet; its receiver parses the list of
  all running streams, every entry of the table exactly once, in the order of the walk (null
  when there is none), and no query is made.
\<close>

theorem live_list_reply:
  assumes "json_parse buf = Inr j" and "enum_field j ''infotype'' = Inr 6"
    and "walks (map_order E)" and "finite (dom (m_liveList s))"
    and "sendLiveList_P (live_list_json E (m_liveList s)) = Inr np"
    and "\<And>w. fst (asio_write E k (packet_bytes np) w) = Some (length (packet_bytes np))"
  shows "\<exists>w es. send_info_sock E k buf s = Some (Inr (), s\<lparr>world := w,
        calls := calls s @ [Sent (Sock k) (packet_bytes np)]\<rparr>)
    \<and> distinct (map fst es) \<and> map_of es = m_liveList s
    \<and> json_parse (drop header_size (packet_bytes np)) = Inr (json_object [(''infotype'', JUnsigned 6), (''liveList'',
        json_array (map (\<lambda>(uid, url). toJson_LiveListInfo uid url) es))])"
proof -
  let ?es = "map_order E (m_liveList s)" let ?g = "\<lambda>(uid, url). toJson_LiveListInfo uid url"
  have t: "enum_field j ''infotype'' = Inr (infotype_int InfoType.LiveList)" using assms(2) by simp
  have "\<exists>w. send_info_sock E k buf s = Some (Inr (), s\<lparr>world := w,
        calls := calls s @ [Sent (Sock k) (packet_bytes np)]\<rparr>)"
    by (simp add: send_info_sock_def send_info_with_app [OF assms(1) t] info_case_def info_LiveList_def
        getLiveList_def bnd_get_st reply_sock_app [OF assms(5,6)]) blast
  moreover have "json_parse (drop header_size (packet_bytes np)) = Inr (json_object [(''infotype'', JUnsigned
      (word_of_int (infotype_int InfoType.LiveList))), (''liveList'', json_array (map ?g ?es))])"
    by (rule list_packet [OF assms(5) [unfolded sendLiveList_P_def live_list_json_def]])
      (auto simp: toJson_plain)
  ultimately show ?thesis using walksD [OF assms(3,4)] by (auto simp: enumerates_def)
qed

theorem live_list_reply_witness:
  "\<exists>buf s' np. dump (info_request InfoType.LiveList ''userId'' ''7'') = Inr buf
    \<and> send_info_sock sample_ext 1 buf (sample_server\<lparr>m_liveList := [''7'' \<mapsto> ''u'']\<rparr>) = Some (Inr (), s')
    \<and> calls s' = [Sent (Sock 1) (packet_bytes np)]"
proof -
  let ?s = "sample_server\<lparr>m_liveList := [''7'' \<mapsto> ''u'']\<rparr>"
  obtain buf where buf: "dump (info_request InfoType.LiveList ''userId'' ''7'') = Inr buf" using info_requests_print by blast
  have "\<exists>np. sendLiveList_P (live_list_json sample_ext (m_liveList ?s)) = Inr np" unfolding sendLiveList_P_def
    by (rule exI, rule make_packet_fits)
      (simp add: json_object_def json_array_def live_list_json_def toJson_LiveListInfo_def enum_json_def sample_ext_def
        sorted_entries_def dump_integer_dec dec_int_def dec_nat.simps dump_eval, simp add: BUF_SIZE_def)
  then obtain np where np: "sendLiveList_P (live_list_json sample_ext (m_liveList ?s)) = Inr np" by blast
  have i: "enum_field (info_request InfoType.LiveList ''userId'' ''7'') ''infotype'' = Inr 6"
    using info_request_fields(1) [of InfoType.LiveList] by simp
  have "\<And>w. fst (asio_write sample_ext 1 (packet_bytes np) w) = Some (length (packet_bytes np))" by (simp add: sample_ext_def)
  from live_list_reply [OF info_request_parses(1) [OF buf] i sample_walks(1) _ np this] buf
  show ?thesis by (auto simp: sample_server_def)
qed

text \<open>
  C25: Fetching the pushes of a user: one lookup per push, one packet, then the pushes are
  deleted.  In the packet a video whose publisher is not found is reported with the publisher of
  the last video before it that has one, not without a publisher.
\<close>

theorem push_reply:
  assumes "json_parse buf = Inr j" and "enum_field j ''infotype'' = Inr 13" and "str_field j ''userId'' = Inr u"
    and "fst (mysql_store E (sql_pushes u) (world s)) = Some rows" and "rows \<noteq> []"
    and "\<forall>row \<in> set rows. row \<noteq> []"
    and "\<And>v w. fst (mysql_store E (sql_publisher v) w) = publishers v"
    and "\<forall>v row rs. publishers v = Some (row # rs) \<longrightarrow> row \<noteq> []"
    and "sendVideoPushInfo_P (json_array (map (\<lambda>(v, p). push_json v p)
        (carried None (map (\<lambda>row. (row ! 0, found (publishers (row ! 0)))) rows)))) = Inr np"
    and "\<And>w. fst (asio_write E k (packet_bytes np) w) = Some (length (packet_bytes np))"
  shows "\<exists>w. send_info_sock E k buf s = Some (Inr (), s\<lparr>world := w, calls := calls s @
      Store (sql_pushes u) # map (\<lambda>row. Store (sql_publisher (row ! 0))) rows @
      [Sent (Sock k) (packet_bytes np), Execute (sql_delete_pushes u)]\<rparr>)"
proof -
  have t: "enum_field j ''infotype'' = Inr (infotype_int InfoType.VideoPush)" using assms(2) by simp
  obtain w where "info_VideoPush E (send_sock E k) j s
      = bnd (reply (send_sock E k) (Inr np)) (\<lambda>_. run_sql E (sql_delete_pushes u)) (s\<lparr>world := w,
      calls := calls s @ Store (sql_pushes u) # map (\<lambda>row. Store (sql_publisher (row ! 0))) rows\<rparr>)"
    using info_VideoPush_run [where send = "send_sock E k" and s = s, OF assms(3-9)] by (auto simp: reply_def)
  then show ?thesis
    by (simp add: send_info_sock_def send_info_with_app [OF assms(1) t] info_case_def
        bnd_InrI [OF reply_sock_app [OF refl assms(10)]] run_sql_app) blast
qed

text \<open>
  The pushes of a user are deleted although the client never got them, when the connection
  is a plain socket whose \<^verbatim>\<open>send\<close> fails: the error is ignored.  On a Boost socket the failed write
  leaves the handler with an exception and no command is executed.
\<close>

theorem push_lost:
  assumes "json_parse buf = Inr j" and "enum_field j ''infotype'' = Inr 13" and "str_field j ''userId'' = Inr u"
    and "fst (mysql_store E (sql_pushes u) (world s)) = Some rows" and "rows \<noteq> []"
    and "\<forall>row \<in> set rows. row \<noteq> []"
    and "\<And>v w. fst (mysql_store E (sql_publisher v) w) = publishers v"
    and "\<forall>v row rs. publishers v = Some (row # rs) \<longrightarrow> row \<noteq> []"
    and "sendVideoPushInfo_P (json_array (map (\<lambda>(v, p). push_json v p)
        (carried None (map (\<lambda>row. (row ! 0, found (publishers (row ! 0)))) rows)))) = Inr np"
    and "\<And>w. fst (sys_send E fd (packet_bytes np) w) = Send_error"
    and "\<And>w. fst (asio_write E k (packet_bytes np) w) = None"
  shows "(\<exists>s' cs. send_info_fd E fd buf s = Some (Inr (), s') \<and> calls s' = calls s @ cs
        \<and> sent_bytes (Fd fd) cs = [] \<and> last cs = Execute (sql_delete_pushes u))
    \<and> (\<exists>s' cs. send_info_sock E k buf s = Some (Inl Socket_error, s') \<and> calls s' = calls s @ cs
        \<and> (\<forall>c. Execute c \<notin> set cs))"
proof -
  have t: "enum_field j ''infotype'' = Inr (infotype_int InfoType.VideoPush)" using assms(2) by simp
  let ?cs = "Store (sql_pushes u) # map (\<lambda>row. Store (sql_publisher (row ! 0))) rows"
  have none: "sent_bytes (Fd fd) (map (\<lambda>row. Store (sql_publisher (row ! 0))) rows) = []" by (induction rows) simp_all
  have "packet_bytes np \<noteq> []" by (simp add: packet_bytes_def header_bytes_def le32_def Let_def)
  then have fd: "\<exists>w'. send_fd E fd np t = Some (Inr (), t\<lparr>world := w', calls := calls t @ [Sent (Fd fd) []]\<rparr>)" for t
    using assms(10) [of "world t"]
    by (cases "sys_send E fd (packet_bytes np) (world t)")
      (auto simp: send_fd_def my_send_def bnd_def my_send_loop.simps [of E fd "packet_bytes np"] log_call_def)
  have sock: "\<exists>w'. send_sock E k np t = Some (Inl Socket_error, t\<lparr>world := w'\<rparr>)" for t
    using assms(11) [of "world t"] by (cases "asio_write E k (packet_bytes np) (world t)")
      (auto simp: send_sock_def boost_write_def bnd_def)
  obtain w where w: "info_VideoPush E (send_fd E fd) j s = bnd (send_fd E fd np)
      (\<lambda>_. run_sql E (sql_delete_pushes u)) (s\<lparr>world := w, calls := calls s @ ?cs\<rparr>)"
    using info_VideoPush_run [where send = "send_fd E fd" and s = s, OF assms(3-9)] by auto
  obtain w' where "send_fd E fd np (s\<lparr>world := w, calls := calls s @ ?cs\<rparr>)
      = Some (Inr (), s\<lparr>world := w', calls := calls s @ ?cs @ [Sent (Fd fd) []]\<rparr>)"
    using fd [of "s\<lparr>world := w, calls := calls s @ ?cs\<rparr>"] by auto
  then have "\<exists>s' cs. send_info_fd E fd buf s = Some (Inr (), s') \<and> calls s' = calls s @ cs
        \<and> sent_bytes (Fd fd) cs = [] \<and> last cs = Execute (sql_delete_pushes u)"
    by (simp add: send_info_fd_def send_info_with_app [OF assms(1) t] info_case_def w bnd_InrI run_sql_app
        sent_bytes_append none)
  moreover obtain w where w: "info_VideoPush E (send_sock E k) j s = bnd (send_sock E k np)
      (\<lambda>_. run_sql E (sql_delete_pushes u)) (s\<lparr>world := w, calls := calls s @ ?cs\<rparr>)"
    using info_VideoPush_run [where send = "send_sock E k" and s = s, OF assms(3-9)] by auto
  then have "\<exists>s' cs. send_info_sock E k buf s = Some (Inl Socket_error, s') \<and> calls s' = calls s @ cs
        \<and> (\<forall>c. Execute c \<notin> set cs)"
    using sock [of "s\<lparr>world := w, calls := calls s @ ?cs\<rparr>"]
    by (auto simp: send_info_sock_def send_info_with_app [OF assms(1) t] info_case_def w bnd_InlI)
  ultimately show ?thesis by blast
qed

text \<open>Two pushes, of which only the first video still exists.\<close>

definition push_answers :: "string \<Rightarrow> string list list option" where
  "push_answers c = (if c = sql_pushes ''7'' then Some [[''1''], [''2'']]
     else if c = sql_publisher ''1'' then Some [[''9'']] else Some [])"

lemma push_answers_eval: "push_answers (sql_pushes ''7'') = Some [[''1''], [''2'']]"
  "push_answers (sql_publisher ''1'') = Some [[''9'']]" "push_answers (sql_publisher ''2'') = Some []"
  "push_answers (sql_publisher v) = Some (row # rs) \<Longrightarrow> row \<noteq> []"
  by (auto simp: push_answers_def sql_pushes_def sql_publisher_def split: if_splits)

lemma push_sample:
  "map (\<lambda>(v, p). push_json v p) (carried None (map (\<lambda>row. (row ! 0, found (push_answers (sql_publisher (row ! 0)))))
      [[''1''], [''2'']])) = [push_json ''1'' (Some ''9''), push_json ''2'' (Some ''9'')]"
  "\<exists>np. sendVideoPushInfo_P (json_array [push_json ''1'' (Some ''9''), push_json ''2'' (Some ''9'')]) = Inr np"
proof -
  show "map (\<lambda>(v, p). push_json v p) (carried None (map (\<lambda>row. (row ! 0, found (push_answers (sql_publisher (row ! 0)))))
      [[''1''], [''2'']])) = [push_json ''1'' (Some ''9''), push_json ''2'' (Some ''9'')]"
    by (simp add: push_answers_eval found_def Let_def)
  show "\<exists>np. sendVideoPushInfo_P (json_array [push_json ''1'' (Some ''9''), push_json ''2'' (Some ''9'')]) = Inr np"
    unfolding sendVideoPushInfo_P_def
    by (rule exI, rule make_packet_fits)
      (simp add: json_object_def json_array_def push_json_def enum_json_def
        dump_integer_dec dec_int_def dec_nat.simps dump_eval, simp add: BUF_SIZE_def)
qed

theorem push_reply_witness:
  "\<exists>E :: sample ext. \<exists>buf np w. dump (info_request InfoType.VideoPush ''userId'' ''7'') = Inr buf
    \<and> sendVideoPushInfo_P (json_array [push_json ''1'' (Some ''9''), push_json ''2'' (Some ''9'')]) = Inr np
    \<and> fst (mysql_store E (sql_publisher ''2'') (world sample_server)) = Some []
    \<and> send_info_sock E 1 buf sample_server = Some (Inr (), sample_server\<lparr>world := w, calls :=
      [Store (sql_pushes ''7''), Store (sql_publisher ''1''), Store (sql_publisher ''2''),
       Sent (Sock 1) (packet_bytes np), Execute (sql_delete_pushes ''7'')]\<rparr>)"
proof -
  let ?E = "sample_ext\<lparr>mysql_store := (\<lambda>c w. (push_answers c, w))\<rparr>"
  obtain buf where buf: "dump (info_request InfoType.VideoPush ''userId'' ''7'') = Inr buf" using info_requests_print by blast
  obtain np where np: "sendVideoPushInfo_P (json_array [push_json ''1'' (Some ''9''), push_json ''2'' (Some ''9'')]) = Inr np"
    using push_sample(2) by blast
  have i: "enum_field (info_request InfoType.VideoPush ''userId'' ''7'') ''infotype'' = Inr 13"
    using info_request_fields(1) [of InfoType.VideoPush] by simp
  have "\<And>w. fst (asio_write ?E 1 (packet_bytes np) w) = Some (length (packet_bytes np))" by (simp add: sample_ext_def)
  from push_reply [OF info_request_parses(1) [OF buf] i info_request_fields(3), of ?E sample_server "[[''1''], [''2'']]"
      "\<lambda>v. push_answers (sql_publisher v)", OF _ _ _ _ _ np [folded push_sample(1)] this]
  show ?thesis using buf np push_answers_eval
    by (intro exI [of _ ?E] exI [of _ buf] exI [of _ np]) (auto simp: sample_server_def)
qed

theorem push_lost_witness:
  "\<exists>E :: sample ext. \<exists>buf s' s''. dump (info_request InfoType.VideoPush ''userId'' ''7'') = Inr buf
    \<and> send_info_fd E 4 buf sample_server = Some (Inr (), s') \<and> last (calls s') = Execute (sql_delete_pushes ''7'')
    \<and> send_info_sock E 1 buf sample_server = Some (Inl Socket_error, s'')"
proof -
  let ?E = "sample_ext\<lparr>mysql_store := (\<lambda>c w. (push_answers c, w)), sys_send := (\<lambda>fd bs w. (Send_error, w)),
    asio_write := (\<lambda>k bs w. (None, w))\<rparr>"
  obtain buf where buf: "dump (info_request InfoType.VideoPush ''userId'' ''7'') = Inr buf" using info_requests_print by blast
  obtain np where np: "sendVideoPushInfo_P (json_array [push_json ''1'' (Some ''9''), push_json ''2'' (Some ''9'')]) = Inr np"
    using push_sample(2) by blast
  have i: "enum_field (info_request InfoType.VideoPush ''userId'' ''7'') ''infotype'' = Inr 13"
    using info_request_fields(1) [of InfoType.VideoPush] by simp
  from push_lost [OF info_request_parses(1) [OF buf] i info_request_fields(3), of ?E sample_server "[[''1''], [''2'']]"
      "\<lambda>v. push_answers (sql_publisher v)", OF _ _ _ _ _ np [folded push_sample(1)], of 4 1]
  show ?thesis using buf push_answers_eval
    by (intro exI [of _ ?E] exI [of _ buf]) (auto simp: sample_server_def)
qed

end
