(* ===== verification/Comments.thy ===== *)
theory Comments
  imports SendInfo Json_Typing
begin

text \<open>
  \<^verbatim>\<open>sendinfocontrol.cpp\<close> and \<^verbatim>\<open>netpacketgenerator.cpp\<close> together: all comments of a video are printed
  into one packet of \<open>BUF_SIZE\<close> bytes.  The exact size of that text, and what becomes of a request
  for the comments below and above the bound.
\<close>

section \<open>The size of a reply\<close>

definition comment_row :: "string list \<Rightarrow> json" where
  "comment_row row = toJson_CommentInfo (row ! 0) (row ! 1) (row ! 2) (row ! 3) (row ! 4) (row ! 5)"

lemma row_Comment_ret:
  "6 \<le> length row \<Longrightarrow> row_Comment row = ret (comment_row row)"
  by (cases "row = []") (simp_all add: row_Comment_def comment_row_def cell_row cell_row0 del: ret_app)

lemma all_comments:
  "(\<And>row. row \<in> set rows \<Longrightarrow> 6 \<le> length row) \<Longrightarrow> all_rows row_Comment rows = ret (json_array (map comment_row rows))"
  unfolding all_rows_def
  by (subst map_each_ret [where g = comment_row]) (simp_all add: row_Comment_ret del: ret_app)

text \<open>The size of the text of a reply: names, quotes and separators, and the printed cells.\<close>

definition comments_size :: "string list list \<Rightarrow> nat" where
  "comments_size rows = 27 + (\<Sum>row \<leftarrow> rows. 83 + (\<Sum>c \<leftarrow> take 6 row. printed_length c))"

lemma take_6: "6 \<le> length row \<Longrightarrow> take 6 row = [row ! 0, row ! 1, row ! 2, row ! 3, row ! 4, row ! 5]"
  by (auto simp: list_eq_iff_nth_eq eval_nat_numeral less_Suc_eq)

lemma dump_comment:
  assumes "6 \<le> length row" and "\<forall>c \<in> set (take 6 row). utf8 c"
  shows "\<exists>out. dump (comment_row row) = Inr out \<and> length out = 82 + (\<Sum>c \<leftarrow> take 6 row. printed_length c)"
proof -
  have c: "\<exists>out. dump_escaped_from (0, 0) c = Inr out \<and> length out = printed_length c" if "c \<in> set (take 6 row)" for c
    using assms(2) that dump_escaped_utf8 [of c] dump_escaped_length [of c] by (auto simp: dump_escaped_def UTF8_ACCEPT_def)
  obtain o0 o1 o2 o3 o4 o5 where
    "dump_escaped_from (0, 0) (row ! 0) = Inr o0 \<and> length o0 = printed_length (row ! 0)"
    "dump_escaped_from (0, 0) (row ! 1) = Inr o1 \<and> length o1 = printed_length (row ! 1)"
    "dump_escaped_from (0, 0) (row ! 2) = Inr o2 \<and> length o2 = printed_length (row ! 2)"
    "dump_escaped_from (0, 0) (row ! 3) = Inr o3 \<and> length o3 = printed_length (row ! 3)"
    "dump_escaped_from (0, 0) (row ! 4) = Inr o4 \<and> length o4 = printed_length (row ! 4)"
    "dump_escaped_from (0, 0) (row ! 5) = Inr o5 \<and> length o5 = printed_length (row ! 5)"
    using c unfolding take_6 [OF assms(1)] by (meson list.set_intros)
  then show ?thesis
    by (simp add: comment_row_def toJson_CommentInfo_def json_object_def dump_eval take_6 [OF assms(1)])
qed

lemma dump_elements_length:
  assumes "xs \<noteq> []" and "\<And>x. x \<in> set xs \<Longrightarrow> \<exists>out. dump (g x) = Inr out \<and> length out = f x"
  shows "\<exists>out. dump_elements (map g xs) = Inr out \<and> Suc (length out) = (\<Sum>x \<leftarrow> xs. Suc (f x))"
  using assms
proof (induction xs)
  case (Cons x xs)
  obtain out where x: "dump (g x) = Inr out" "length out = f x" using Cons.prems(2) [of x] by auto
  show ?case
  proof (cases "xs = []")
    case False
    with Cons obtain out' where "dump_elements (map g xs) = Inr out'" "Suc (length out') = (\<Sum>x \<leftarrow> xs. Suc (f x))"
      by (metis list.set_intros(2))
    with x show ?thesis by simp
  qed (simp add: x)
qed simp

lemma dump_comments:
  assumes "rows \<noteq> []" and "\<forall>row \<in> set rows. 6 \<le> length row \<and> (\<forall>c \<in> set (take 6 row). utf8 c)"
  shows "\<exists>out. dump (json_object [(''infotype'', enum_json (infotype_int InfoType.Comment)),
      (''comments'', json_array (map comment_row rows))]) = Inr out \<and> length out = comments_size rows"
proof -
  have "\<exists>out. dump_elements (map comment_row rows) = Inr out
      \<and> Suc (length out) = (\<Sum>row \<leftarrow> rows. Suc (82 + (\<Sum>c \<leftarrow> take 6 row. printed_length c)))"
    by (rule dump_elements_length [OF assms(1)]) (use assms(2) dump_comment in blast)
  then show ?thesis using assms(1)
    by (auto simp: json_object_def json_array_def enum_json_def dump_integer_def dump_eval comments_size_def)
qed

section \<open>Properties\<close>

text \<open>
  C34: A request for the comments of a video, all of whose columns are valid UTF-8, is answered
  by one packet exactly when the text fits: 83 bytes a comment besides its columns as printed, and
  27 for the whole.  From \<open>BUF_SIZE\<close> bytes on \<^verbatim>\<open>strcpy\<close> writes past the end of the packet after the
  query, on either transport, and nothing is sent.
\<close>

theorem comments_fit:
  assumes "json_parse buf = Inr j" and "enum_field j ''infotype'' = Inr 0" and "str_field j ''id'' = Inr v"
    and "fst (mysql_store E (sql_comments v) (world s)) = Some rows" and "rows \<noteq> []"
    and "\<forall>row \<in> set rows. 6 \<le> length row \<and> (\<forall>c \<in> set (take 6 row). utf8 c)"
    and "\<And>bs w. fst (asio_write E k bs w) = Some (length bs)"
  shows "if comments_size rows < BUF_SIZE
    then \<exists>w np. send_info_sock E k buf s = Some (Inr (), s\<lparr>world := w,
          calls := calls s @ [Store (sql_comments v), Sent (Sock k) (packet_bytes np)]\<rparr>)
        \<and> length (packet_bytes np) = header_size + comments_size rows
    else \<exists>w. send_info_sock E k buf s = Some (Inl (UB Buffer_overflow), s\<lparr>world := w,
          calls := calls s @ [Store (sql_comments v)]\<rparr>)
        \<and> send_info_fd E fd buf s = Some (Inl (UB Buffer_overflow), s\<lparr>world := w,
          calls := calls s @ [Store (sql_comments v)]\<rparr>)"
proof -
  let ?js = "json_array (map comment_row rows)"
  obtain out where out: "dump (json_object [(''infotype'', enum_json (infotype_int InfoType.Comment)),
      (''comments'', ?js)]) = Inr out" "length out = comments_size rows"
    using dump_comments [OF assms(5,6)] by blast
  show ?thesis
  proof (cases "comments_size rows < BUF_SIZE")
    case True
    then obtain np where np: "sendComments_P ?js = Inr np"
      using make_packet_fits [OF out(1)] out(2) by (auto simp: sendComments_P_def)
    have "\<exists>w. send_info_sock E k buf s = Some (Inr (), s\<lparr>world := w,
          calls := calls s @ [Store (sql_comments v), Sent (Sock k) (packet_bytes np)]\<rparr>)"
      using comments_reply [OF assms(1-4) _ np [unfolded comment_row_def [abs_def]] assms(7)] assms(6) by blast
    then obtain w where "send_info_sock E k buf s = Some (Inr (), s\<lparr>world := w,
          calls := calls s @ [Store (sql_comments v), Sent (Sock k) (packet_bytes np)]\<rparr>)" ..
    moreover have "length (packet_bytes np) = header_size + comments_size rows"
      using packet_bytes_make [OF np [unfolded sendComments_P_def] out(1)] out(2) by simp
    ultimately show ?thesis using True by auto
  next
    case False
    then have np: "sendComments_P ?js = Inl (UB Buffer_overflow)"
      using make_packet_overflow [OF out(1)] out(2) by (simp add: sendComments_P_def)
    have rows: "all_rows row_Comment rows = ret ?js" using assms(6) by (intro all_comments) blast
    have t: "enum_field j ''infotype'' = Inr (infotype_int InfoType.Comment)" using assms(2) by simp
    have full: "reply send (sendComments_P ?js) t = Some (Inl (UB Buffer_overflow), t)" for send :: "'a sender" and t
      by (simp add: reply_def np bnd_def)
    have "send_info_with E send host buf s = Some (Inl (UB Buffer_overflow),
        s\<lparr>world := snd (mysql_store E (sql_comments v) (world s)), calls := calls s @ [Store (sql_comments v)]\<rparr>)" for send host
      using assms(4,5) by (simp add: send_info_with_app [OF assms(1) t] info_case_def info_Comment_def field_app [OF assms(3)]
        answer_def query_store_app rows full)
    with False show ?thesis by (auto simp: send_info_sock_def send_info_fd_def)
  qed
qed

text \<open>A video with 123 empty comments is answered, one with 124 is not.\<close>

theorem comments_fit_witness:
  "\<exists>buf s' s''. dump (info_request InfoType.Comment ''id'' ''7'') = Inr buf
    \<and> send_info_sock (sample_ext\<lparr>mysql_store := (\<lambda>c w. (Some (replicate 123 (replicate 6 [])), w))\<rparr>) 1 buf
        sample_server = Some (Inr (), s')
    \<and> send_info_sock (sample_ext\<lparr>mysql_store := (\<lambda>c w. (Some (replicate 124 (replicate 6 [])), w))\<rparr>) 1 buf
        sample_server = Some (Inl (UB Buffer_overflow), s'')"
proof -
  obtain buf where buf: "dump (info_request InfoType.Comment ''id'' ''7'') = Inr buf" using info_requests_print by blast
  have i: "enum_field (info_request InfoType.Comment ''id'' ''7'') ''infotype'' = Inr 0"
    using info_request_fields(2) [of InfoType.Comment] by simp
  let ?E = "\<lambda>n. sample_ext\<lparr>mysql_store := (\<lambda>c w. (Some (replicate n (replicate 6 [])), w))\<rparr>"
  have rows: "\<forall>row \<in> set (replicate n (replicate 6 [])). 6 \<le> length row \<and> (\<forall>c \<in> set (take 6 row). utf8 c)" for n
    by (auto simp: dump_escaped_utf8 [symmetric] dump_eval)
  have size: "comments_size (replicate n (replicate 6 [])) = 27 + 83 * n" for n
    by (simp add: comments_size_def sum_list_replicate)
  have "\<And>n bs w. fst (asio_write (?E n) 1 bs w) = Some (length bs)" by (simp add: sample_ext_def)
  note fit = comments_fit [OF info_request_parses(2) [OF buf] i info_request_fields(4) _ _ rows this, where fd = 4 and s = sample_server]
  from fit [of 123] fit [of 124] buf show ?thesis by (auto simp: size BUF_SIZE_def)
qed

end
