(* ===== verification/PushRace.thy ===== *)
theory PushRace
  imports SendInfo ReceiveFile
begin

text \<open>
  Pushes that are uploaded while their receiver fetches them.  \<^verbatim>\<open>send_info\<close> of \<^verbatim>\<open>sendinfocontrol.cpp\<close> reads the
  pushes of a user, sends them, and deletes all pushes of the user; an upload (\<^verbatim>\<open>receivefilecontrol.cpp\<close>)
  adds one row per follower, on another thread.  \<open>SendInfo\<close> runs the fetch as a whole; here it is cut before
  the deletion, and uploads happen at any time.
\<close>

section \<open>The fetch, cut before the deletion\<close>

text \<open>The user whose pushes are to be deleted, if there were any.\<close>

definition push_fetch :: "'w ext \<Rightarrow> 'w sender \<Rightarrow> json \<Rightarrow> ('w, string option) srv" where
  "push_fetch E send jsonMsg =
     bnd (field jsonMsg ''userId'') (\<lambda>uid.
     bnd (query_store E (sql_pushes uid)) (\<lambda>res. case res of
       None \<Rightarrow> ret None
     | Some rows \<Rightarrow>
         if rows \<noteq> [] then
           bnd (push_videos E JNull rows) (\<lambda>videos.
           bnd (reply send (sendVideoPushInfo_P (json_array videos))) (\<lambda>_. ret (Some uid)))
         else bnd (reply send (sendVideoPushInfo_P JNull)) (\<lambda>_. ret None)))"

definition push_clear :: "'w ext \<Rightarrow> string \<Rightarrow> ('w, unit) srv" where
  "push_clear E uid = run_sql E (sql_delete_pushes uid)"

text \<open>One round of the loop of an upload, for a follower.\<close>

definition push_add :: "'w ext \<Rightarrow> string \<Rightarrow> string \<Rightarrow> ('w, unit) srv" where
  "push_add E followerId vid = run_sql E (sql_push followerId vid)"

lemma push_alone:
  "info_VideoPush E send j = bnd (push_fetch E send j) (\<lambda>u. case u of None \<Rightarrow> ret () | Some uid \<Rightarrow> push_clear E uid)"
  by (rule ext) (auto simp: info_VideoPush_def push_fetch_def push_clear_def bnd_def split: option.split sum.split)

text \<open>Where the fetch is; the events are its turns and the uploads of videos for the user.\<close>

datatype fetch = Asking json | Clearing string | Fetched

datatype push_event = Uploaded string | Turn

definition fetch_step :: "'w ext \<Rightarrow> 'w sender \<Rightarrow> fetch \<Rightarrow> ('w, fetch) srv" where
  "fetch_step E send f = (case f of
     Asking j \<Rightarrow> bnd (push_fetch E send j) (\<lambda>u. ret (case u of None \<Rightarrow> Fetched | Some uid \<Rightarrow> Clearing uid))
   | Clearing uid \<Rightarrow> bnd (push_clear E uid) (\<lambda>_. ret Fetched)
   | Fetched \<Rightarrow> ret Fetched)"

fun push_run :: "'w ext \<Rightarrow> 'w sender \<Rightarrow> string \<Rightarrow> push_event list \<Rightarrow> fetch \<Rightarrow> ('w, fetch) srv" where
  "push_run E send u [] f = ret f"
| "push_run E send u (Uploaded v # es) f = bnd (push_add E u v) (\<lambda>_. push_run E send u es f)"
| "push_run E send u (Turn # es) f = bnd (fetch_step E send f) (push_run E send u es)"

lemma push_run_append: "push_run E send u (es @ es') f = bnd (push_run E send u es f) (push_run E send u es')"
  by (induction E send u es f rule: push_run.induct)
    (auto simp: bnd_def fun_eq_iff split: option.split sum.split)

section \<open>The table of pushes\<close>

text \<open>
  What the database does with the commands for one user: \<open>waiting_for\<close> gives the videos pushed to the user, in the
  order they are listed, and \<open>pub\<close> gives the publisher of each video.  Writing to a client does not change it.
\<close>

definition push_table :: "'w ext \<Rightarrow> string \<Rightarrow> (string \<Rightarrow> string) \<Rightarrow> ('w \<Rightarrow> string list) \<Rightarrow> bool" where
  "push_table E u pub waiting_for \<longleftrightarrow>
     (\<forall>w. \<exists>w'. mysql_store E (sql_pushes u) w = (Some (map (\<lambda>v. [v]) (waiting_for w)), w') \<and> waiting_for w' = waiting_for w)
   \<and> (\<forall>v w. \<exists>w'. mysql_store E (sql_publisher v) w = (Some [[pub v]], w') \<and> waiting_for w' = waiting_for w)
   \<and> (\<forall>v w. waiting_for (snd (mysql_execute E (sql_push u v) w)) = waiting_for w @ [v])
   \<and> (\<forall>w. waiting_for (snd (mysql_execute E (sql_delete_pushes u) w)) = [])
   \<and> (\<forall>k bs w. fst (asio_write E k bs w) = Some (length bs) \<and> waiting_for (snd (asio_write E k bs w)) = waiting_for w)"

definition pushed_json :: "(string \<Rightarrow> string) \<Rightarrow> string \<Rightarrow> json" where
  "pushed_json pub v = push_json v (Some (pub v))"

lemma uploads_run:
  assumes "push_table E u pub waiting_for"
  shows "\<exists>w. push_run E send u (map Uploaded vs) f s = Some (Inr f,
      s\<lparr>world := w, calls := calls s @ map (\<lambda>v. Execute (sql_push u v)) vs\<rparr>) \<and> waiting_for w = waiting_for (world s) @ vs"
proof (induction vs arbitrary: s)
  case Nil
  then show ?case by (intro exI [of _ "world s"]) simp
next
  case (Cons v vs)
  let ?s = "s\<lparr>world := snd (mysql_execute E (sql_push u v) (world s)), calls := calls s @ [Execute (sql_push u v)]\<rparr>"
  obtain w where "push_run E send u (map Uploaded vs) f ?s = Some (Inr f,
      ?s\<lparr>world := w, calls := calls ?s @ map (\<lambda>v. Execute (sql_push u v)) vs\<rparr>)" "waiting_for w = waiting_for (world ?s) @ vs"
    using Cons.IH by blast
  then show ?case using assms by (intro exI [of _ w]) (simp add: push_add_def bnd_run_sql push_table_def)
qed

lemma publishers_run:
  assumes "push_table E u pub waiting_for" and "video = JNull \<and> p = None \<or> (\<exists>v. video = push_json v p)"
  shows "\<exists>w. push_videos E video (map (\<lambda>v. [v]) vs) s = Some (Inr (map (pushed_json pub) vs),
      s\<lparr>world := w, calls := calls s @ map (\<lambda>v. Store (sql_publisher v)) vs\<rparr>) \<and> waiting_for w = waiting_for (world s)"
  using assms(2)
proof (induction vs arbitrary: video p s)
  case Nil
  then show ?case by (intro exI [of _ "world s"]) simp
next
  case (Cons v vs)
  obtain w where w: "mysql_store E (sql_publisher v) (world s) = (Some [[pub v]], w)" "waiting_for w = waiting_for (world s)"
    using assms(1) unfolding push_table_def by blast
  let ?s = "s\<lparr>world := w, calls := calls s @ [Store (sql_publisher v)]\<rparr>"
  have publisher: "set_publisher (Some [[pub v]]) (push_json v p) = ret (pushed_json pub v)"
    by (subst set_publisher_found) (auto simp: found_def pushed_json_def)
  have last: "\<exists>v'. pushed_json pub v = push_json v' (Some (pub v))" unfolding pushed_json_def by blast
  obtain w' where "push_videos E (pushed_json pub v) (map (\<lambda>v. [v]) vs) ?s = Some (Inr (map (pushed_json pub) vs),
      ?s\<lparr>world := w', calls := calls ?s @ map (\<lambda>v. Store (sql_publisher v)) vs\<rparr>)" "waiting_for w' = waiting_for (world ?s)"
    using Cons.IH [OF disjI2 [OF last], of ?s] by blast
  then show ?case using w
    by (intro exI [of _ w']) (simp add: cell_row set_videoId [OF Cons.prems] query_store_app publisher bnd_InrI)
qed

text \<open>The first turn lists what is there, the second deletes what is there then.\<close>

lemma first_turn:
  assumes t: "push_table E u pub waiting_for" and j: "str_field j ''userId'' = Inr u" and some: "waiting_for (world s) \<noteq> []"
    and np: "sendVideoPushInfo_P (json_array (map (pushed_json pub) (waiting_for (world s)))) = Inr np"
  shows "\<exists>w. fetch_step E (send_sock E k) (Asking j) s = Some (Inr (Clearing u), s\<lparr>world := w, calls := calls s @
      Store (sql_pushes u) # map (\<lambda>v. Store (sql_publisher v)) (waiting_for (world s)) @ [Sent (Sock k) (packet_bytes np)]\<rparr>)
    \<and> waiting_for w = waiting_for (world s)"
proof -
  let ?vs = "waiting_for (world s)"
  obtain w where w: "mysql_store E (sql_pushes u) (world s) = (Some (map (\<lambda>v. [v]) ?vs), w)" "waiting_for w = ?vs"
    using t unfolding push_table_def by blast
  let ?s = "s\<lparr>world := w, calls := calls s @ [Store (sql_pushes u)]\<rparr>"
  obtain w' where w': "push_videos E JNull (map (\<lambda>v. [v]) ?vs) ?s = Some (Inr (map (pushed_json pub) ?vs),
      ?s\<lparr>world := w', calls := calls ?s @ map (\<lambda>v. Store (sql_publisher v)) ?vs\<rparr>)" "waiting_for w' = waiting_for (world ?s)"
    using publishers_run [OF t, of JNull None ?vs ?s] by auto
  have sent: "\<And>w. fst (asio_write E k (packet_bytes np) w) = Some (length (packet_bytes np))"
    and same: "\<And>w. waiting_for (snd (asio_write E k (packet_bytes np) w)) = waiting_for w"
    using t by (simp_all add: push_table_def)
  have reply: "bnd (reply (send_sock E k) (sendVideoPushInfo_P (json_array (map (pushed_json pub) ?vs)))) g t
      = g () (t\<lparr>world := snd (asio_write E k (packet_bytes np) (world t)), calls := calls t @ [Sent (Sock k) (packet_bytes np)]\<rparr>)" for g t
    by (simp add: bnd_def reply_sock_app [OF np sent])
  show ?thesis using w w' some
    by (intro exI [of _ "snd (asio_write E k (packet_bytes np) w')"])
      (simp add: fetch_step_def push_fetch_def field_app [OF j] query_store_app bnd_InrI bnd_assoc same reply)
qed

lemma second_turn:
  assumes "push_table E u pub waiting_for"
  shows "\<exists>w. fetch_step E send (Clearing u) s = Some (Inr Fetched, s\<lparr>world := w,
      calls := calls s @ [Execute (sql_delete_pushes u)]\<rparr>) \<and> waiting_for w = []"
  using assms by (intro exI [of _ "snd (mysql_execute E (sql_delete_pushes u) (world s))"])
    (simp add: fetch_step_def push_clear_def bnd_run_sql push_table_def)

section \<open>Property\<close>

text \<open>What a user receives and what is left, for uploads before, between and after the two turns.\<close>

lemma fetch_schedule:
  assumes t: "push_table E u pub waiting_for" and j: "str_field j ''userId'' = Inr u"
    and some: "waiting_for (world s) @ before \<noteq> []"
    and np: "sendVideoPushInfo_P (json_array (map (pushed_json pub) (waiting_for (world s) @ before))) = Inr np"
  shows "\<exists>s' cs. push_run E (send_sock E k) u
      (map Uploaded before @ [Turn] @ map Uploaded between @ [Turn] @ map Uploaded later) (Asking j) s = Some (Inr Fetched, s')
    \<and> calls s' = calls s @ cs \<and> sent_bytes (Sock k) cs = packet_bytes np \<and> waiting_for (world s') = later"
proof -
  let ?run = "push_run E (send_sock E k) u"
  have quiet: "sent_bytes (Sock k) (map (\<lambda>v. Execute (sql_push u v)) vs) = []"
    "sent_bytes (Sock k) (map (\<lambda>v. Store (sql_publisher v)) vs) = []" for vs
    by (induction vs) simp_all
  obtain s1 c1 where 1: "?run (map Uploaded before) (Asking j) s = Some (Inr (Asking j), s1)"
    "calls s1 = calls s @ c1" "sent_bytes (Sock k) c1 = []" "waiting_for (world s1) = waiting_for (world s) @ before"
    using uploads_run [OF t, of "send_sock E k" before "Asking j" s] quiet by auto
  obtain s2 c2 where 2: "fetch_step E (send_sock E k) (Asking j) s1 = Some (Inr (Clearing u), s2)"
    "calls s2 = calls s1 @ c2" "sent_bytes (Sock k) c2 = packet_bytes np"
    using first_turn [OF t j, of s1 np k] some np 1(4) quiet by (auto simp: sent_bytes_append)
  obtain s3 c3 where 3: "?run (map Uploaded between) (Clearing u) s2 = Some (Inr (Clearing u), s3)"
    "calls s3 = calls s2 @ c3" "sent_bytes (Sock k) c3 = []"
    using uploads_run [OF t, of "send_sock E k" between "Clearing u" s2] quiet by auto
  obtain s4 where 4: "fetch_step E (send_sock E k) (Clearing u) s3 = Some (Inr Fetched, s4)"
    "calls s4 = calls s3 @ [Execute (sql_delete_pushes u)]" "waiting_for (world s4) = []"
    using second_turn [OF t, of "send_sock E k" s3] by auto
  obtain s5 c5 where 5: "?run (map Uploaded later) Fetched s4 = Some (Inr Fetched, s5)"
    "calls s5 = calls s4 @ c5" "sent_bytes (Sock k) c5 = []" "waiting_for (world s5) = later"
    using uploads_run [OF t, of "send_sock E k" later Fetched s4] quiet 4(3) by auto
  show ?thesis using 1 2 3 4 5
    by (intro exI [of _ s5] exI [of _ "c1 @ c2 @ c3 @ Execute (sql_delete_pushes u) # c5"])
      (simp add: push_run_append bnd_InrI sent_bytes_append)
qed

text \<open>
  C22: A push that arrives while its receiver fetches is lost.  Let videos be pushed to a user before a fetch of the
  user reads the table, after it but before the fetch deletes, and later.  The packet that the user gets lists
  exactly the ones already waiting and those pushed before; afterwards exactly the later ones are waiting; those
  in between are neither delivered nor waiting.
\<close>

theorem push_race:
  assumes "push_table E u pub waiting_for" and "str_field j ''userId'' = Inr u"
    and "waiting_for (world s) @ before \<noteq> []"
    and "sendVideoPushInfo_P (json_array (map (pushed_json pub) (waiting_for (world s) @ before))) = Inr np"
  shows "(\<exists>s' cs. push_run E (send_sock E k) u
        (map Uploaded before @ [Turn] @ map Uploaded between @ [Turn] @ map Uploaded later) (Asking j) s = Some (Inr Fetched, s')
      \<and> calls s' = calls s @ cs \<and> sent_bytes (Sock k) cs = packet_bytes np \<and> waiting_for (world s') = later)
    \<and> json_parse (drop header_size (packet_bytes np)) = Inr (json_object [(''infotype'', JUnsigned 13), (''videos'',
        json_array (map (pushed_json pub) (waiting_for (world s) @ before)))])"
proof
  show "json_parse (drop header_size (packet_bytes np)) = Inr (json_object [(''infotype'', JUnsigned 13), (''videos'',
        json_array (map (pushed_json pub) (waiting_for (world s) @ before)))])"
    using list_packet [where t = InfoType.VideoPush, OF assms(4) [unfolded sendVideoPushInfo_P_def]]
    by (simp add: pushed_json_def push_json_def)
qed (rule fetch_schedule [OF assms])

text \<open>A database that keeps the pushes of the user 7 under the answers to the query for them.\<close>

definition pushed_video :: "string \<Rightarrow> string" where
  "pushed_video c = tl (butlast (butlast (drop (length (''insert into VideoPush Values('' @ quoted ''7'' @ '', '')) c)))"

definition push_ext :: "sample ext" where
  "push_ext = sample_ext\<lparr>
     mysql_store := (\<lambda>c w. (Some (if c = sql_pushes ''7'' then map (\<lambda>r. [hd r]) (the (answers w c)) else [[''9'']]), w)),
     mysql_execute := (\<lambda>c w. (True, if c = sql_delete_pushes ''7'' then w\<lparr>answers := (\<lambda>q. Some [])\<rparr>
       else w\<lparr>answers := (\<lambda>q. Some (the (answers w q) @ [[pushed_video c]]))\<rparr>))\<rparr>"

lemma pushed_video_push: "pushed_video (sql_push ''7'' v) = v"
  by (simp add: pushed_video_def sql_push_def quoted_def butlast_append)

lemma push_ext_table:
  "push_table push_ext ''7'' (\<lambda>v. ''9'') (\<lambda>w. map hd (the (answers w (sql_pushes ''7''))))"
proof -
  have "sql_push ''7'' v \<noteq> sql_delete_pushes ''7''" "sql_publisher v \<noteq> sql_pushes ''7''" for v
    by (simp_all add: sql_push_def sql_delete_pushes_def sql_publisher_def sql_pushes_def)
  then show ?thesis by (simp add: push_table_def push_ext_def sample_ext_def pushed_video_push)
qed

theorem push_race_witness:
  "\<exists>s' np. push_run push_ext (send_sock push_ext 1) ''7'' [Uploaded ''1'', Turn, Uploaded ''2'', Turn]
      (Asking (info_request InfoType.VideoPush ''userId'' ''7'')) sample_server = Some (Inr Fetched, s')
    \<and> json_parse (drop header_size (sent_bytes (Sock 1) (calls s'))) = Inr (json_object [(''infotype'', JUnsigned 13),
        (''videos'', json_array [pushed_json (\<lambda>v. ''9'') ''1''])])
    \<and> map hd (the (answers (world s') (sql_pushes ''7''))) = []"
proof -
  have "\<exists>np. sendVideoPushInfo_P (json_array [pushed_json (\<lambda>v. ''9'') ''1'']) = Inr np"
    unfolding sendVideoPushInfo_P_def
    by (rule exI, rule make_packet_fits)
      (simp add: json_object_def json_array_def pushed_json_def push_json_def enum_json_def
        dump_integer_dec dec_int_def dec_nat.simps dump_eval, simp add: BUF_SIZE_def)
  then obtain np where np: "sendVideoPushInfo_P (json_array [pushed_json (\<lambda>v. ''9'') ''1'']) = Inr np" by blast
  from push_race [OF push_ext_table info_request_fields(3) [of InfoType.VideoPush], where s = sample_server and before = "[''1'']" and np = np
      and k = 1 and between = "[''2'']" and later = "[]"] np
  show ?thesis by (auto simp: sample_server_def sample_world_def simp del: push_run.simps)
qed

end
