(* ===== verification/Isolation.thy ===== *)
theory Isolation
  imports SendInfo
begin

text \<open>
  What a request can reach.  The relation \<open>confined\<close> between two states says that in between no
  entry of another connection changed, the client's own entry neither came nor went, and nothing
  was sent to another connection, closed, or changed in epoll.  The locale \<open>client\<close> states what the handlers rely on in a transport, and
  derives that every handler is confined to its client, for both transports at once.
\<close>

section \<open>Confinement\<close>

text \<open>The connection tables but for the entry of one connection.\<close>

definition others :: "peer \<Rightarrow> 'w server \<Rightarrow> int users \<times> nat users" where
  "others p s = (case p of Fd fd \<Rightarrow> ((m_map s)(fd := None), m_map_boost s)
     | Sock k \<Rightarrow> (m_map s, (m_map_boost s)(k := None)))"

text \<open>The own entry: it may be given a user and a counter of 0.\<close>

definition entry :: "peer \<Rightarrow> 'w server \<Rightarrow> Info option" where
  "entry p s = (case p of Fd fd \<Rightarrow> m_map s fd | Sock k \<Rightarrow> m_map_boost s k)"

definition kept :: "Info option \<Rightarrow> Info option \<Rightarrow> bool" where
  "kept x y \<longleftrightarrow> (case x of None \<Rightarrow> y = None
     | Some i \<Rightarrow> (\<exists>j. y = Some j \<and> ip j = ip i \<and> (num j = num i \<or> num j = 0)))"

lemma kept_refl [simp]: "kept x x"
  by (simp add: kept_def split: option.split)

lemma kept_trans: "kept x y \<Longrightarrow> kept y z \<Longrightarrow> kept x z"
  by (auto simp: kept_def split: option.splits)

definition request_call :: "peer \<Rightarrow> call \<Rightarrow> bool" where
  "request_call p c \<longleftrightarrow> (case c of Sent q _ \<Rightarrow> q = p | Close _ \<Rightarrow> False | Watch _ _ \<Rightarrow> False
     | Unwatch _ \<Rightarrow> False | _ \<Rightarrow> True)"

definition confined :: "peer \<Rightarrow> 'w server \<Rightarrow> 'w server \<Rightarrow> bool" where
  "confined p s s' \<longleftrightarrow> others p s' = others p s \<and> kept (entry p s) (entry p s') \<and> only_calls (request_call p) s s'"

interpretation conf: frame "confined p" for p
  by unfold_locales (auto simp: confined_def intro: log.frame_refl log.frame_trans kept_trans)

lemma request_call_simps [simp]:
  "request_call p (Store c)" "request_call p (Execute c)" "request_call p (Write_file f bs)" "request_call p (Remove_file f)"
  "request_call p (Sent p bs)"
  by (simp_all add: request_call_def)

lemma inner_others [simp]: "inner (others p)"
  by (simp add: inner_def others_def split: peer.split)

lemma log_weaken: "keeps (only_calls P) m \<Longrightarrow> (\<And>c. P c \<Longrightarrow> Q c) \<Longrightarrow> keeps (only_calls Q) m"
  by (fastforce simp: keeps_def only_calls_def)

lemma connections_parts:
  assumes "connections s' = connections s"
  shows "others p s' = others p s" and "entry p s' = entry p s"
  using assms by (auto simp: connections_def others_def entry_def split: peer.split)

lemma connections_confined:
  "connections s' = connections s \<Longrightarrow> only_calls (request_call p) s s' \<Longrightarrow> confined p s s'"
  using connections_parts [of s' s p] by (simp add: confined_def)

lemma confinedI:
  "keeps (unchanged connections) m \<Longrightarrow> keeps (only_calls (request_call p)) m \<Longrightarrow> keeps (confined p) m"
  by (simp add: keeps_def unchanged_def connections_confined)

lemma confined_silent:
  assumes "\<And>s r s'. m s = Some (r, s') \<Longrightarrow> connections s' = connections s \<and> calls s' = calls s"
  shows "keeps (confined p) m"
  using assms by (simp add: keeps_def connections_confined only_calls_def)

lemma confined_entry:
  "(\<And>s r s'. m s = Some (r, s') \<Longrightarrow> others p s' = others p s \<and> kept (entry p s) (entry p s') \<and> calls s' = calls s)
    \<Longrightarrow> keeps (confined p) m"
  by (auto simp: keeps_def confined_def only_calls_def)

text \<open>The calls a client's session may make: those of a request, and closing its own socket.\<close>

definition own_call :: "peer \<Rightarrow> call \<Rightarrow> bool" where
  "own_call p c \<longleftrightarrow> request_call p c \<or> c = Close p"

lemma confinedD:
  "keeps (confined p) m \<Longrightarrow> keeps (unchanged (others p)) m"
  "keeps (confined p) m \<Longrightarrow> keeps (only_calls (own_call p)) m"
  by (fastforce simp: keeps_def unchanged_def confined_def only_calls_def own_call_def)+

lemma log_close: "keeps (only_calls (own_call (Sock k))) (close_socket E k)"
  by (auto simp: keeps_def only_calls_def close_socket_def log_call_def own_call_def)

text \<open>The calls of the handlers that do not depend on the transport.\<close>

lemma confined_calls:
  "keeps (confined p) (query_store E c)" "keeps (confined p) (query_execute E c)" "keeps (confined p) (run_sql E c)"
  "keeps (confined p) (write_file E f bs)" "keeps (confined p) (remove_file E f)"
  "keeps (confined p) (boost_read E k n)" "keeps (confined p) (my_recv E fd len dw)"
proof -
  show q: "keeps (confined p) (query_store E c)" "keeps (confined p) (query_execute E c)"
    by (auto intro!: confinedI keeps_outside log_query_store log_query_execute)
  then show "keeps (confined p) (run_sql E c)" unfolding run_sql_def by (intro conf.keeps_rules)
  have "keeps (only_calls (request_call p)) (write_file E f bs)" "keeps (only_calls (request_call p)) (remove_file E f)"
    by (auto simp: write_file_def remove_file_def keeps_def only_calls_def log_call_def split: prod.splits)
  then show "keeps (confined p) (write_file E f bs)" "keeps (confined p) (remove_file E f)"
    by (auto intro!: confinedI keeps_outside)
  show "keeps (confined p) (boost_read E k n)" "keeps (confined p) (my_recv E fd len dw)"
    by (auto intro!: confined_silent simp: boost_read_def my_recv_def connections_def split: prod.splits option.splits)
qed

lemma confined_memory:
  "keeps (confined p) (next_id E)" "keeps (confined p) (live_add u x)" "keeps (confined p) (live_remove u)"
  by (auto intro!: confined_silent simp: next_id_def live_add_def live_remove_def connections_def
      split: option.splits prod.splits)

lemma confined_values:
  "keeps (confined p) (field j k)" "keeps (confined p) (first_cell res i)" "keeps (confined p) (filetype_is j t)"
  unfolding field_def first_cell_def filetype_is_def by (intro conf.keeps_rules keeps_split)+

lemma confined_own_entry:
  "keeps (confined (Sock k)) (set_0_sock k)" "keeps (confined (Sock k)) (add_userId_sock k u)"
  "keeps (confined (Fd fd)) (set_0_fd fd)" "keeps (confined (Fd fd)) (add_userId_fd fd u)"
  "keeps (confined (Fd fd)) (get_ip_fd fd)" "keeps (confined (Fd fd)) (get_userId_fd fd)"
  by (auto intro!: confined_entry simp: table_op_defs get_ip_fd_def get_userId_fd_def bnd_def others_def entry_def
      kept_def split: option.splits)

text \<open>Removing the own entry, which only a disconnect does.\<close>

lemma remove_others:
  "keeps (unchanged (others (Sock k))) (remove_sock k)" "keeps (only_calls P) (remove_sock k)"
  by (auto simp: keeps_def unchanged_def others_def only_calls_def remove_sock_def)

lemmas confined_rules = conf.keeps_rules confined_calls confined_memory confined_values confined_own_entry keeps_split

section \<open>The handlers of one client\<close>

locale client =
  fixes E :: "'w ext" and me :: peer and send :: "'w sender"
  assumes send_confined: "keeps (confined me) (send np)"
    and send_unchanged: "keeps (unchanged connections) (send np)"
    and send_logged: "keeps (only_calls (info_call me)) (send np)"
begin

lemma reply_confined: "keeps (confined me) (reply send q)"
  unfolding reply_def by (intro conf.keeps_rules send_confined)

lemma register_confined: "keeps (confined me) (do_register E buf)"
  unfolding do_register_eq by (auto intro!: confined_rules)

lemma login_confined: "(\<And>u. keeps (confined me) (add u)) \<Longrightarrow> keeps (confined me) (login_with E add buf)"
  unfolding login_with_eq by (auto intro!: confined_rules)

lemma modify_confined: "keeps (confined me) (modify_with E send buf)"
  unfolding modify_with_def modify_case_def modify_Comment_def modify_Video_def
    modify_VideoLike_def modify_CommentLike_def modify_Follow_def modify_LiveList_def modify_NickName_def
    modify_VideoProfile_def toggle_def
  by (auto intro!: confined_rules reply_confined split: option.split InfoType.split)

lemma receive_confined: "keeps (confined me) (receive_with E send sql info file)"
proof -
  have "keeps (confined me) (push_video E j vid)" for j vid
    by (auto simp: push_video_def intro!: confined_rules conf.keeps_for_each)
  then show ?thesis
    unfolding receive_with_def receive_case_def receive_ProfilePicture_def receive_ChatImg_def
      receive_VideoPreviewImg_def receive_Video_def
    by (intro confined_rules reply_confined)
qed

lemma info_confined: "keeps (confined me) (send_info_with E send host buf)"
proof (rule confinedI)
  show "keeps (unchanged connections) (send_info_with E send host buf)"
    unfolding send_info_with_def by (intro part.keeps_rules keeps_info_case send_unchanged) simp
  have "keeps (only_calls (info_call me)) (send_info_with E send host buf)"
    unfolding send_info_with_def by (intro log.keeps_rules log_info_case send_logged)
  then show "keeps (only_calls (request_call me)) (send_info_with E send host buf)"
    by (rule log_weaken) (auto simp: info_call_def read_call_def request_call_def split: call.splits)
qed

end

text \<open>Both transports.\<close>

lemma send_confined_fd: "keeps (confined (Fd fd)) (send_fd E fd np)"
  by (intro confinedI keeps_send log_send) simp_all

lemma send_confined_sock: "keeps (confined (Sock k)) (send_sock E k np)"
  by (intro confinedI keeps_send log_send) simp_all

interpretation fd_client: client E "Fd fd" "send_fd E fd" for E fd
  by unfold_locales (auto intro: send_confined_fd keeps_send log_send simp: info_call_def read_call_def)

interpretation sock_client: client E "Sock k" "send_sock E k" for E k
  by unfold_locales (auto intro: send_confined_sock keeps_send log_send simp: info_call_def read_call_def)

lemma send_file_confined:
  "keeps (confined (Sock k)) (send_file_sock E k buf)" "keeps (confined (Fd fd)) (send_file_fd E fd buf)"
proof -
  show "keeps (confined (Sock k)) (send_file_sock E k buf)"
    unfolding send_file_sock_def send_pfile_sock_def send_vfile_sock_def
    by (intro confinedI keeps_send_file_with keeps_send_packet_file keeps_send_bytes
        log_weaken [OF log_send_file(1) [unfolded send_file_sock_def send_pfile_sock_def send_vfile_sock_def]])
      (auto simp: read_call_def request_call_def split: call.splits)
  show "keeps (confined (Fd fd)) (send_file_fd E fd buf)"
    unfolding send_file_fd_def send_pfile_fd_def send_vfile_fd_def
    by (intro confinedI keeps_send_file_with keeps_send_packet_file keeps_send_bytes
        log_weaken [OF log_send_file(2) [unfolded send_file_fd_def send_pfile_fd_def send_vfile_fd_def]])
      (auto simp: read_call_def request_call_def split: call.splits)
qed

text \<open>All handlers of the dispatcher, as the two servers call them.\<close>

lemma sock_handlers_confined:
  "keeps (confined (Sock k)) (do_register E buf)" "keeps (confined (Sock k)) (do_login_sock E k buf)"
  "keeps (confined (Sock k)) (modify_info_sock E k buf)" "keeps (confined (Sock k)) (receive_file_sock E k info file)"
  "keeps (confined (Sock k)) (send_info_sock E k buf)" "keeps (confined (Sock k)) (reply (send_sock E k) q)"
  unfolding do_login_sock_def modify_info_sock_def receive_file_sock_def send_info_sock_def
  by (intro sock_client.register_confined sock_client.login_confined confined_own_entry sock_client.modify_confined
      sock_client.receive_confined sock_client.info_confined sock_client.reply_confined)+

lemma fd_handlers_confined:
  "keeps (confined (Fd fd)) (do_register E buf)" "keeps (confined (Fd fd)) (do_login_fd E fd buf)"
  "keeps (confined (Fd fd)) (modify_info_fd E fd buf)" "keeps (confined (Fd fd)) (receive_file_fd E fd info file)"
  "keeps (confined (Fd fd)) (send_info_fd E fd buf)" "keeps (confined (Fd fd)) (reply (send_fd E fd) q)"
  unfolding do_login_fd_def modify_info_fd_def receive_file_fd_def send_info_fd_def
  by (intro fd_client.register_confined fd_client.login_confined confined_own_entry fd_client.modify_confined
      fd_client.receive_confined fd_client.info_confined fd_client.reply_confined)+

end
