(* ===== verification/Session.thy ===== *)
theory Session
  imports Isolation
begin

text \<open>
  \<^verbatim>\<open>session.cpp\<close>: one client of the Boost server.  A request is a header, received asynchronously,
  and a body, read synchronously; its purpose selects the handler.  The header lives in the
  session (\<open>m_pheader\<close>) and is overwritten by each receive only as far as bytes arrived: the
  number of bytes received is not looked at.
\<close>

section \<open>Reading the body\<close>

text \<open>
  \<^verbatim>\<open>boost::asio::buffer(m_buf, n)\<close> never exceeds the array.  \<^term>\<open>None\<close>: the early return that
  the comparison of the result with the announced size asks for.
\<close>

definition read_ok :: "32 word \<Rightarrow> string \<Rightarrow> bool" where
  "read_ok len bs \<longleftrightarrow> (let r = (word_of_nat (length bs) :: 32 word) in \<not> (r = - 1 \<or> r = 0 \<or> r \<noteq> len))"

definition read_body :: "'w ext \<Rightarrow> nat \<Rightarrow> 32 word \<Rightarrow> ('w, string option) srv" where
  "read_body E k len =
     bnd (boost_read E k (min (unat len) BUF_SIZE)) (\<lambda>bs.
       ret (if read_ok len bs then Some bs else None))"

text \<open>
  \<open>m_buf\<close> after \<^verbatim>\<open>fill(0)\<close> and a read, and the C string at its start: an array without a NUL
  is read past its end.
\<close>

definition m_buf :: "string \<Rightarrow> string" where
  "m_buf bs = bs @ replicate (BUF_SIZE - length bs) NUL"

definition buf_string :: "string \<Rightarrow> exn + string" where
  "buf_string bs = (if NUL \<in> set (m_buf bs) then Inr (c_str (m_buf bs)) else Inl (UB Missing_terminator))"

text \<open>Read the body, then hand it to a handler as a string.\<close>

definition with_body :: "'w ext \<Rightarrow> nat \<Rightarrow> 32 word \<Rightarrow> (string \<Rightarrow> ('w, unit) srv) \<Rightarrow> ('w, unit) srv" where
  "with_body E k len handler =
     bnd (read_body E k len) (\<lambda>b. case b of
       None \<Rightarrow> ret ()
     | Some bs \<Rightarrow> bnd (lift_sum (buf_string bs)) handler)"

section \<open>The cases\<close>

definition session_Register :: "'w ext \<Rightarrow> nat \<Rightarrow> 32 word \<Rightarrow> ('w, unit) srv" where
  "session_Register E k len = with_body E k len (\<lambda>buf.
     bnd (do_register E buf) (\<lambda>success. reply (send_sock E k) (register_P success)))"

definition session_Login :: "'w ext \<Rightarrow> nat \<Rightarrow> 32 word \<Rightarrow> ('w, unit) srv" where
  "session_Login E k len = with_body E k len (\<lambda>buf.
     bnd (do_login_sock E k buf) (\<lambda>success. reply (send_sock E k) (login_P success)))"

text \<open>
  An upload: the description fills the array, then the file is read into \<open>data_size + 1\<close> bytes
  of the heap, a sum of \<open>unsigned int\<close>s that wraps.  Bytes stored before a read fails are not seen in
  the model; only a read that returns them can overrun the block.
\<close>

definition session_SendFile :: "'w ext \<Rightarrow> nat \<Rightarrow> 32 word \<Rightarrow> ('w, unit) srv" where
  "session_SendFile E k len =
     bnd (boost_read E k BUF_SIZE) (\<lambda>info.
     if \<not> read_ok (word_of_nat BUF_SIZE) info then ret ()
     else bnd (boost_read E k (unat len)) (\<lambda>file_buf.
       if unat (len + 1) < length file_buf then throw (UB Heap_overflow)
       else if \<not> read_ok len file_buf then ret ()
       else bnd (lift_sum (buf_string info)) (\<lambda>fileInfo.
         bnd (receive_file_sock E k fileInfo file_buf) (\<lambda>_. ret ()))))"

text \<open>The chat request is parsed from the whole array, terminated or not.\<close>

definition chat :: "'w ext \<Rightarrow> json \<Rightarrow> ('w, unit) srv" where
  "chat E jsonMsg =
     bnd (lift_sum (enum_field jsonMsg ''messagetype'')) (\<lambda>messagetype.
     if messagetype = messagetype_int MessageType.Characters then
       bnd (field jsonMsg ''sendId'') (\<lambda>sendId.
       bnd (field jsonMsg ''receiveId'') (\<lambda>receiveId.
       bnd (field jsonMsg ''content'') (\<lambda>content.
         run_sql E (sql_message sendId receiveId MessageType.Characters content))))
     else if messagetype = messagetype_int MessageType.VideoPreviewImg then
       bnd (field jsonMsg ''sendId'') (\<lambda>sendId.
       bnd (field jsonMsg ''receiveId'') (\<lambda>receiveId.
       bnd (field jsonMsg ''videoId'') (\<lambda>vid.
         run_sql E (sql_message sendId receiveId MessageType.VideoPreviewImg vid))))
     else ret ())"

definition session_Chat :: "'w ext \<Rightarrow> nat \<Rightarrow> 32 word \<Rightarrow> ('w, unit) srv" where
  "session_Chat E k len =
     bnd (read_body E k len) (\<lambda>b. case b of
       None \<Rightarrow> ret ()
     | Some bs \<Rightarrow> bnd (lift_sum (json_parse (m_buf bs))) (chat E))"

section \<open>One request, and the life of a session\<close>

definition session_request :: "'w ext \<Rightarrow> nat \<Rightarrow> NetPacketHeader \<Rightarrow> ('w, unit) srv" where
  "session_request E k pheader = (let len = data_size pheader in
     case purpose_of (purpose pheader) of
       Some Register \<Rightarrow> session_Register E k len
     | Some Login \<Rightarrow> session_Login E k len
     | Some Heart \<Rightarrow> set_0_sock k
     | Some SendFile \<Rightarrow> session_SendFile E k len
     | Some GetFile \<Rightarrow> with_body E k len (send_file_sock E k)
     | Some GetInfo \<Rightarrow> with_body E k len (send_info_sock E k)
     | Some ModifyInfo \<Rightarrow> with_body E k len (modify_info_sock E k)
     | Some Chat \<Rightarrow> session_Chat E k len
     | None \<Rightarrow> ret ())"

text \<open>\<open>async_receive\<close> into \<open>m_pheader\<close>.\<close>

definition boost_receive :: "'w ext \<Rightarrow> nat \<Rightarrow> ('w, receive_event) srv" where
  "boost_receive E k s = (case asio_receive E k header_size (world s) of
     (e, w) \<Rightarrow> Some (Inr e, s\<lparr>world := w\<rparr>))"

definition received_header :: "string \<Rightarrow> NetPacketHeader \<Rightarrow> NetPacketHeader" where
  "received_header bs m_pheader = header_of_bytes (overlay bs (header_bytes m_pheader))"

text \<open>
  The completion handler, which starts the next receive after a request: one round of the
  session.  The result is the new \<open>m_pheader\<close>, or \<^term>\<open>None\<close> when no receive is started.
\<close>

definition session_round :: "'w ext \<Rightarrow> nat \<Rightarrow> NetPacketHeader \<Rightarrow> ('w, NetPacketHeader option) srv" where
  "session_round E k m_pheader =
     bnd (boost_receive E k) (\<lambda>ec. case ec of
       Bytes bs \<Rightarrow> (let pheader = received_header bs m_pheader in
         bnd (session_request E k pheader) (\<lambda>_. ret (Some pheader)))
     | Eof \<Rightarrow> bnd (remove_sock k) (\<lambda>_. bnd (close_socket E k) (\<lambda>_. ret None))
     | Aborted \<Rightarrow> ret None
     | Failed \<Rightarrow> ret None)"

section \<open>What is out of reach of a client\<close>

lemma chat_confined: "keeps (confined p) (chat E j)"
  unfolding chat_def by (intro confined_rules)

lemma body_confined:
  "keeps (confined p) (read_body E k len)"
  "(\<And>buf. keeps (confined p) (handler buf)) \<Longrightarrow> keeps (confined p) (with_body E k len handler)"
  by (auto simp: read_body_def with_body_def intro!: confined_rules)

lemma session_request_confined: "keeps (confined (Sock k)) (session_request E k h)"
  unfolding session_request_def Let_def session_Register_def session_Login_def session_Chat_def session_SendFile_def
  by (auto intro!: body_confined confined_rules sock_handlers_confined send_file_confined chat_confined split: option.split Purpose.split)

lemma received_whole: "received_header (header_bytes h) h0 = h"
proof -
  have "length (header_bytes h0) = length (header_bytes h)" by simp
  then have "overlay (header_bytes h) (header_bytes h0) = header_bytes h" by (intro overlay_exact) simp
  then show ?thesis using header_roundtrip [of h "[]"] by (simp add: received_header_def)
qed

lemma received_half: "received_header (take 4 (header_bytes h)) h0 = \<lparr>purpose = purpose h, data_size = data_size h0\<rparr>"
  by (simp add: received_header_def overlay_def header_bytes_def header_of_bytes_def)

lemma session_round_Bytes:
  assumes "asio_receive E k header_size (world s) = (Bytes bs, w)" and "received_header bs h0 = h"
  shows "session_round E k h0 s = bnd (session_request E k h) (\<lambda>_. ret (Some h)) (s\<lparr>world := w\<rparr>)"
  using assms by (simp add: session_round_def boost_receive_def bnd_def Let_def)

text \<open>A body that fits with its terminator, delivered completely.\<close>

lemma read_ok_whole:
  assumes "0 < length body" and "length body < BUF_SIZE"
  shows "read_ok (word_of_nat (length body)) body"
proof -
  let ?n = "word_of_nat (length body) :: 32 word"
  have w: "unat ?n = length body" by (rule BUF_SIZE_word [OF assms(2)])
  have "?n \<noteq> 0" using w assms(1) by (metis unat_0 less_irrefl)
  moreover have "unat (- 1 :: 32 word) = 2 ^ 32 - 1" by (simp add: unsigned_minus_1_eq_mask mask_eq_exp_minus_1)
  then have "?n \<noteq> - 1" using w assms(2) by (auto simp: BUF_SIZE_def)
  ultimately show ?thesis by (simp add: read_ok_def Let_def)
qed

lemma with_body_app:
  assumes "asio_read E k (length body) (world s) = (Some body, w)" and "0 < length body" and "length body < BUF_SIZE"
    and "NUL \<notin> set body"
  shows "with_body E k (word_of_nat (length body)) handler s = handler body (s\<lparr>world := w\<rparr>)"
proof -
  have "c_str (m_buf body) = body"
    using assms(3) c_str_append_nul [OF assms(4)] by (cases "BUF_SIZE - length body") (simp_all add: m_buf_def)
  then have "buf_string body = Inr body" using assms(3) by (simp add: buf_string_def m_buf_def)
  then show ?thesis using assms(1,3) read_ok_whole [OF assms(2,3)] BUF_SIZE_word [OF assms(3)]
    by (simp add: with_body_def read_body_def boost_read_def bnd_def)
qed

lemma session_round_frame:
  assumes "session_round E k h s = Some (r, s')"
  shows "m_map s' = m_map s \<and> (\<forall>k'. k' \<noteq> k \<longrightarrow> m_map_boost s' k' = m_map_boost s k')
    \<and> (\<exists>cs. calls s' = calls s @ cs \<and> (\<forall>c \<in> set cs. own_call (Sock k) c))"
proof -
  have recv: "keeps (confined (Sock k)) (boost_receive E k)"
    by (auto intro!: confined_silent simp: boost_receive_def connections_def split: prod.splits)
  have "keeps (unchanged (others (Sock k))) (session_round E k h)"
    unfolding session_round_def Let_def
    by (auto intro!: part.keeps_rules keeps_outside recv [THEN confinedD(1)] session_request_confined [THEN confinedD(1)]
        remove_others(1) split: receive_event.split)
  moreover have "keeps (only_calls (own_call (Sock k))) (session_round E k h)"
    unfolding session_round_def Let_def
    by (auto intro!: log.keeps_rules log_close recv [THEN confinedD(2)] session_request_confined [THEN confinedD(2)]
        remove_others(2) split: receive_event.split)
  ultimately have u: "others (Sock k) s' = others (Sock k) s" and "only_calls (own_call (Sock k)) s s'"
    using assms by (auto simp: keeps_def unchanged_def)
  moreover have "m_map_boost s' k' = m_map_boost s k'" if "k' \<noteq> k" for k'
    using u that by (auto simp: others_def fun_upd_def fun_eq_iff dest: spec [of _ k'])
  ultimately show ?thesis by (auto simp: others_def only_calls_def)
qed

section \<open>Properties\<close>

text \<open>
  C6: Isolation.  Whatever arrives on a connection, a round of its session leaves the entries of
  all other connections as they are (missed heartbeats, user), and sends to, or closes, no
  connection but its own.
\<close>

theorem session_isolation:
  assumes "session_round E k h s = Some (r, s')"
  shows "m_map s' = m_map s \<and> (\<forall>k'. k' \<noteq> k \<longrightarrow> m_map_boost s' k' = m_map_boost s k')
    \<and> (\<exists>cs. calls s' = calls s @ cs \<and> (\<forall>c \<in> set cs. own_call (Sock k) c))"
  using assms by (rule session_round_frame)

theorem session_isolation_witness:
  "\<exists>r s'. session_round sample_ext 1 \<lparr>purpose = 7, data_size = 7\<rparr> (sample_server\<lparr>
        world := sample_world\<lparr>inbox := header_bytes \<lparr>purpose = 0, data_size = 0\<rparr>\<rparr>,
        m_map_boost := [1 \<mapsto> \<lparr>ip = [], userId = [], num = 2\<rparr>, 2 \<mapsto> \<lparr>ip = [], userId = ''7'', num = 3\<rparr>]\<rparr>) = Some (r, s')
    \<and> m_map_boost s' 2 = Some \<lparr>ip = [], userId = ''7'', num = 3\<rparr>"
proof -
  let ?h = "\<lparr>purpose = 0, data_size = 0\<rparr> :: NetPacketHeader"
  let ?s = "sample_server\<lparr>world := sample_world\<lparr>inbox := header_bytes ?h\<rparr>,
        m_map_boost := [1 \<mapsto> \<lparr>ip = [], userId = [], num = 2\<rparr>, 2 \<mapsto> \<lparr>ip = [], userId = ''7'', num = 3\<rparr>]\<rparr>"
  have ne: "header_bytes ?h \<noteq> []" by (simp add: header_bytes_def le32_def Let_def)
  have "asio_receive sample_ext 1 header_size (world ?s) = (Bytes (header_bytes ?h), sample_world\<lparr>inbox := []\<rparr>)"
    using ne by (simp add: sample_ext_def sample_server_def sample_world_def)
  from session_round_Bytes [OF this received_whole]
  have "session_round sample_ext 1 \<lparr>purpose = 7, data_size = 7\<rparr> ?s
      = bnd (set_0_sock 1) (\<lambda>_. ret (Some ?h)) (?s\<lparr>world := sample_world\<lparr>inbox := []\<rparr>\<rparr>)"
    using purpose_of_int [of Heart] by (simp add: session_request_def)
  then obtain r s' where "session_round sample_ext 1 \<lparr>purpose = 7, data_size = 7\<rparr> ?s = Some (r, s')"
    by (auto simp: table_op_defs bnd_def)
  with session_isolation [OF this] show ?thesis by (intro exI [of _ r] exI [of _ s']) auto
qed

text \<open>
  A heartbeat that comes after the connection was silent for too long is not ignored: after a
  schedule of checks and heartbeats, the heartbeat request of a connection resets its counter
  when the connection survived, and otherwise leaves the handler with the exception of
  \<^verbatim>\<open>unordered_map::at\<close>, which nothing catches.
\<close>

theorem late_heartbeat:
  assumes "run_schedule (check_sock E) set_0_sock es s0 = Some (Inr (), s)"
    and "walks (sock_order E)" and "finite (dom (m_map_boost s0))"
    and "m_map_boost s0 k = Some i" and "num i = int c" and "c \<le> 3" and "purpose_of (purpose h) = Some Heart"
  shows "if survives c k es
    then \<exists>j. m_map_boost s k = Some j \<and> session_request E k h s
      = Some (Inr (), s\<lparr>m_map_boost := (m_map_boost s)(k \<mapsto> j\<lparr>num := 0\<rparr>)\<rparr>)
    else session_request E k h s = Some (Inl Map_at, s)"
proof -
  have req: "session_request E k h = set_0_sock k" using assms(7) by (simp add: session_request_def)
  have "m_map_boost s k \<noteq> None \<longleftrightarrow> survives c k es"
    by (rule sock_beats.survives_iff [OF assms(1) _ assms(4-6)]) (use assms in simp)
  then show ?thesis unfolding req by (auto simp: table_op_defs bnd_def)
qed

theorem late_heartbeat_witness:
  "\<exists>s. run_schedule (check_sock sample_ext) set_0_sock [None, None, None, Some 1, None, None, None, None]
      (sample_server\<lparr>m_map_boost := [1 \<mapsto> fresh_info []]\<rparr>) = Some (Inr (), s)
    \<and> session_request sample_ext 1 \<lparr>purpose = 0, data_size = 0\<rparr> s = Some (Inl Map_at, s)"
proof -
  obtain s where s: "run_schedule (check_sock sample_ext) set_0_sock [None, None, None, Some 1, None, None, None, None]
      (sample_server\<lparr>m_map_boost := [1 \<mapsto> fresh_info []]\<rparr>) = Some (Inr (), s)"
    using schedule_example by blast
  have "purpose_of (purpose \<lparr>purpose = 0, data_size = 0\<rparr>) = Some Heart"
    using purpose_of_int [of Heart] by simp
  from late_heartbeat [OF s sample_walks(3) _ _ _ _ this, of 1 "fresh_info []" 0] s
  show ?thesis by (auto simp: fresh_info_def)
qed

text \<open>
  A header that arrives in two pieces is misread.  The first piece alone completes the
  receive, and the request is run with the new purpose and the size announced by the header
  before it.
\<close>

theorem split_header:
  assumes "asio_receive E k header_size (world s) = (Bytes (take 4 (header_bytes h)), w)"
  shows "session_round E k h0 s = bnd (session_request E k \<lparr>purpose = purpose h, data_size = data_size h0\<rparr>)
      (\<lambda>_. ret (Some \<lparr>purpose = purpose h, data_size = data_size h0\<rparr>)) (s\<lparr>world := w\<rparr>)"
  by (rule session_round_Bytes [OF assms received_half])

theorem split_header_witness:
  "session_round sample_ext 1 \<lparr>purpose = 2, data_size = 20\<rparr>
      (sample_server\<lparr>world := sample_world\<lparr>inbox := le32 7\<rparr>\<rparr>)
    = bnd (session_Chat sample_ext 1 20) (\<lambda>_. ret (Some \<lparr>purpose = 7, data_size = 20\<rparr>)) sample_server"
proof -
  let ?h = "\<lparr>purpose = 7, data_size = 5\<rparr> :: NetPacketHeader"
  let ?s = "sample_server\<lparr>world := sample_world\<lparr>inbox := le32 7\<rparr>\<rparr>"
  have "le32 7 \<noteq> []" by (simp add: le32_def Let_def)
  then have "asio_receive sample_ext 1 header_size (world ?s)
      = (Bytes (take 4 (header_bytes ?h)), sample_world)"
    by (simp add: sample_ext_def sample_server_def sample_world_def header_size_def header_bytes_def)
  from split_header [OF this, of "\<lparr>purpose = 2, data_size = 20\<rparr>"] show ?thesis
    using purpose_of_int [of Chat] by (simp add: session_request_def sample_server_def)
qed

text \<open>
  A request whose announced size exceeds the array is dropped without a reply, but only the
  first \<open>BUF_SIZE\<close> bytes of its body are consumed: whatever follows stays in the stream, where the
  next round takes it for a header.
\<close>

theorem oversized_body_left:
  assumes "BUF_SIZE < unat (data_size h)"
    and "purpose_of (purpose h) \<in> {Some Register, Some Login, Some GetFile, Some GetInfo, Some ModifyInfo, Some Chat}"
    and "asio_read E k BUF_SIZE (world s) = (Some bs, w)" and "length bs = BUF_SIZE"
    and "asio_receive E k header_size w = (Bytes (header_bytes h'), w')"
  shows "session_request E k h s = Some (Inr (), s\<lparr>world := w\<rparr>)
    \<and> session_round E k h (s\<lparr>world := w\<rparr>) = bnd (session_request E k h') (\<lambda>_. ret (Some h')) (s\<lparr>world := w'\<rparr>)"
proof
  have m: "min (unat (data_size h)) BUF_SIZE = BUF_SIZE" using assms(1) by simp
  have "(word_of_nat BUF_SIZE :: 32 word) \<noteq> data_size h"
    using assms(1) by (auto simp: BUF_SIZE_def)
  then have "\<not> read_ok (data_size h) bs" using assms(4) by (simp add: read_ok_def Let_def)
  then have "read_body E k (data_size h) s = Some (Inr None, s\<lparr>world := w\<rparr>)"
    unfolding read_body_def m using assms(3) by (simp add: boost_read_def bnd_def)
  then show "session_request E k h s = Some (Inr (), s\<lparr>world := w\<rparr>)" using assms(2)
    by (auto simp: session_request_def session_Register_def session_Login_def session_Chat_def with_body_def bnd_InrI)
  show "session_round E k h (s\<lparr>world := w\<rparr>) = bnd (session_request E k h') (\<lambda>_. ret (Some h')) (s\<lparr>world := w'\<rparr>)"
    using session_round_Bytes [OF _ received_whole, of E k "s\<lparr>world := w\<rparr>" h' w' h] assms(5) by simp
qed

theorem oversized_body_left_witness:
  "\<exists>s w. BUF_SIZE < unat (20000 :: 32 word)
    \<and> session_request sample_ext 1 \<lparr>purpose = 1, data_size = 20000\<rparr> s = Some (Inr (), s\<lparr>world := w\<rparr>)
    \<and> session_round sample_ext 1 \<lparr>purpose = 1, data_size = 20000\<rparr> (s\<lparr>world := w\<rparr>)
      = bnd (set_0_sock 1) (\<lambda>_. ret (Some \<lparr>purpose = 0, data_size = 0\<rparr>)) (s\<lparr>world := w\<lparr>inbox := []\<rparr>\<rparr>)"
proof -
  let ?h = "\<lparr>purpose = 1, data_size = 20000\<rparr> :: NetPacketHeader" and ?h' = "\<lparr>purpose = 0, data_size = 0\<rparr> :: NetPacketHeader"
  let ?s = "sample_server\<lparr>world := sample_world\<lparr>inbox := replicate BUF_SIZE CHR ''x'' @ header_bytes ?h'\<rparr>\<rparr>"
  let ?w = "sample_world\<lparr>inbox := header_bytes ?h'\<rparr>"
  have l: "BUF_SIZE < unat (data_size ?h)" by (simp add: BUF_SIZE_def)
  have ne: "header_bytes ?h' \<noteq> []" by (simp add: header_bytes_def le32_def Let_def)
  have p: "purpose_of (purpose ?h) = Some Register" "purpose_of (purpose ?h') = Some Heart"
    using purpose_of_int [of Register] purpose_of_int [of Heart] by simp_all
  have "asio_read sample_ext 1 BUF_SIZE (world ?s) = (Some (replicate BUF_SIZE CHR ''x''), ?w)"
    by (simp add: sample_ext_def sample_server_def sample_world_def)
  moreover have "asio_receive sample_ext 1 header_size ?w = (Bytes (header_bytes ?h'), ?w\<lparr>inbox := []\<rparr>)"
    using ne by (simp add: sample_ext_def)
  ultimately have "session_request sample_ext 1 ?h ?s = Some (Inr (), ?s\<lparr>world := ?w\<rparr>)
    \<and> session_round sample_ext 1 ?h (?s\<lparr>world := ?w\<rparr>)
      = bnd (session_request sample_ext 1 ?h') (\<lambda>_. ret (Some ?h')) (?s\<lparr>world := ?w\<lparr>inbox := []\<rparr>\<rparr>)"
    using oversized_body_left [OF l, of sample_ext 1 ?s "replicate BUF_SIZE CHR ''x''" ?w ?h' "?w\<lparr>inbox := []\<rparr>"] p(1)
    by simp
  moreover have "session_request sample_ext 1 ?h' = set_0_sock 1" using p(2) by (simp add: session_request_def)
  ultimately show ?thesis using l by (intro exI [of _ ?s] exI [of _ ?w]) simp
qed

text \<open>
  C18: A login over the wire, from the two packets of the client to the packet of the server.  The
  right password of a connected client is answered by one packet that its receiver decodes to the
  purpose Login and the JSON object \<open>{"success": "true"}\<close>; the user id is recorded for this
  connection, and the connection waits for the next header.
\<close>

theorem login_over_the_wire:
  assumes "asio_receive E k header_size (world s) = (Bytes (header_bytes h), w)"
    and "h = \<lparr>purpose = word_of_nat (purpose_int Login), data_size = word_of_nat (length body)\<rparr>"
    and "asio_read E k (length body) w = (Some body, w')" and "0 < length body" and "length body < BUF_SIZE"
    and "dump (login_request uid pw) = Inr body" and "m_map_boost s k = Some i"
    and "mysql_store E (sql_find_pw uid) w' = (Some ((pw # cells) # rows), w'')"
    and "\<And>bs w. fst (asio_write E k bs w) = Some (length bs)"
  shows "\<exists>s' bs. session_round E k h0 s = Some (Inr (Some h), s')
    \<and> calls s' = calls s @ [Store (sql_find_pw uid), Sent (Sock k) bs]
    \<and> m_map_boost s' = (m_map_boost s)(k \<mapsto> i\<lparr>userId := uid\<rparr>)
    \<and> purpose_of (purpose (header_of_bytes bs)) = Some Login
    \<and> json_parse (drop header_size bs) = Inr (JObject [(''success'', JString ''true'')])"
proof -
  have "\<exists>np. login_P True = Inr np"
    by (simp add: login_P_def make_packet_def json_object_def strcpy_data_def BUF_SIZE_def dump_eval)
  then obtain np where np: "login_P True = Inr np" by blast
  have plain: "json_object [(''success'', JString ''true'')] = JObject [(''success'', JString ''true'')]"
    by (simp add: json_object_def)
  obtain out where out: "dump (JObject [(''success'', JString ''true'')]) = Inr out"
    using np unfolding login_P_def by (auto simp: plain elim: make_packet_Inr)
  have bs: "packet_bytes np = header_bytes (packetHeader np) @ out" "purpose (packetHeader np) = word_of_nat (purpose_int Login)"
    using packet_bytes_make [of Login _ np out] np out unfolding login_P_def by (auto simp: plain elim: make_packet_Inr)
  have json: "json_parse out = Inr (JObject [(''success'', JString ''true'')])" using parse_dump [OF out, of 0] by simp
  let ?s = "s\<lparr>world := w'', calls := calls s @ [Store (sql_find_pw uid)],
    m_map_boost := (m_map_boost s)(k \<mapsto> i\<lparr>userId := uid\<rparr>)\<rparr>"
  have login: "do_login_sock E k body (s\<lparr>world := w'\<rparr>) = Some (Inr True, ?s)"
    using assms(7,8) credentials_request [OF assms(6)]
    by (simp add: do_login_sock_def login_with_eq query_store_def log_call_def bnd_def row_at_def table_op_defs)
  have rep: "reply (send_sock E k) (login_P True) ?s = Some (Inr (), ?s\<lparr>world := snd (asio_write E k (packet_bytes np) w''),
      calls := calls ?s @ [Sent (Sock k) (packet_bytes np)]\<rparr>)"
    using reply_sock_app [OF np, of E k ?s] assms(9) by simp
  have wb: "session_Login E k (data_size h) (s\<lparr>world := w\<rparr>)
      = bnd (do_login_sock E k body) (\<lambda>success. reply (send_sock E k) (login_P success)) (s\<lparr>world := w'\<rparr>)"
    unfolding session_Login_def assms(2)
    using with_body_app [of E k body "s\<lparr>world := w\<rparr>" w'] assms(3-5) dump_no_nul [OF assms(6)] by simp
  have "session_request E k h (s\<lparr>world := w\<rparr>) = reply (send_sock E k) (login_P True) ?s"
    using wb purpose_of_int [of Login] unfolding bnd_InrI [where m = "do_login_sock E k body" and s = "s\<lparr>world := w'\<rparr>", OF login]
    by (simp add: session_request_def assms(2) Let_def)
  then have "session_round E k h0 s = Some (Inr (Some h), ?s\<lparr>world := snd (asio_write E k (packet_bytes np) w''),
      calls := calls ?s @ [Sent (Sock k) (packet_bytes np)]\<rparr>)"
    unfolding session_round_Bytes [OF assms(1) received_whole] by (simp add: bnd_def rep)
  then show ?thesis using bs json purpose_of_int [of Login] by simp
qed

lemma login_request_example:
  "\<exists>body. dump (login_request ''7'' ''x'') = Inr body \<and> 0 < length body \<and> length body < BUF_SIZE"
  by (simp add: login_request_def dump_eval BUF_SIZE_def)

theorem login_over_the_wire_witness:
  "\<exists>h0 h s s' bs. session_round sample_ext 1 h0 s = Some (Inr (Some h), s')
    \<and> m_map_boost s' 1 = Some ((fresh_info [])\<lparr>userId := ''7''\<rparr>)
    \<and> json_parse (drop header_size bs) = Inr (JObject [(''success'', JString ''true'')])"
proof -
  obtain body where body: "dump (login_request ''7'' ''x'') = Inr body"
    "0 < length body" "length body < BUF_SIZE"
    using login_request_example by blast
  let ?h = "\<lparr>purpose = word_of_nat (purpose_int Login), data_size = word_of_nat (length body)\<rparr> :: NetPacketHeader"
  let ?w = "sample_world\<lparr>inbox := header_bytes ?h @ body, answers := (\<lambda>c. Some [[''x'']])\<rparr>"
  let ?s = "sample_server\<lparr>world := ?w, m_map_boost := [1 \<mapsto> fresh_info []]\<rparr>"
  let ?w' = "?w\<lparr>inbox := []\<rparr>"
  have "header_bytes ?h @ body \<noteq> []" using body(2) by simp
  then have rcv: "asio_receive sample_ext 1 header_size (world ?s) = (Bytes (header_bytes ?h), ?w\<lparr>inbox := body\<rparr>)"
    by (simp add: sample_ext_def)
  have rd: "asio_read sample_ext 1 (length body) (?w\<lparr>inbox := body\<rparr>) = (Some body, ?w')"
    by (simp add: sample_ext_def)
  have db: "mysql_store sample_ext (sql_find_pw ''7'') ?w' = (Some ((''x'' # []) # []), ?w')"
    by (simp add: sample_ext_def)
  have wr: "\<And>bs w. fst (asio_write sample_ext 1 bs w) = Some (length bs)" by (simp add: sample_ext_def)
  have conn: "m_map_boost ?s 1 = Some (fresh_info [])" by simp
  obtain s' bs where "session_round sample_ext 1 ?h ?s = Some (Inr (Some ?h), s')"
    "m_map_boost s' = (m_map_boost ?s)(1 \<mapsto> (fresh_info [])\<lparr>userId := ''7''\<rparr>)"
    "json_parse (drop header_size bs) = Inr (JObject [(''success'', JString ''true'')])"
    using login_over_the_wire [OF rcv refl rd body(2,3,1) conn db wr, of ?h] by blast
  then show ?thesis by (intro exI [of _ ?h] exI [of _ ?s] exI [of _ s'] exI [of _ bs]) simp
qed

end
