(* ===== verification/BoostServer.thy ===== *)
theory BoostServer
  imports Session
begin

text \<open>
  \<^verbatim>\<open>boostserver.cpp\<close>: the server that \<^verbatim>\<open>main\<close> starts.  Every connection has a session whose rounds
  are the completion handlers that the threads of \<^verbatim>\<open>io_context\<close> run; the checking thread runs beside
  them.  A session starts its next receive only at the end of a handler, so it has at most one
  outstanding; the rounds of different sessions, the accepts and the checks interleave in any
  order, one round, accept or check at a time.  An exception that leaves a handler leaves
  \<^verbatim>\<open>io_context::run\<close> and the thread, and ends the process.
\<close>

section \<open>Accepting a connection\<close>

text \<open>
  The handler of \<open>start_accept\<close> after a successful accept, for the socket \<open>k\<close>: \<open>add\<close>, then the
  constructor of the session, which asks for \<^verbatim>\<open>remote_endpoint\<close> again.  It throws when the peer is
  already gone.
\<close>

definition remote_endpoint :: "'w ext \<Rightarrow> nat \<Rightarrow> ('w, unit) srv" where
  "remote_endpoint E k = bnd (get_st (\<lambda>s. asio_endpoint E k (world s)))
     (\<lambda>connected. if connected then ret () else throw Socket_error)"

definition new_session :: "'w ext \<Rightarrow> nat \<Rightarrow> ('w, unit) srv" where
  "new_session E k = remote_endpoint E k"

definition accept_handler :: "'w ext \<Rightarrow> nat \<Rightarrow> ('w, unit) srv" where
  "accept_handler E k =
     bnd (remote_endpoint E k) (\<lambda>_.
     bnd (add_sock k) (\<lambda>_.
     new_session E k))"

section \<open>The server\<close>

text \<open>
  The process, the outstanding receives with the header each will overwrite, and the exception
  that ended the process, if one has.
\<close>

record 'w boost =
  process :: "'w server"
  receives :: "nat \<rightharpoonup> NetPacketHeader"
  ended_by :: "exn option"

text \<open>
  What happens next: a connection is accepted into a new socket, whose session has an
  uninitialised header; an accept fails; the receive of a session completes; a check is due.
\<close>

datatype event = Accepts nat NetPacketHeader | Accept_fails | Completes nat | Check_due

text \<open>
  A socket is new when no session and no table entry holds it: both own it through a
  \<open>shared_ptr\<close>.  \<^term>\<open>None\<close>: the event cannot happen, or its handler does not return.
\<close>

definition handle :: "'w boost \<Rightarrow> ('w, 'a) srv \<Rightarrow> ('a \<Rightarrow> nat \<rightharpoonup> NetPacketHeader) \<Rightarrow> 'w boost option" where
  "handle b m rs = (case m (process b) of
     None \<Rightarrow> None
   | Some (Inl e, s') \<Rightarrow> Some (b\<lparr>process := s', ended_by := Some e\<rparr>)
   | Some (Inr r, s') \<Rightarrow> Some (b\<lparr>process := s', receives := rs r\<rparr>))"

definition boost_event :: "'w ext \<Rightarrow> event \<Rightarrow> 'w boost \<Rightarrow> 'w boost option" where
  "boost_event E e b = (if ended_by b \<noteq> None then None else case e of
     Accepts k h \<Rightarrow>
       if receives b k \<noteq> None \<or> m_map_boost (process b) k \<noteq> None then None
       else handle b (accept_handler E k) (\<lambda>_. (receives b)(k \<mapsto> h))
   | Accept_fails \<Rightarrow> Some b
   | Completes k \<Rightarrow> (case receives b k of
         None \<Rightarrow> None
       | Some h \<Rightarrow> handle b (session_round E k h) (\<lambda>r. (receives b)(k := r)))
   | Check_due \<Rightarrow> handle b (check_sock E) (\<lambda>_. receives b))"

fun boost_run :: "'w ext \<Rightarrow> event list \<Rightarrow> 'w boost \<Rightarrow> 'w boost option" where
  "boost_run E [] b = Some b"
| "boost_run E (e # es) b = Option.bind (boost_event E e b) (boost_run E es)"

text \<open>
  \<open>launch\<close>: the check thread and the acceptor are started, then one thread per core runs the
  handlers.  On a machine whose core count is not known (\<^verbatim>\<open>hardware_concurrency\<close> is 0) there is no
  thread, so nothing is served and \<open>launch\<close> returns: \<^term>\<open>None\<close>.
\<close>

definition launch_boost :: "nat \<Rightarrow> 'w server \<Rightarrow> 'w boost option" where
  "launch_boost cores s = (if cores = 0 then None
     else Some \<lparr>process = s, receives = Map.empty, ended_by = None\<rparr>)"

section \<open>One event, seen from a connection\<close>

fun concerns :: "nat \<Rightarrow> event \<Rightarrow> bool" where
  "concerns k (Accepts k' h) \<longleftrightarrow> k' = k"
| "concerns k (Completes k') \<longleftrightarrow> k' = k"
| "concerns k e \<longleftrightarrow> False"

lemma accept_handler_effect:
  assumes "accept_handler E k s = Some (r, s')"
  shows "calls s' = calls s \<and> m_map s' = m_map s \<and> (\<forall>k'. k' \<noteq> k \<longrightarrow> m_map_boost s' k' = m_map_boost s k')
    \<and> (m_map_boost s' = m_map_boost s \<and> r \<noteq> Inr () \<or> m_map_boost s' = map_insert k (fresh_info []) (m_map_boost s))"
  using assms by (auto simp: accept_handler_def remote_endpoint_def new_session_def add_sock_def map_insert_def bnd_def
      split: option.splits if_splits)

lemma handle_Some:
  assumes "handle b m rs = Some b'"
  obtains r where "m (process b) = Some (r, process b')"
    and "(\<exists>a. r = Inr a \<and> receives b' = rs a \<and> ended_by b' = ended_by b) \<or> (\<exists>e. r = Inl e \<and> receives b' = receives b \<and> ended_by b' = Some e)"
  using assms by (auto simp: handle_def split: option.splits sum.splits)

text \<open>The calls of one check about one connection: it is closed once if its entry had three misses.\<close>

lemma check_calls_about:
  assumes "enumerates es m"
  shows "sent_bytes p (concat (map check_calls_sock es)) = []"
    and "count_list (concat (map check_calls_sock es)) (Close (Sock k))
      = (case m k of None \<Rightarrow> 0 | Some i \<Rightarrow> if num i = 3 then 1 else 0)"
proof -
  show "sent_bytes p (concat (map check_calls_sock es)) = []" for es
    by (induction es) (auto simp: check_calls_sock_def sent_bytes_append)
  have "distinct (map fst es) \<Longrightarrow> count_list (concat (map check_calls_sock es)) (Close (Sock k))
      = (case map_of es k of None \<Rightarrow> 0 | Some i \<Rightarrow> if num i = 3 then 1 else 0)"
  proof (induction es)
    case (Cons e es)
    have "fst e = k \<Longrightarrow> map_of es k = None" using Cons.prems by (auto simp: map_of_eq_None_iff)
    then show ?case using Cons by (auto simp: check_calls_sock_def split: option.splits)
  qed simp
  then show "count_list (concat (map check_calls_sock es)) (Close (Sock k))
      = (case m k of None \<Rightarrow> 0 | Some i \<Rightarrow> if num i = 3 then 1 else 0)"
    using assms by (auto simp: enumerates_def)
qed

lemma own_calls_elsewhere:
  assumes "\<forall>c \<in> set cs. own_call (Sock k') c" and "k' \<noteq> k"
  shows "sent_bytes (Sock k) cs = []" and "count_list cs (Close (Sock k)) = 0"
proof -
  show "sent_bytes (Sock k) cs = []" using assms
  proof (induction cs)
    case (Cons c cs)
    then show ?case by (cases c) (auto simp: own_call_def request_call_def)
  qed simp
  show "count_list cs (Close (Sock k)) = 0" using assms
    by (auto simp: count_list_0_iff own_call_def request_call_def)
qed

text \<open>What an event of others, or a check, does to the entry of a connection and sends to it.\<close>

lemma event_elsewhere:
  assumes "boost_event E e b = Some b'" and "\<not> concerns k e"
    and "walks (sock_order E)" and "finite (dom (m_map_boost (process b)))"
  shows "finite (dom (m_map_boost (process b'))) \<and> receives b' k = receives b k
    \<and> m_map_boost (process b') k = (if e = Check_due then Option.bind (m_map_boost (process b) k) tick_info
        else m_map_boost (process b) k)
    \<and> (\<exists>cs. calls (process b') = calls (process b) @ cs \<and> sent_bytes (Sock k) cs = []
        \<and> count_list cs (Close (Sock k)) = (if e = Check_due then (case m_map_boost (process b) k of None \<Rightarrow> 0
            | Some i \<Rightarrow> if num i = 3 then 1 else 0) else 0))"
proof (cases e)
  case (Accepts k' h)
  then obtain r where r: "accept_handler E k' (process b) = Some (r, process b')" "receives b' k = receives b k"
    using assms(1,2) by (auto simp: boost_event_def split: if_splits elim!: handle_Some)
  have eff: "calls (process b') = calls (process b)" "\<And>x. x \<noteq> k' \<Longrightarrow> m_map_boost (process b') x = m_map_boost (process b) x"
    using accept_handler_effect [OF r(1)] by auto
  then have "dom (m_map_boost (process b')) \<subseteq> insert k' (dom (m_map_boost (process b)))" by (force simp: dom_def)
  then show ?thesis using assms Accepts r(2) eff by (auto intro: finite_subset)
next
  case (Completes k')
  then obtain h r where r: "session_round E k' h (process b) = Some (r, process b')" "receives b' k = receives b k"
    using assms(1,2) by (auto simp: boost_event_def split: if_splits option.splits elim!: handle_Some)
  obtain cs where eff: "\<And>x. x \<noteq> k' \<Longrightarrow> m_map_boost (process b') x = m_map_boost (process b) x"
    "calls (process b') = calls (process b) @ cs" "\<forall>c \<in> set cs. own_call (Sock k') c"
    using session_round_frame [OF r(1)] by auto
  then have "dom (m_map_boost (process b')) \<subseteq> insert k' (dom (m_map_boost (process b)))" by (force simp: dom_def)
  then show ?thesis using assms Completes r(2) eff own_calls_elsewhere [OF eff(3), of k]
    by (auto intro: finite_subset)
next
  case Check_due
  obtain s' where s': "check_sock E (process b) = Some (Inr (), s')"
    "\<forall>k. m_map_boost s' k = Option.bind (m_map_boost (process b) k) tick_info"
    "calls s' = calls (process b) @ concat (map check_calls_sock (sock_order E (m_map_boost (process b))))"
    using check_sock_spec [OF assms(3,4)] by blast
  then have b': "process b' = s'" "receives b' = receives b"
    using assms(1) Check_due by (auto simp: boost_event_def handle_def split: if_splits)
  have "dom (m_map_boost s') \<subseteq> dom (m_map_boost (process b))"
    using s'(2) by (auto simp: dom_def Option.bind_eq_Some_conv)
  then show ?thesis using s' b' Check_due assms(4) check_calls_about(1) [OF walksD [OF assms(3,4)], of "Sock k"]
      check_calls_about(2) [OF walksD [OF assms(3,4)], of k]
    by (auto intro: finite_subset)
qed (use assms in \<open>auto simp: boost_event_def split: if_splits\<close>)

text \<open>The own entry of a session in a round of it.\<close>

lemma session_round_entry:
  assumes "session_round E k h s = Some (r, s')"
  shows "kept (m_map_boost s k) (m_map_boost s' k) \<or> r = Inr None \<and> m_map_boost s' k = None"
proof -
  obtain e w where "asio_receive E k header_size (world s) = (e, w)" by fastforce
  then obtain t where t: "boost_receive E k s = Some (Inr e, t)" "m_map_boost t = m_map_boost s"
    by (simp add: boost_receive_def)
  show ?thesis
  proof (cases e)
    case (Bytes bs)
    let ?h = "received_header bs h"
    have "bnd (session_request E k ?h) (\<lambda>_. ret (Some ?h)) t = Some (r, s')"
      using assms t Bytes by (simp add: session_round_def bnd_InrI Let_def)
    then obtain r' where "session_request E k ?h t = Some (r', s')"
      by (auto elim!: bnd_SomeE)
    then show ?thesis using keepsD [OF session_request_confined] t(2)
      by (fastforce simp: confined_def entry_def)
  next
    case Eof
    then show ?thesis using assms t
      by (auto simp: session_round_def bnd_InrI remove_sock_def close_socket_def log_call_def bnd_def)
  qed (use assms t in \<open>auto simp: session_round_def bnd_InrI\<close>)
qed

section \<open>Invariant\<close>

text \<open>
  The counters are within bounds, the table of the epoll server is not touched, and a session that
  waits for a receive is in the table unless it was evicted, that is, closed by a check.
\<close>

definition boost_ok :: "int users \<Rightarrow> 'w boost \<Rightarrow> bool" where
  "boost_ok m b \<longleftrightarrow> counters_ok (m_map_boost (process b)) \<and> m_map (process b) = m
    \<and> (\<forall>k. receives b k \<noteq> None \<longrightarrow> m_map_boost (process b) k \<noteq> None \<or> Close (Sock k) \<in> set (calls (process b)))"

lemma counters_ok_kept:
  assumes "counters_ok m" and "\<And>x. x \<noteq> k \<Longrightarrow> m' x = m x" and "kept (m k) (m' k) \<or> m' k = None"
  shows "counters_ok m'"
proof (rule counters_okI)
  have "dom m' \<subseteq> insert k (dom m)" using assms(2) by (force simp: dom_def)
  then show "finite (dom m')" using assms(1) by (auto simp: counters_ok_def intro: finite_subset)
  fix x i assume "m' x = Some i"
  then show "0 \<le> num i \<and> num i \<le> 3" using assms
    by (cases "x = k") (auto simp: kept_def dest: counters_okD split: option.splits)
qed

lemma boost_ok_event:
  assumes "boost_event E e b = Some b'" and "walks (sock_order E)" and ok: "boost_ok m b"
  shows "boost_ok m b'"
proof (cases e)
  case (Accepts k h)
  obtain r where r: "accept_handler E k (process b) = Some (r, process b')"
    "(\<exists>a. r = Inr a \<and> receives b' = (receives b)(k \<mapsto> h)) \<or> receives b' = receives b"
    using assms(1) Accepts by (auto simp: boost_event_def split: if_splits elim!: handle_Some)
  have "m_map_boost (process b') = m_map_boost (process b) \<and> receives b' = receives b
      \<or> m_map_boost (process b') = map_insert k (fresh_info []) (m_map_boost (process b))"
    using accept_handler_effect [OF r(1)] r(2) by auto
  moreover have "counters_ok (map_insert k (fresh_info []) (m_map_boost (process b)))"
    using ok by (auto simp: boost_ok_def map_insert_def fresh_info_def intro!: counters_ok_upd split: option.split)
  moreover have "receives b' x \<noteq> None \<longrightarrow> m_map_boost (process b') x \<noteq> None \<or> Close (Sock x) \<in> set (calls (process b'))" for x
  proof -
    have "receives b x \<noteq> None \<longrightarrow> m_map_boost (process b) x \<noteq> None \<or> Close (Sock x) \<in> set (calls (process b))"
      using ok by (simp add: boost_ok_def)
    then show ?thesis using calculation(1) accept_handler_effect [OF r(1)] r(2)
      by (cases "x = k") (auto simp: map_insert_def dest: fun_cong [where x = k] split: option.splits)
  qed
  ultimately show ?thesis using ok accept_handler_effect [OF r(1)] by (auto simp: boost_ok_def)
next
  case (Completes k)
  then obtain h r where r: "receives b k = Some h" "session_round E k h (process b) = Some (r, process b')"
    "(\<exists>a. r = Inr a \<and> receives b' = (receives b)(k := a)) \<or> (\<exists>e. r = Inl e) \<and> receives b' = receives b"
    using assms(1) by (auto simp: boost_event_def split: if_splits option.splits elim!: handle_Some)
  obtain cs where f: "m_map (process b') = m_map (process b)"
    "\<And>x. x \<noteq> k \<Longrightarrow> m_map_boost (process b') x = m_map_boost (process b) x"
    "calls (process b') = calls (process b) @ cs"
    using session_round_frame [OF r(2)] by blast
  have own: "kept (m_map_boost (process b) k) (m_map_boost (process b') k)
      \<or> receives b' k = None \<and> m_map_boost (process b') k = None"
    using session_round_entry [OF r(2)] r(3) by auto
  have "counters_ok (m_map_boost (process b'))"
    by (rule counters_ok_kept [OF _ f(2)]) (use ok own in \<open>auto simp: boost_ok_def\<close>)
  moreover have "receives b' x \<noteq> None \<longrightarrow> m_map_boost (process b') x \<noteq> None \<or> Close (Sock x) \<in> set (calls (process b'))" for x
    using ok own r f(2) [of x] f(3) by (cases "x = k") (fastforce simp: boost_ok_def kept_def split: option.splits)+
  ultimately show ?thesis using ok f(1) by (simp add: boost_ok_def)
next
  case Check_due
  have fin: "finite (dom (m_map_boost (process b)))" using ok by (simp add: boost_ok_def counters_ok_def)
  obtain s' where s': "check_sock E (process b) = Some (Inr (), s')" "m_map s' = m_map (process b)"
    using check_sock_spec [OF assms(2) fin] by blast
  have b': "process b' = s'" using assms(1) Check_due s' by (auto simp: boost_event_def handle_def split: if_splits)
  have "counters_ok (m_map_boost s')"
    by (rule sock_step_counters [OF sweep [OF s'(1)] assms(2)]) (use ok in \<open>simp add: boost_ok_def\<close>)
  moreover have "receives b' x \<noteq> None \<longrightarrow> m_map_boost s' x \<noteq> None \<or> Close (Sock x) \<in> set (calls s')" for x
  proof -
    obtain cs where x: "receives b' x = receives b x" "calls s' = calls (process b) @ cs"
      "m_map_boost s' x = Option.bind (m_map_boost (process b) x) tick_info"
      "count_list cs (Close (Sock x)) = (case m_map_boost (process b) x of None \<Rightarrow> 0 | Some i \<Rightarrow> if num i = 3 then 1 else 0)"
      using event_elsewhere [OF assms(1) _ assms(2) fin, of x] Check_due b' by auto
    have "num i = 3 \<Longrightarrow> m_map_boost (process b) x = Some i \<Longrightarrow> Close (Sock x) \<in> set cs" for i
      using x(4) count_notin [of "Close (Sock x)" cs] by (cases "Close (Sock x) \<in> set cs") auto
    then show ?thesis using ok x
      by (cases "m_map_boost (process b) x") (auto simp: boost_ok_def tick_info_def tick_def)
  qed
  ultimately show ?thesis using ok b' s'(2) by (simp add: boost_ok_def)
qed (use assms in \<open>auto simp: boost_event_def split: if_splits\<close>)

lemma boost_run_ok:
  "boost_run E es b = Some b' \<Longrightarrow> walks (sock_order E) \<Longrightarrow> boost_ok m b \<Longrightarrow> boost_ok m b'"
  by (induction es arbitrary: b) (auto simp: Option.bind_eq_Some_conv dest: boost_ok_event)

lemma completes_app:
  assumes "ended_by b = None" and "receives b k = Some h"
  shows "boost_event E (Completes k) b = (case session_round E k h (process b) of
     None \<Rightarrow> None
   | Some (Inl e, s') \<Rightarrow> Some (b\<lparr>process := s', ended_by := Some e\<rparr>)
   | Some (Inr r, s') \<Rightarrow> Some (b\<lparr>process := s', receives := (receives b)(k := r)\<rparr>))"
  using assms by (simp add: boost_event_def handle_def)

section \<open>Heartbeats in a run\<close>

text \<open>The next completed receive of the connection is a heartbeat.\<close>

definition heartbeat_next :: "'w ext \<Rightarrow> nat \<Rightarrow> 'w boost \<Rightarrow> bool" where
  "heartbeat_next E k b = (case receives b k of None \<Rightarrow> False
     | Some h \<Rightarrow> (case asio_receive E k header_size (world (process b)) of (ec, w) \<Rightarrow> (case ec of
          Bytes bs \<Rightarrow> purpose_of (purpose (received_header bs h)) = Some Heart | _ \<Rightarrow> False)))"

text \<open>Along the run, the connection sends heartbeats and nothing else, and its socket is not made anew.\<close>

fun beats_only :: "'w ext \<Rightarrow> nat \<Rightarrow> event list \<Rightarrow> 'w boost \<Rightarrow> bool" where
  "beats_only E k [] b = True"
| "beats_only E k (e # es) b = ((if e = Completes k then heartbeat_next E k b else \<not> concerns k e)
     \<and> (case boost_event E e b of None \<Rightarrow> True | Some b' \<Rightarrow> beats_only E k es b'))"

text \<open>The order of checks and completed receives.\<close>

fun timing :: "event list \<Rightarrow> nat option list" where
  "timing [] = []"
| "timing (Check_due # es) = None # timing es"
| "timing (Completes k # es) = Some k # timing es"
| "timing (e # es) = timing es"

lemma heartbeat_event:
  assumes "boost_event E (Completes k) b = Some b'" and "heartbeat_next E k b"
  shows "case m_map_boost (process b) k of
      None \<Rightarrow> ended_by b' = Some Map_at \<and> m_map_boost (process b') = m_map_boost (process b)
    | Some i \<Rightarrow> m_map_boost (process b') = (m_map_boost (process b))(k \<mapsto> i\<lparr>num := 0\<rparr>)"
proof -
  obtain h bs w where h: "receives b k = Some h" "asio_receive E k header_size (world (process b)) = (Bytes bs, w)"
    "purpose_of (purpose (received_header bs h)) = Some Heart"
    using assms(2) by (auto simp: heartbeat_next_def split: option.splits prod.splits receive_event.splits)
  have "ended_by b = None" using assms(1) by (simp add: boost_event_def split: if_splits)
  note ev = completes_app [OF this h(1), of E]
  have "session_round E k h (process b)
      = bnd (set_0_sock k) (\<lambda>_. ret (Some (received_header bs h))) (process b\<lparr>world := w\<rparr>)"
    unfolding session_round_Bytes [OF h(2) refl] by (simp add: session_request_def h(3))
  then show ?thesis using assms(1) unfolding ev
    by (auto simp: table_op_defs bnd_def split: option.splits)
qed

lemma beats_step:
  assumes "boost_event E e b = Some b1" and "if e = Completes k then heartbeat_next E k b else \<not> concerns k e"
    and "walks (sock_order E)" and "finite (dom (m_map_boost (process b)))"
  shows "finite (dom (m_map_boost (process b1)))"
    and "m_map_boost (process b1) k = (if e = Completes k then map_option (\<lambda>i. i\<lparr>num := 0\<rparr>) (m_map_boost (process b) k)
      else if e = Check_due then Option.bind (m_map_boost (process b) k) tick_info else m_map_boost (process b) k)"
proof (atomize (full), cases "e = Completes k")
  case True
  then show "finite (dom (m_map_boost (process b1))) \<and> m_map_boost (process b1) k = (if e = Completes k
      then map_option (\<lambda>i. i\<lparr>num := 0\<rparr>) (m_map_boost (process b) k)
      else if e = Check_due then Option.bind (m_map_boost (process b) k) tick_info else m_map_boost (process b) k)"
    using heartbeat_event [of E k b b1] assms by (auto split: option.splits)
next
  case False
  then show "finite (dom (m_map_boost (process b1))) \<and> m_map_boost (process b1) k = (if e = Completes k
      then map_option (\<lambda>i. i\<lparr>num := 0\<rparr>) (m_map_boost (process b) k)
      else if e = Check_due then Option.bind (m_map_boost (process b) k) tick_info else m_map_boost (process b) k)"
    using event_elsewhere [OF assms(1) _ assms(3,4), of k] assms(2) by simp
qed

lemma timing_Cons: "survives c k (timing (e # es)) = (if e = Check_due then c < 3 \<and> survives (Suc c) k (timing es)
    else survives (if e = Completes k then 0 else c) k (timing es))"
  by (cases e) auto

lemma beats_run_step:
  assumes "boost_run E (e # es) b = Some b'" and "beats_only E k (e # es) b"
  obtains b1 where "boost_event E e b = Some b1" and "boost_run E es b1 = Some b'" and "beats_only E k es b1"
    and "if e = Completes k then heartbeat_next E k b else \<not> concerns k e"
  using assms by (auto simp: Option.bind_eq_Some_conv)

lemma beats_gone:
  assumes "boost_run E es b = Some b'" and "beats_only E k es b" and "walks (sock_order E)"
    and "finite (dom (m_map_boost (process b)))" and "m_map_boost (process b) k = None"
  shows "m_map_boost (process b') k = None"
  using assms(1,2,4,5)
proof (induction es arbitrary: b)
  case (Cons e es)
  obtain b1 where b1: "boost_event E e b = Some b1" "boost_run E es b1 = Some b'"
    "beats_only E k es b1" "if e = Completes k then heartbeat_next E k b else \<not> concerns k e"
    using Cons.prems(1,2) by (rule beats_run_step)
  note n = beats_step [OF b1(1,4) assms(3) Cons.prems(3)]
  show ?case using Cons.IH [OF b1(2,3) n(1)] n(2) Cons.prems(4) by simp
qed simp

lemma beats_survive:
  assumes "boost_run E es b = Some b'" and "beats_only E k es b" and "walks (sock_order E)"
    and "finite (dom (m_map_boost (process b)))" and "m_map_boost (process b) k = Some i" and "num i = int c" and "c \<le> 3"
  shows "m_map_boost (process b') k \<noteq> None \<longleftrightarrow> survives c k (timing es)"
  using assms(1,2,4-)
proof (induction es arbitrary: b i c)
  case (Cons e es)
  obtain b1 where b1: "boost_event E e b = Some b1" "boost_run E es b1 = Some b'"
    "beats_only E k es b1" "if e = Completes k then heartbeat_next E k b else \<not> concerns k e"
    using Cons.prems(1,2) by (rule beats_run_step)
  note n = beats_step [OF b1(1,4) assms(3) Cons.prems(3)]
  show ?case
  proof (cases "e = Check_due \<and> c = 3")
    case True
    then have "m_map_boost (process b1) k = None" using n(2) Cons.prems by (simp add: tick_info_def tick_def)
    from beats_gone [OF b1(2,3) assms(3) n(1) this] show ?thesis using True by (simp add: timing_Cons)
  next
    case False
    define c' where "c' = (if e = Completes k then 0 else if e = Check_due then Suc c else c)"
    have c': "c' \<le> 3" using False Cons.prems(6) by (auto simp: c'_def)
    have "\<exists>i'. m_map_boost (process b1) k = Some i' \<and> num i' = int c'"
      using n(2) False Cons.prems(4-6) by (auto simp: c'_def tick_info_def tick_def)
    then obtain i' where i': "m_map_boost (process b1) k = Some i'" "num i' = int c'" by blast
    from Cons.IH [OF b1(2,3) n(1) i' c'] show ?thesis using False Cons.prems(6) by (auto simp: timing_Cons c'_def)
  qed
qed simp

section \<open>A server with one connection\<close>

text \<open>Examples for the properties: a client with three missed heartbeats, and what it has sent.\<close>

definition sample_boost :: "string \<Rightarrow> sample boost" where
  "sample_boost bs = \<lparr>process = sample_server\<lparr>world := sample_world\<lparr>inbox := bs\<rparr>,
      m_map_boost := [1 \<mapsto> \<lparr>ip = [], userId = ''7'', num = 3\<rparr>]\<rparr>,
    receives = [1 \<mapsto> \<lparr>purpose = 0, data_size = 0\<rparr>], ended_by = None\<rparr>"

lemma checks_run:
  assumes "walks (sock_order E)" and "finite (dom (m_map_boost (process b)))" and "ended_by b = None"
  shows "\<exists>b'. boost_run E (replicate n Check_due) b = Some b'"
  using assms(2,3)
proof (induction n arbitrary: b)
  case (Suc n)
  obtain s' where s': "check_sock E (process b) = Some (Inr (), s')"
    "\<forall>k. m_map_boost s' k = Option.bind (m_map_boost (process b) k) tick_info"
    using check_sock_spec [OF assms(1) Suc.prems(1)] by blast
  have ev: "boost_event E Check_due b = Some (b\<lparr>process := s'\<rparr>)"
    using s'(1) Suc.prems(2) by (simp add: boost_event_def handle_def)
  have "dom (m_map_boost s') \<subseteq> dom (m_map_boost (process b))"
    using s'(2) by (auto simp: dom_def Option.bind_eq_Some_conv)
  then have "finite (dom (m_map_boost s'))" using Suc.prems(1) by (rule finite_subset)
  then show ?case using Suc.IH [of "b\<lparr>process := s'\<rparr>"] Suc.prems(2) ev by simp
qed simp

lemma checks_beats: "beats_only E k (replicate n Check_due) b"
  by (induction n arbitrary: b) (auto split: option.split)

text \<open>A connection that has left stays away, and nothing is done about it.\<close>

lemma gone_connection:
  assumes "boost_run E es b = Some b'" and "\<forall>e \<in> set es. \<not> concerns k e" and "walks (sock_order E)"
    and "finite (dom (m_map_boost (process b)))" and "m_map_boost (process b) k = None"
  shows "receives b' k = receives b k \<and> m_map_boost (process b') k = None
    \<and> (\<exists>cs. calls (process b') = calls (process b) @ cs \<and> sent_bytes (Sock k) cs = []
        \<and> count_list cs (Close (Sock k)) = 0)"
  using assms(1,2,4,5)
proof (induction es arbitrary: b)
  case (Cons e es)
  obtain b1 where b1: "boost_event E e b = Some b1" "boost_run E es b1 = Some b'"
    using Cons.prems(1) by (auto simp: Option.bind_eq_Some_conv)
  from event_elsewhere [OF b1(1) _ assms(3) Cons.prems(3), of k] Cons.prems
  obtain cs where 1: "finite (dom (m_map_boost (process b1)))" "receives b1 k = receives b k"
    "m_map_boost (process b1) k = None" "calls (process b1) = calls (process b) @ cs"
    "sent_bytes (Sock k) cs = []" "count_list cs (Close (Sock k)) = 0" by (auto split: if_splits)
  obtain ds where "receives b' k = receives b k" "m_map_boost (process b') k = None"
    "calls (process b') = calls (process b1) @ ds" "sent_bytes (Sock k) ds = []" "count_list ds (Close (Sock k)) = 0"
    using Cons.IH [OF b1(2) _ 1(1,3)] Cons.prems(2) 1(2) by auto
  then show ?case using 1 by (auto intro!: exI [of _ "cs @ ds"] simp: sent_bytes_append)
qed auto

section \<open>Properties\<close>

text \<open>
  C9: A silent connection.  Whatever the other clients do in the meantime, and in whatever order
  their requests, new connections and the checks come, a connection that completes no receive
  misses exactly one heartbeat per check, is evicted and closed, once, by the check after its
  third miss, and is sent nothing.
\<close>

theorem silent_connection:
  assumes "boost_run E es b = Some b'" and "\<forall>e \<in> set es. \<not> concerns k e"
    and "walks (sock_order E)" and "finite (dom (m_map_boost (process b)))"
    and "m_map_boost (process b) k = Some i" and "num i = int c" and "c \<le> 3"
  shows "receives b' k = receives b k
    \<and> m_map_boost (process b') k = (if c + count_list es Check_due \<le> 3
        then Some (i\<lparr>num := int (c + count_list es Check_due)\<rparr>) else None)
    \<and> (\<exists>cs. calls (process b') = calls (process b) @ cs \<and> sent_bytes (Sock k) cs = []
        \<and> count_list cs (Close (Sock k)) = (if c + count_list es Check_due \<le> 3 then 0 else 1))"
proof -
  show ?thesis using assms(1,2,4-)
  proof (induction es arbitrary: b i c)
    case Nil
    then show ?case by auto
  next
    case (Cons e es)
    obtain b1 where b1: "boost_event E e b = Some b1" "boost_run E es b1 = Some b'"
      using Cons.prems(1) by (auto simp: Option.bind_eq_Some_conv)
    have es: "\<forall>e \<in> set es. \<not> concerns k e" and e: "\<not> concerns k e" using Cons.prems(2) by auto
    obtain cs where fin: "finite (dom (m_map_boost (process b1)))" and r: "receives b1 k = receives b k"
      and m: "m_map_boost (process b1) k = (if e = Check_due then tick_info i else Some i)"
      and cs: "calls (process b1) = calls (process b) @ cs" "sent_bytes (Sock k) cs = []"
        "count_list cs (Close (Sock k)) = (if e = Check_due \<and> c = 3 then 1 else 0)"
      using event_elsewhere [OF b1(1) e assms(3) Cons.prems(3)] Cons.prems(4,5) by auto
    show ?case
    proof (cases "e = Check_due \<and> c = 3")
      case True
      then have "m_map_boost (process b1) k = None" using m Cons.prems by (simp add: tick_info_def tick_def)
      from gone_connection [OF b1(2) es assms(3) fin this] obtain ds where "receives b' k = receives b k" "m_map_boost (process b') k = None"
        "calls (process b') = calls (process b1) @ ds" "sent_bytes (Sock k) ds = []" "count_list ds (Close (Sock k)) = 0"
        using r by auto
      then show ?thesis using True cs by (auto intro!: exI [of _ "cs @ ds"] simp: sent_bytes_append)
    next
      case False
      define c' i' where "c' = (if e = Check_due then Suc c else c)" and "i' = i\<lparr>num := int c'\<rparr>"
      have "i\<lparr>num := int c\<rparr> = i" using Cons.prems(5) by (cases i) simp
      then have i': "m_map_boost (process b1) k = Some i'" "num i' = int c'" "c' \<le> 3"
        using m False Cons.prems(5,6) by (auto simp: i'_def c'_def tick_info_def tick_def)
      have "c' + count_list es Check_due = c + count_list (e # es) Check_due" by (simp add: c'_def)
      moreover have "i'\<lparr>num := n\<rparr> = i\<lparr>num := n\<rparr>" for n by (simp add: i'_def)
      moreover have "count_list cs (Close (Sock k)) = 0" using cs(3) False by simp
      ultimately show ?thesis using Cons.IH [OF b1(2) es fin i'] r cs
        by (auto simp: sent_bytes_append)
    qed
  qed
qed

theorem silent_connection_witness:
  "\<exists>b' cs. boost_run sample_ext (Accepts 2 \<lparr>purpose = 0, data_size = 0\<rparr> # replicate 4 Check_due) (sample_boost []) = Some b'
    \<and> m_map_boost (process b') 1 = None \<and> calls (process b') = cs \<and> count_list cs (Close (Sock 1)) = 1"
proof -
  let ?e = "Accepts 2 \<lparr>purpose = 0, data_size = 0\<rparr>" and ?b = "sample_boost []"
  obtain b1 where b1: "boost_event sample_ext ?e ?b = Some b1" "ended_by b1 = None" "finite (dom (m_map_boost (process b1)))"
    by (simp add: boost_event_def sample_boost_def handle_def accept_handler_def new_session_def remote_endpoint_def
        bnd_def add_sock_def sample_defs map_insert_def)
  obtain b' where b': "boost_run sample_ext (?e # replicate 4 Check_due) ?b = Some b'"
    using checks_run [OF sample_walks(3) b1(3,2), of 4] b1(1) by auto
  have "\<forall>e \<in> set (?e # replicate 4 Check_due). \<not> concerns 1 e" "count_list (?e # replicate 4 Check_due) Check_due = 4"
    by (simp_all add: numeral_eq_Suc)
  then show ?thesis
    using silent_connection [OF b' _ sample_walks(3), of 1 "\<lparr>ip = [], userId = ''7'', num = 3\<rparr>" 3] b'
    by (simp add: sample_boost_def sample_server_def)
qed

text \<open>
  C8: The tables under any interleaving.  From a start with an empty table, after any run of
  accepts, requests of any content, checks and failures: the counters are within 0 and 3, the
  descriptor table is untouched, every session and every entry stems from an accepted
  connection, and a session that still waits for data is in the table unless a check closed it.
\<close>

theorem boost_invariant:
  assumes "launch_boost cores s = Some b" and "m_map_boost s = Map.empty" and "walks (sock_order E)"
    and "boost_run E es b = Some b'"
  shows "counters_ok (m_map_boost (process b')) \<and> m_map (process b') = m_map s
    \<and> (receives b' k \<noteq> None \<or> m_map_boost (process b') k \<noteq> None \<longrightarrow> (\<exists>h. Accepts k h \<in> set es))
    \<and> (receives b' k \<noteq> None \<longrightarrow> m_map_boost (process b') k \<noteq> None \<or> Close (Sock k) \<in> set (calls (process b')))"
proof -
  have start: "boost_ok (m_map s) b" "receives b = Map.empty" "m_map_boost (process b) = Map.empty"
    using assms(1,2) by (auto simp: launch_boost_def boost_ok_def counters_ok_def split: if_splits)
  have ok: "boost_ok (m_map s) b'" by (rule boost_run_ok [OF assms(4,3) start(1)])
  have "receives b' k = None \<and> m_map_boost (process b') k = None"
    if "boost_run E es b = Some b'" "boost_ok m b" "\<forall>h. Accepts k h \<notin> set es"
      "receives b k = None" "m_map_boost (process b) k = None" for m es b
    using that
  proof (induction es arbitrary: b)
    case (Cons e es)
    obtain b1 where b1: "boost_event E e b = Some b1" "boost_run E es b1 = Some b'"
      using Cons.prems(1) by (auto simp: Option.bind_eq_Some_conv)
    have "\<not> concerns k e" using Cons.prems(3,4) b1(1) by (cases e) (auto simp: boost_event_def split: if_splits)
    with event_elsewhere [OF b1(1) this assms(3)] Cons.prems(2,4,5)
    have "receives b1 k = None" "m_map_boost (process b1) k = None"
      by (auto simp: boost_ok_def counters_ok_def split: if_splits)
    then show ?case using Cons.IH [OF b1(2) boost_ok_event [OF b1(1) assms(3) Cons.prems(2)]] Cons.prems(3) by simp
  qed simp
  then show ?thesis using ok start assms(4) unfolding boost_ok_def by (metis start(1))
qed

theorem boost_invariant_witness:
  "\<exists>b b'. launch_boost 1 sample_server = Some b
    \<and> boost_run sample_ext (Accepts 1 \<lparr>purpose = 0, data_size = 0\<rparr> # replicate 4 Check_due) b = Some b'
    \<and> (receives b' 1 \<noteq> None \<longrightarrow> m_map_boost (process b') 1 \<noteq> None \<or> Close (Sock 1) \<in> set (calls (process b')))
    \<and> counters_ok (m_map_boost (process b'))"
proof -
  let ?e = "Accepts 1 \<lparr>purpose = 0, data_size = 0\<rparr>"
  let ?b = "\<lparr>process = sample_server, receives = Map.empty, ended_by = None\<rparr> :: sample boost"
  have b: "launch_boost 1 sample_server = Some ?b" by (simp add: launch_boost_def)
  obtain b1 where b1: "boost_event sample_ext ?e ?b = Some b1" "ended_by b1 = None" "finite (dom (m_map_boost (process b1)))"
    by (simp add: boost_event_def handle_def accept_handler_def new_session_def remote_endpoint_def
        bnd_def add_sock_def sample_defs map_insert_def)
  obtain b' where b': "boost_run sample_ext (?e # replicate 4 Check_due) ?b = Some b'"
    using checks_run [OF sample_walks(3) b1(3,2), of 4] b1(1) by auto
  have "m_map_boost sample_server = Map.empty" by (simp add: sample_server_def)
  from boost_invariant [OF b this sample_walks(3) b', of 1] b b' show ?thesis by blast
qed

text \<open>
  C16: An exception in one request ends the server for everybody.  When a handler of a connection
  throws -- here for a request to modify whose body is not JSON -- the process is over: no event of
  any connection happens any more.
\<close>

theorem malformed_packet_ends_all:
  assumes "ended_by b = None" and "receives b k = Some h0"
    and "asio_receive E k header_size (world (process b)) = (Bytes (header_bytes h), w)"
    and "h = \<lparr>purpose = word_of_nat (purpose_int ModifyInfo), data_size = word_of_nat (length body)\<rparr>"
    and "asio_read E k (length body) w = (Some body, w')" and "0 < length body" and "length body < BUF_SIZE"
    and "NUL \<notin> set body" and "json_parse body = Inl e"
  shows "\<exists>b'. boost_event E (Completes k) b = Some b' \<and> ended_by b' = Some e
    \<and> calls (process b') = calls (process b) \<and> (\<forall>ev. boost_event E ev b' = None)"
proof -
  have "with_body E k (data_size h) (modify_info_sock E k) (process b\<lparr>world := w\<rparr>)
      = modify_info_sock E k body (process b\<lparr>world := w'\<rparr>)"
    unfolding assms(4) using with_body_app [of E k body "process b\<lparr>world := w\<rparr>" w'] assms(5-8) by simp
  also have "\<dots> = Some (Inl e, process b\<lparr>world := w'\<rparr>)"
    using assms(9) by (simp add: modify_info_sock_def modify_with_def bnd_def)
  finally have "session_request E k h (process b\<lparr>world := w\<rparr>) = Some (Inl e, process b\<lparr>world := w'\<rparr>)"
    using purpose_of_int [of ModifyInfo] by (simp add: session_request_def assms(4))
  then have "session_round E k h0 (process b) = Some (Inl e, process b\<lparr>world := w'\<rparr>)"
    unfolding session_round_Bytes [OF assms(3) received_whole] by (simp add: bnd_InlI)
  then show ?thesis using assms(1,2) by (simp add: boost_event_def handle_def)
qed

theorem malformed_packet_ends_all_witness:
  "\<exists>b'. boost_event sample_ext (Completes 1)
      (sample_boost (header_bytes \<lparr>purpose = word_of_nat (purpose_int ModifyInfo), data_size = 1\<rparr> @ ''x'')) = Some b'
    \<and> ended_by b' = Some Json_parse_error \<and> (\<forall>ev. boost_event sample_ext ev b' = None)"
proof -
  let ?h = "\<lparr>purpose = word_of_nat (purpose_int ModifyInfo), data_size = 1\<rparr>"
  let ?b = "sample_boost (header_bytes ?h @ ''x'')"
  have rcv: "asio_receive sample_ext 1 header_size (world (process ?b)) = (Bytes (header_bytes ?h), sample_world\<lparr>inbox := ''x''\<rparr>)"
    by (simp add: sample_boost_def sample_defs)
  have rd: "asio_read sample_ext 1 (length ''x'') (sample_world\<lparr>inbox := ''x''\<rparr>) = (Some ''x'', sample_world\<lparr>inbox := []\<rparr>)"
    by (simp add: sample_ext_def)
  have bad: "json_parse ''x'' = Inl Json_parse_error"
    by (simp add: json_parse_def skip_bom_def scan_def skip_whitespace_def is_ws_def is_digit_def parse_loop.simps(1))
  have "ended_by ?b = None" "receives ?b 1 = Some \<lparr>purpose = 0, data_size = 0\<rparr>" by (simp_all add: sample_boost_def)
  from malformed_packet_ends_all [OF this rcv _ rd _ _ _ bad] show ?thesis by (simp add: BUF_SIZE_def) blast
qed

text \<open>
  C15: An attentive connection.  Along any run of the server in which a connection sends heartbeats
  only, however the events of the others come in between, it is in the table at the end exactly
  when it was never silent for four checks in a row.
\<close>

theorem attentive_connection:
  assumes "boost_run E es b = Some b'" and "beats_only E k es b" and "walks (sock_order E)"
    and "finite (dom (m_map_boost (process b)))" and "m_map_boost (process b) k = Some i" and "num i = int c" and "c \<le> 3"
  shows "m_map_boost (process b') k \<noteq> None \<longleftrightarrow> survives c k (timing es)"
  using assms by (rule beats_survive)

text \<open>A heartbeat after the third miss, then three checks.\<close>

theorem attentive_connection_witness:
  "\<exists>b'. boost_run sample_ext (Completes 1 # replicate 3 Check_due)
      (sample_boost (header_bytes \<lparr>purpose = 0, data_size = 0\<rparr>)) = Some b' \<and> m_map_boost (process b') 1 \<noteq> None"
proof -
  let ?h = "\<lparr>purpose = 0, data_size = 0\<rparr> :: NetPacketHeader"
  let ?b = "sample_boost (header_bytes ?h)"
  have ne: "header_bytes ?h \<noteq> []" by (simp add: header_bytes_def le32_def Let_def)
  then have rcv: "asio_receive sample_ext 1 header_size (world (process ?b)) = (Bytes (header_bytes ?h), sample_world\<lparr>inbox := []\<rparr>)"
    by (simp add: sample_boost_def sample_defs)
  have heart: "purpose_of (purpose ?h) = Some Heart" using purpose_of_int [of Heart] by simp
  have next_beat: "heartbeat_next sample_ext 1 ?b"
    unfolding heartbeat_next_def rcv using heart by (simp add: sample_boost_def received_whole)
  have "session_round sample_ext 1 ?h (process ?b) = bnd (set_0_sock 1) (\<lambda>_. ret (Some ?h)) (process ?b\<lparr>world := sample_world\<lparr>inbox := []\<rparr>\<rparr>)"
    unfolding session_round_Bytes [OF rcv received_whole] by (simp add: session_request_def heart [simplified])
  then obtain b1 where b1: "boost_event sample_ext (Completes 1) ?b = Some b1" "ended_by b1 = None" "finite (dom (m_map_boost (process b1)))"
    by (simp add: boost_event_def handle_def sample_boost_def table_op_defs bnd_def)
  obtain b' where b': "boost_run sample_ext (Completes 1 # replicate 3 Check_due) ?b = Some b'"
    using checks_run [OF sample_walks(3) b1(3,2), of 3] b1(1) by auto
  have "beats_only sample_ext 1 (Completes 1 # replicate 3 Check_due) ?b" using next_beat b1(1) by (simp add: checks_beats)
  moreover have "survives 3 1 (timing (Completes 1 # replicate 3 Check_due))" by (simp add: numeral_3_eq_3)
  ultimately show ?thesis
    using attentive_connection [OF b' _ sample_walks(3), of 1 "\<lparr>ip = [], userId = ''7'', num = 3\<rparr>" 3] b'
    by (simp add: sample_boost_def sample_server_def)
qed

end
