(* ===== verification/SharedLock.thy ===== *)
theory SharedLock
  imports UserStatus
begin

text \<open>
  \<^verbatim>\<open>userstatusevaluator.cpp\<close> takes its lock in shared mode everywhere, also where it writes: the
  check of all connections excludes no other operation.  \<open>UserStatus\<close> treats each operation as one
  step; here the other threads get in between the visits of a check, one visit at a time (what
  two unsynchronised accesses to one map do at the same moment is undefined in C++).
\<close>

section \<open>A check with other threads in between\<close>

text \<open>
  What the others do to the table: a connection leaves, or sends a heartbeat.  A heartbeat without
  an entry throws in its own thread and changes nothing.
\<close>

datatype table_op = Leaves nat | Beats nat

definition other_thread :: "table_op \<Rightarrow> 'w server \<Rightarrow> 'w server" where
  "other_thread a s = (case a of
     Leaves k \<Rightarrow> s\<lparr>m_map_boost := (m_map_boost s)(k := None)\<rparr>
   | Beats k \<Rightarrow> (case m_map_boost s k of None \<Rightarrow> s
       | Some i \<Rightarrow> s\<lparr>m_map_boost := (m_map_boost s)(k \<mapsto> i\<lparr>num := 0\<rparr>)\<rparr>))"

text \<open>The check of \<open>start_boost\<close>; \<open>ops\<close> says what the others do before each visit.\<close>

definition shared_check :: "'w ext \<Rightarrow> (nat \<Rightarrow> table_op list) \<Rightarrow> ('w, unit) srv" where
  "shared_check E ops = bnd (get_st m_map_boost) (\<lambda>map_copy.
     for_each (sock_order E map_copy) (\<lambda>d.
       bnd (modify_st (fold other_thread (ops (fst d)))) (\<lambda>_. check_entry_sock E d)))"

lemma other_thread_leave: "other_thread (Leaves k) s = snd (the (remove_sock k s))"
  by (simp add: other_thread_def remove_sock_def)

lemma shared_check_alone: "shared_check E (\<lambda>_. []) = check_sock E"
proof -
  have "bnd (modify_st (fold other_thread [])) (\<lambda>_. m) = m" for m :: "('a, unit) srv"
    by (simp add: bnd_def modify_st_def)
  then show ?thesis by (simp only: shared_check_def check_sock_def)
qed

section \<open>The visits\<close>

lemma other_thread_effect:
  "calls (other_thread a s) = calls s"
  "m_map_boost (other_thread a s) k = None \<longleftrightarrow> m_map_boost s k = None \<or> a = Leaves k"
  by (auto simp: other_thread_def split: table_op.split option.split)

lemma others_effect:
  "calls (fold other_thread as s) = calls s \<and>
   (m_map_boost (fold other_thread as s) k = None \<longleftrightarrow> m_map_boost s k = None \<or> Leaves k \<in> set as)"
  by (induction as arbitrary: s) (auto simp: other_thread_effect)

lemma visit_three:
  assumes "num i = 3"
  shows "\<exists>w. check_entry_sock E (k, i) s = Some (Inr (), s\<lparr>world := w, m_map_boost := (m_map_boost s)(k := None),
    calls := calls s @ [Close (Sock k)]\<rparr>)"
  using assms by (intro exI [of _ "asio_close E k (world s)"])
    (simp add: check_entry_sock_def remove_sock_def close_socket_def log_call_def bnd_def)

lemma visit_fewer:
  assumes "num i < 3" and "0 \<le> num i"
  shows "check_entry_sock E (k, i) s = (case m_map_boost s k of None \<Rightarrow> Some (Inl Map_at, s)
    | Some j \<Rightarrow> Some (Inr (), s\<lparr>m_map_boost := (m_map_boost s)(k \<mapsto> j\<lparr>num := num j + 1\<rparr>)\<rparr>))"
  using assms by (auto simp: check_entry_sock_def table_op_defs bnd_def split: option.split)

text \<open>The entry visited is gone: another thread has removed it, before or at this visit.\<close>

definition left_early :: "(nat \<Rightarrow> table_op list) \<Rightarrow> (nat \<times> Info) list \<Rightarrow> nat set \<Rightarrow> bool" where
  "left_early ops es gone \<longleftrightarrow> (\<exists>p k i q. es = p @ (k, i) # q \<and> num i < 3
     \<and> (k \<in> gone \<or> (\<exists>d \<in> set (p @ [(k, i)]). Leaves k \<in> set (ops (fst d)))))"

lemma left_early_Nil [simp]: "\<not> left_early ops [] gone"
  by (simp add: left_early_def)

lemma left_early_Cons:
  "left_early ops ((k, i) # es) gone \<longleftrightarrow> num i < 3 \<and> (k \<in> gone \<or> Leaves k \<in> set (ops k))
    \<or> left_early ops es (gone \<union> {k'. Leaves k' \<in> set (ops k)})"
proof
  assume "left_early ops ((k, i) # es) gone"
  then obtain p k' i' q where e: "(k, i) # es = p @ (k', i') # q" "num i' < 3"
    "k' \<in> gone \<or> (\<exists>d \<in> set (p @ [(k', i')]). Leaves k' \<in> set (ops (fst d)))"
    unfolding left_early_def by blast
  show "num i < 3 \<and> (k \<in> gone \<or> Leaves k \<in> set (ops k)) \<or> left_early ops es (gone \<union> {k'. Leaves k' \<in> set (ops k)})"
  proof (cases p)
    case Nil
    with e show ?thesis by auto
  next
    case (Cons d p')
    with e have "es = p' @ (k', i') # q" "d = (k, i)" by auto
    with e Cons show ?thesis unfolding left_early_def by fastforce
  qed
next
  assume "num i < 3 \<and> (k \<in> gone \<or> Leaves k \<in> set (ops k)) \<or> left_early ops es (gone \<union> {k'. Leaves k' \<in> set (ops k)})"
  then show "left_early ops ((k, i) # es) gone"
  proof
    assume "num i < 3 \<and> (k \<in> gone \<or> Leaves k \<in> set (ops k))"
    then show ?thesis unfolding left_early_def by (intro exI [of _ "[]"] exI [of _ k] exI [of _ i] exI [of _ es]) auto
  next
    assume "left_early ops es (gone \<union> {k'. Leaves k' \<in> set (ops k)})"
    then obtain p k' i' q where e: "es = p @ (k', i') # q" "num i' < 3"
      "k' \<in> gone \<or> Leaves k' \<in> set (ops k) \<or> (\<exists>d \<in> set (p @ [(k', i')]). Leaves k' \<in> set (ops (fst d)))"
      unfolding left_early_def by blast
    then show ?thesis unfolding left_early_def
      by (intro exI [of _ "(k, i) # p"] exI [of _ k'] exI [of _ i'] exI [of _ q]) auto
  qed
qed

lemma shared_visits:
  assumes "distinct (map fst es)" and "\<And>k i. (k, i) \<in> set es \<Longrightarrow> 0 \<le> num i \<and> num i \<le> 3"
    and "\<And>k. k \<in> fst ` set es \<Longrightarrow> m_map_boost s k = None \<longleftrightarrow> k \<in> gone"
  shows "\<exists>r s'. for_each es (\<lambda>d. bnd (modify_st (fold other_thread (ops (fst d)))) (\<lambda>_. check_entry_sock E d)) s = Some (r, s')
    \<and> r = (if left_early ops es gone then Inl Map_at else Inr ())
    \<and> (\<exists>cs. calls s' = calls s @ cs) \<and> (\<forall>k. k \<notin> fst ` set es \<longrightarrow> m_map_boost s k = None \<longrightarrow> m_map_boost s' k = None)
    \<and> (r = Inr () \<longrightarrow> (\<forall>k i. (k, i) \<in> set es \<and> num i = 3 \<longrightarrow> m_map_boost s' k = None \<and> Close (Sock k) \<in> set (calls s')))"
  using assms
proof (induction es arbitrary: s gone)
  case (Cons e es)
  obtain k i where e: "e = (k, i)" by (cases e)
  let ?t = "fold other_thread (ops k) s" and ?gone = "gone \<union> {k'. Leaves k' \<in> set (ops k)}"
  let ?f = "\<lambda>d. bnd (modify_st (fold other_thread (ops (fst d)))) (\<lambda>_. check_entry_sock E d)"
  have k: "k \<notin> fst ` set es" and i: "0 \<le> num i" "num i \<le> 3" using Cons.prems(1,2) e by auto
  have t: "m_map_boost ?t x = None \<longleftrightarrow> x \<in> ?gone" if "x \<in> fst ` set (e # es)" for x
    using Cons.prems(3) [OF that] others_effect [of "ops k" s x] by auto
  show ?case
  proof (cases "num i < 3 \<and> m_map_boost ?t k = None")
    case True
    then have "?f (k, i) s = Some (Inl Map_at, ?t)" using visit_fewer [of i E k ?t] i by (simp add: bnd_def)
    moreover have "left_early ops (e # es) gone" using True t [of k] e by (simp add: left_early_Cons)
    moreover have "for_each (e # es) ?f s = Some (Inl Map_at, ?t)" using calculation(1) e by (simp add: bnd_def)
    ultimately show ?thesis using others_effect [of "ops k" s]
      by (intro exI [of _ "Inl Map_at"] exI [of _ ?t]) (simp del: for_each.simps modify_st_app)
  next
    case False
    obtain u where u: "?f (k, i) s = Some (Inr (), u)" "\<And>x. x \<noteq> k \<Longrightarrow> m_map_boost u x = m_map_boost ?t x"
      "\<exists>cs. calls u = calls s @ cs" "num i = 3 \<Longrightarrow> m_map_boost u k = None \<and> Close (Sock k) \<in> set (calls u)"
    proof (cases "num i = 3")
      case True
      obtain w where w: "check_entry_sock E (k, i) ?t = Some (Inr (), ?t\<lparr>world := w, m_map_boost := (m_map_boost ?t)(k := None),
          calls := calls ?t @ [Close (Sock k)]\<rparr>)" using visit_three [OF True, of E k ?t] by blast
      have "calls ?t = calls s" using others_effect [of "ops k" s] by simp
      then show ?thesis
        by (intro that [of "?t\<lparr>world := w, m_map_boost := (m_map_boost ?t)(k := None), calls := calls ?t @ [Close (Sock k)]\<rparr>"])
          (simp_all add: bnd_def w)
    next
      case three: False
      then obtain j where "m_map_boost ?t k = Some j" using False i by auto
      then have w: "check_entry_sock E (k, i) ?t = Some (Inr (), ?t\<lparr>m_map_boost := (m_map_boost ?t)(k \<mapsto> j\<lparr>num := num j + 1\<rparr>)\<rparr>)"
        using visit_fewer [of i E k ?t] three i by simp
      have "calls ?t = calls s" using others_effect [of "ops k" s] by simp
      then show ?thesis using three
        by (intro that [of "?t\<lparr>m_map_boost := (m_map_boost ?t)(k \<mapsto> j\<lparr>num := num j + 1\<rparr>)\<rparr>"]) (simp_all add: bnd_def w)
    qed
    have g: "m_map_boost u x = None \<longleftrightarrow> x \<in> ?gone" if x: "x \<in> fst ` set es" for x
    proof -
      have "x \<noteq> k" using x k by blast
      moreover have "x \<in> fst ` set (e # es)" using x by simp
      ultimately show ?thesis using u(2) [of x] t [of x] by simp
    qed
    have "distinct (map fst es)" using Cons.prems(1) by simp
    moreover have "0 \<le> num j \<and> num j \<le> 3" if "(x, j) \<in> set es" for x j
      using Cons.prems(2) [of x j] that by simp
    moreover note g
    ultimately obtain r s' where IH:
      "for_each es ?f u = Some (r, s')" "r = (if left_early ops es ?gone then Inl Map_at else Inr ())"
      "\<exists>cs. calls s' = calls u @ cs" "\<forall>x. x \<notin> fst ` set es \<longrightarrow> m_map_boost u x = None \<longrightarrow> m_map_boost s' x = None"
      "r = Inr () \<longrightarrow> (\<forall>x j. (x, j) \<in> set es \<and> num j = 3 \<longrightarrow> m_map_boost s' x = None \<and> Close (Sock x) \<in> set (calls s'))"
      using Cons.IH [of u ?gone] by blast
    have "for_each (e # es) ?f s = Some (r, s')" using u(1) IH(1) e by (simp add: bnd_InrI)
    moreover have "left_early ops (e # es) gone = left_early ops es ?gone"
      using False t [of k] e by (auto simp: left_early_Cons)
    moreover have "m_map_boost s' x = None" if "x \<notin> fst ` set (e # es)" "m_map_boost s x = None" for x
      using that IH(4) u(2) [of x] others_effect [of "ops k" s x] e by auto
    moreover have "\<exists>cs. calls s' = calls s @ cs" using u(3) IH(3) by auto
    moreover have "m_map_boost s' k = None \<and> Close (Sock k) \<in> set (calls s')" if "num i = 3"
      using u(4) [OF that] IH(3,4) k by auto
    ultimately show ?thesis using IH(2,5) e by (intro exI [of _ r] exI [of _ s']) (auto simp del: for_each.simps modify_st_app)
  qed
qed auto

section \<open>Property\<close>

text \<open>
  C24: The check under a shared lock.  If other threads remove entries and record heartbeats while a
  check walks its copy of the table, the checking thread -- and the process with it -- dies of the
  exception of \<^verbatim>\<open>at\<close> exactly when some connection with fewer than three misses in the copy has
  left before its visit.  Otherwise it completes, and it drops and closes every connection with
  three misses in the copy, even if a heartbeat of it arrived in the meantime.  With nobody in
  between it is the check of \<open>UserStatus\<close>.
\<close>

theorem check_race:
  assumes "walks (sock_order E)" and "counters_ok (m_map_boost s)"
  shows "\<exists>r s'. shared_check E ops s = Some (r, s')
    \<and> (if \<exists>p k i q. sock_order E (m_map_boost s) = p @ (k, i) # q \<and> num i < 3
          \<and> (\<exists>d \<in> set (p @ [(k, i)]). Leaves k \<in> set (ops (fst d)))
       then r = Inl Map_at
       else r = Inr () \<and> (\<forall>k i. m_map_boost s k = Some i \<and> num i = 3
          \<longrightarrow> m_map_boost s' k = None \<and> Close (Sock k) \<in> set (calls s')))
    \<and> shared_check E (\<lambda>_. []) s = check_sock E s"
proof -
  let ?es = "sock_order E (m_map_boost s)"
  have en: "enumerates ?es (m_map_boost s)" using assms by (intro walksD) (simp_all add: counters_ok_def)
  have mem: "(k, i) \<in> set ?es \<longleftrightarrow> m_map_boost s k = Some i" for k i
    using en by (metis enumerates_def map_of_eq_Some_iff)
  have "distinct (map fst ?es)" using en by (simp add: enumerates_def)
  moreover have "0 \<le> num i \<and> num i \<le> 3" if "(k, i) \<in> set ?es" for k i
    using that assms(2) by (simp add: mem counters_okD)
  moreover have "m_map_boost s k = None \<longleftrightarrow> k \<in> {}" if "k \<in> fst ` set ?es" for k
    using that by (auto simp: mem)
  ultimately obtain r s' where r: "shared_check E ops s = Some (r, s')"
    "r = (if left_early ops ?es {} then Inl Map_at else Inr ())"
    "r = Inr () \<longrightarrow> (\<forall>k i. (k, i) \<in> set ?es \<and> num i = 3 \<longrightarrow> m_map_boost s' k = None \<and> Close (Sock k) \<in> set (calls s'))"
    using shared_visits [of ?es s "{}" ops E] unfolding shared_check_def bnd_get_st by blast
  then show ?thesis unfolding mem left_early_def shared_check_alone
    by (intro exI [of _ r] exI [of _ s']) (auto split: if_splits)
qed

text \<open>One connection with a missed heartbeat leaves during the check.\<close>

theorem check_race_witness:
  "\<exists>s'. shared_check sample_ext (\<lambda>_. [Leaves 1]) (sample_server\<lparr>m_map_boost := [1 \<mapsto> \<lparr>ip = [], userId = [], num = 1\<rparr>]\<rparr>)
    = Some (Inl Map_at, s')"
proof -
  let ?i = "\<lparr>ip = [], userId = [], num = 1\<rparr> :: Info"
  let ?s = "sample_server\<lparr>m_map_boost := [1 \<mapsto> ?i]\<rparr>"
  have "sock_order sample_ext (m_map_boost ?s) = [(1, ?i)]" by (simp add: sample_ext_def sorted_entries_def)
  then have "\<exists>p k i q. sock_order sample_ext (m_map_boost ?s) = p @ (k, i) # q \<and> num i < 3
      \<and> (\<exists>d \<in> set (p @ [(k, i)]). Leaves k \<in> set ((\<lambda>_. [Leaves 1]) (fst d)))"
    by (intro exI [of _ "[]"] exI [of _ 1] exI [of _ ?i]) simp
  moreover have "counters_ok (m_map_boost ?s)" by (simp add: counters_ok_def)
  ultimately show ?thesis using check_race [OF sample_walks(3), of ?s "\<lambda>_. [Leaves 1]"] by (auto simp del: fun_upd_apply)
qed

end
