(* ===== verification/Socket_Transfer.thy ===== *)
theory Socket_Transfer
  imports Scenario
begin

text \<open>
  The contract of \<^verbatim>\<open>my_recv\<close> and \<^verbatim>\<open>my_send\<close> (\<^verbatim>\<open>config.cpp\<close>): on a socket that behaves as documented
  they transfer exactly the bytes asked for, however the kernel splits them and however often a
  signal interrupts.  The socket is described by what the peer has still to deliver
  (\<open>pending\<close>) and by a bound on the interruptions to come (\<open>delay\<close>).
\<close>

section \<open>Documented behaviour of the sockets\<close>

definition delivers :: "'w ext \<Rightarrow> int \<Rightarrow> bool \<Rightarrow> ('w \<Rightarrow> string) \<Rightarrow> ('w \<Rightarrow> nat) \<Rightarrow> bool" where
  "delivers E fd dontwait pending delay \<longleftrightarrow> (\<forall>n w. 0 < n \<and> n \<le> length (pending w) \<longrightarrow>
     (case sys_recv E fd n dontwait w of
        (Received bs, w') \<Rightarrow> bs \<noteq> [] \<and> length bs \<le> n \<and> pending w = bs @ pending w'
      | (Recv_eintr, w') \<Rightarrow> pending w' = pending w \<and> delay w' < delay w
      | (Recv_error, _) \<Rightarrow> False))"

definition accepts :: "'w ext \<Rightarrow> int \<Rightarrow> ('w \<Rightarrow> nat) \<Rightarrow> bool" where
  "accepts E fd delay \<longleftrightarrow> (\<forall>bs w. bs \<noteq> [] \<longrightarrow>
     (case sys_send E fd bs w of
        (Accepted n, _) \<Rightarrow> 0 < n \<and> n \<le> length bs
      | (Send_eintr, w') \<Rightarrow> delay w' < delay w
      | (Send_error, _) \<Rightarrow> False))"

lemma my_recv_loop_zero [simp]: "my_recv_loop E fd dw 0 got w = Some (True, got, w)"
  by (simp add: my_recv_loop.simps)

lemma my_send_loop_Nil [simp]: "my_send_loop E fd [] acc w = Some (True, acc, w)"
  by (simp add: my_send_loop.simps)

text \<open>Both loops end because a round transfers bytes or uses up one of the interruptions.\<close>

lemma my_recv_loop_delivers:
  assumes E: "delivers E fd dw pending delay"
  shows "n \<le> length (pending w) \<Longrightarrow>
    \<exists>w'. my_recv_loop E fd dw n got w = Some (True, got @ take n (pending w), w') \<and> pending w' = drop n (pending w)"
proof (induction "(n, delay w)" arbitrary: n got w rule: wf_induct_rule [OF wf_lex_prod [OF wf_less_than wf_less_than]])
  case less: 1
  show ?case
  proof (cases "n = 0")
    case False
    obtain r w1 where rw: "sys_recv E fd n dw w = (r, w1)" by fastforce
    note step = E [unfolded delivers_def, rule_format, of n w, unfolded rw]
    show ?thesis
    proof (cases r)
      case (Received bs)
      have bs: "bs \<noteq> []" "length bs \<le> n" "pending w = bs @ pending w1" using step False less.prems Received by auto
      have "((n - length bs, delay w1), n, delay w) \<in> less_than <*lex*> less_than" using bs(1,2) by (cases bs) auto
      moreover have "n - length bs \<le> length (pending w1)" using bs less.prems by simp
      ultimately obtain w' where "my_recv_loop E fd dw (n - length bs) (got @ bs) w1
          = Some (True, (got @ bs) @ take (n - length bs) (pending w1), w')"
        "pending w' = drop (n - length bs) (pending w1)"
        using less.hyps by blast
      then show ?thesis using False bs by (simp add: my_recv_loop.simps [of _ _ _ n] rw Received)
    next
      case Recv_eintr
      have d: "pending w1 = pending w" "delay w1 < delay w" using step False less.prems Recv_eintr by auto
      then have "((n, delay w1), n, delay w) \<in> less_than <*lex*> less_than" by simp
      from less.hyps [OF this, of got] less.prems d show ?thesis using False
        by (simp add: my_recv_loop.simps [of _ _ _ n] rw Recv_eintr)
    qed (use step False less.prems in auto)
  qed simp
qed

lemma my_send_loop_accepts:
  assumes E: "accepts E fd delay"
  shows "\<exists>w'. my_send_loop E fd bs acc w = Some (True, acc @ bs, w')"
proof (induction "(length bs, delay w)" arbitrary: bs acc w rule: wf_induct_rule [OF wf_lex_prod [OF wf_less_than wf_less_than]])
  case less: 1
  show ?case
  proof (cases "bs = []")
    case False
    obtain r w1 where rw: "sys_send E fd bs w = (r, w1)" by fastforce
    note step = E [unfolded accepts_def, rule_format, OF False, of w, unfolded rw]
    show ?thesis
    proof (cases r)
      case (Accepted n)
      have n: "0 < n" "n \<le> length bs" using step Accepted by auto
      have "((length (drop n bs), delay w1), length bs, delay w) \<in> less_than <*lex*> less_than" using n False by auto
      from less.hyps [OF this, of "acc @ take n bs"] show ?thesis using False n
        by (simp add: my_send_loop.simps [of _ _ bs] rw Accepted)
    next
      case Send_eintr
      have "((length bs, delay w1), length bs, delay w) \<in> less_than <*lex*> less_than" using step Send_eintr by simp
      from less.hyps [OF this, of acc] show ?thesis using False
        by (simp add: my_send_loop.simps [of _ _ bs] rw Send_eintr)
    qed (use step in auto)
  qed simp
qed

lemma sample_delivers [simp]: "delivers sample_ext fd dw inbox (\<lambda>w. 0)"
  by (auto simp: delivers_def sample_ext_def)

lemma sample_accepts [simp]: "accepts sample_ext fd (\<lambda>w. 0)"
  by (auto simp: accepts_def sample_ext_def)

section \<open>Properties\<close>

text \<open>
  C36: Receiving is complete.  When the peer delivers at least \<open>len\<close> bytes, in pieces of any size
  and with finitely many interruptions, \<open>my_recv\<close> returns \<open>len\<close>, stores exactly the first \<open>len\<close>
  bytes in order, and leaves the bytes after them in the stream.
\<close>

theorem my_recv_complete:
  assumes "delivers E fd dontwait pending delay" and "0 \<le> len" and "nat len \<le> length (pending (world s))"
  shows "\<exists>w'. my_recv E fd len dontwait s = Some (Inr (len, take (nat len) (pending (world s))), s\<lparr>world := w'\<rparr>)
    \<and> pending w' = drop (nat len) (pending (world s))"
  using my_recv_loop_delivers [OF assms(1,3), of "[]"] assms(2,3) by (auto simp: my_recv_def)

theorem my_recv_complete_witness:
  "\<exists>w'. my_recv sample_ext 4 3 False (sample_server\<lparr>world := sample_world\<lparr>inbox := ''hello''\<rparr>\<rparr>)
    = Some (Inr (3, ''hel''), (sample_server\<lparr>world := sample_world\<lparr>inbox := ''hello''\<rparr>\<rparr>)\<lparr>world := w'\<rparr>) \<and> inbox w' = ''lo''"
  using my_recv_complete [OF sample_delivers, of 3 "sample_server\<lparr>world := sample_world\<lparr>inbox := ''hello''\<rparr>\<rparr>" 4 False]
  by (simp add: numeral_eq_Suc)

text \<open>
  Sending is complete.  On a socket that accepts at least one byte per call and is interrupted
  finitely often, \<open>my_send\<close> hands over all bytes, in order and once each, and returns their number.
\<close>

theorem my_send_complete:
  assumes "accepts E fd delay"
  shows "\<exists>w'. my_send E fd bs s = Some (Inr (int (length bs)), log_call (Sent (Fd fd) bs) (s\<lparr>world := w'\<rparr>))"
  using my_send_loop_accepts [OF assms, of bs "[]" "world s"] by (auto simp: my_send_def)

theorem my_send_complete_witness:
  "\<exists>w'. my_send sample_ext 4 ''hello'' sample_server
    = Some (Inr 5, log_call (Sent (Fd 4) ''hello'') (sample_server\<lparr>world := w'\<rparr>))"
  using my_send_complete [OF sample_accepts, of 4 "''hello''" sample_server] by simp

end
