(* ===== verification/MyServer.thy ===== *)
theory MyServer
  imports Session Socket_Transfer
begin

text \<open>
  \<^verbatim>\<open>myserver.cpp\<close>: the epoll server.  A readable connection is taken off epoll and handed to a
  worker thread, which reads requests until the socket has nothing more to give and then puts
  the connection back.  Headers are read without blocking, bodies with a blocking \<open>my_recv\<close>
  whose length is the announced size, converted from \<open>unsigned int\<close> to \<open>int\<close>.
\<close>

section \<open>New connections\<close>

text \<open>
  \<^verbatim>\<open>processSingleConnect\<close>; the address string \<open>ip:port\<close> is part of the accept result.  The
  listening socket is drained until the accept fails.
\<close>

definition sys_accept_srv :: "'w ext \<Rightarrow> int \<Rightarrow> ('w, accept_result) srv" where
  "sys_accept_srv E listen_fd s = (case sys_accept E listen_fd (world s) of
     (r, w) \<Rightarrow> Some (Inr r, s\<lparr>world := w\<rparr>))"

definition processSingleConnect :: "'w ext \<Rightarrow> int \<Rightarrow> ('w, int) srv" where
  "processSingleConnect E listen_fd =
     bnd (sys_accept_srv E listen_fd) (\<lambda>r. case r of
       No_connection \<Rightarrow> ret (- 1)
     | New_connection new_fd addr \<Rightarrow>
         bnd (add_fd new_fd addr) (\<lambda>_. bnd (addFd E new_fd True) (\<lambda>_. ret new_fd)))"

partial_function (option) processConnect :: "'w ext \<Rightarrow> int \<Rightarrow> 'w server \<Rightarrow> ((exn + unit) \<times> 'w server) option" where
  "processConnect E listen_fd s = (case processSingleConnect E listen_fd s of
     None \<Rightarrow> None
   | Some (Inl e, s') \<Rightarrow> Some (Inl e, s')
   | Some (Inr new_fd, s') \<Rightarrow> if 0 < new_fd then processConnect E listen_fd s' else Some (Inr (), s'))"

section \<open>Reading the body\<close>

text \<open>
  \<^verbatim>\<open>my_recv(fd, buf, pheader.data_size, 0)\<close> into an array of \<open>BUF_SIZE\<close> bytes: nothing bounds the
  length, so bytes beyond the array are written over the stack.  \<^term>\<open>None\<close> is the early return.
\<close>

definition recv_ok :: "32 word \<Rightarrow> int \<Rightarrow> bool" where
  "recv_ok len r \<longleftrightarrow> \<not> (r = - 1 \<or> r = 0 \<or> word_of_int r \<noteq> len)"

definition recv_body :: "'w ext \<Rightarrow> int \<Rightarrow> 32 word \<Rightarrow> ('w, string option) srv" where
  "recv_body E fd len = bnd (my_recv E fd (sint len) False) (\<lambda>(r, got).
     if BUF_SIZE < length got then throw (UB Buffer_overflow)
     else ret (if recv_ok len r then Some got else None))"

definition with_recv :: "'w ext \<Rightarrow> int \<Rightarrow> 32 word \<Rightarrow> (string \<Rightarrow> ('w, unit) srv) \<Rightarrow> ('w, unit) srv" where
  "with_recv E fd len handler =
     bnd (recv_body E fd len) (\<lambda>b. case b of
       None \<Rightarrow> ret ()
     | Some got \<Rightarrow> bnd (lift_sum (buf_string got)) handler)"

section \<open>The cases\<close>

definition request_Register :: "'w ext \<Rightarrow> int \<Rightarrow> 32 word \<Rightarrow> ('w, unit) srv" where
  "request_Register E fd len = with_recv E fd len (\<lambda>buf.
     bnd (do_register E buf) (\<lambda>success. reply (send_fd E fd) (register_P success)))"

definition request_Login :: "'w ext \<Rightarrow> int \<Rightarrow> 32 word \<Rightarrow> ('w, unit) srv" where
  "request_Login E fd len = with_recv E fd len (\<lambda>buf.
     bnd (do_login_fd E fd buf) (\<lambda>success. reply (send_fd E fd) (login_P success)))"

text \<open>
  An upload.  The array of \<open>BUF_SIZE + 1\<close> bytes is not cleared: a description that fills it without
  a NUL is followed by one uninitialised byte.
\<close>

definition request_SendFile :: "'w ext \<Rightarrow> int \<Rightarrow> 32 word \<Rightarrow> ('w, unit) srv" where
  "request_SendFile E fd len =
     bnd (my_recv E fd (int BUF_SIZE) False) (\<lambda>(r, info).
     if r \<noteq> int BUF_SIZE then ret ()
     else bnd (my_recv E fd (sint len) False) (\<lambda>(r, file_buf).
       if \<not> recv_ok len r then ret ()
       else if NUL \<notin> set info then throw (UB Missing_terminator)
       else bnd (receive_file_fd E fd (c_str info) file_buf) (\<lambda>_. ret ())))"

definition request_Chat :: "'w ext \<Rightarrow> int \<Rightarrow> 32 word \<Rightarrow> ('w, unit) srv" where
  "request_Chat E fd len =
     bnd (recv_body E fd len) (\<lambda>b. case b of
       None \<Rightarrow> ret ()
     | Some got \<Rightarrow> bnd (lift_sum (json_parse (m_buf got))) (chat E))"

definition processSingleRequest :: "'w ext \<Rightarrow> int \<Rightarrow> NetPacketHeader \<Rightarrow> ('w, unit) srv" where
  "processSingleRequest E fd pheader = (let len = data_size pheader in
     case purpose_of (purpose pheader) of
       Some Register \<Rightarrow> request_Register E fd len
     | Some Login \<Rightarrow> request_Login E fd len
     | Some Heart \<Rightarrow> set_0_fd fd
     | Some SendFile \<Rightarrow> request_SendFile E fd len
     | Some GetFile \<Rightarrow> with_recv E fd len (send_file_fd E fd)
     | Some GetInfo \<Rightarrow> with_recv E fd len (send_info_fd E fd)
     | Some ModifyInfo \<Rightarrow> with_recv E fd len (modify_info_fd E fd)
     | Some Chat \<Rightarrow> request_Chat E fd len
     | None \<Rightarrow> ret ())"

section \<open>The worker's task\<close>

text \<open>The peer closed the connection.\<close>

definition disconnect :: "'w ext \<Rightarrow> int \<Rightarrow> ('w, unit) srv" where
  "disconnect E fd =
     bnd (get_ip_fd fd) (\<lambda>_.
     bnd (get_userId_fd fd) (\<lambda>uid.
     bnd (live_remove uid) (\<lambda>_.
     bnd (remove_fd fd) (\<lambda>_.
     bnd (deleteFd E fd) (\<lambda>_.
     close_fd E fd)))))"

text \<open>One round of the loop: \<^term>\<open>True\<close> to go on.\<close>

definition client_round :: "'w ext \<Rightarrow> int \<Rightarrow> ('w, bool) srv" where
  "client_round E fd = bnd (my_recv E fd (int header_size) True) (\<lambda>(r, got).
     if 0 < r then
       if r \<noteq> int header_size then ret False
       else bnd (processSingleRequest E fd (header_of_bytes got)) (\<lambda>_. ret True)
     else if r = - 1 then bnd (addFd E fd True) (\<lambda>_. ret False)
     else bnd (disconnect E fd) (\<lambda>_. ret False))"

partial_function (option) processClientRequest :: "'w ext \<Rightarrow> int \<Rightarrow> 'w server \<Rightarrow> ((exn + unit) \<times> 'w server) option" where
  "processClientRequest E fd s = (case client_round E fd s of
     None \<Rightarrow> None
   | Some (Inl e, s') \<Rightarrow> Some (Inl e, s')
   | Some (Inr again, s') \<Rightarrow> if again then processClientRequest E fd s' else Some (Inr (), s'))"

section \<open>Lemmas\<close>

lemma processClientRequest_step:
  "processClientRequest E fd s = bnd (client_round E fd)
     (\<lambda>again. if again then processClientRequest E fd else ret ()) s"
  by (subst processClientRequest.simps) (auto simp: bnd_def split: option.split sum.split bool.split)

lemma header_size_nat [simp]: "header_size \<noteq> 0" "0 < header_size" "nat (int header_size) = header_size"
  by (simp_all add: header_size_def)

text \<open>A received \<open>int\<close> count is compared with the announced \<open>unsigned int\<close>.\<close>

lemma recv_ok_sint: "0 < sint len \<Longrightarrow> recv_ok len (sint len)"
  by (simp add: recv_ok_def)

lemma recv_ok_zero [simp]: "\<not> recv_ok len 0"
  by (simp add: recv_ok_def)

lemma recv_body_delivers:
  assumes "delivers E fd False coming delay" and "0 < sint len" and "nat (sint len) \<le> length (coming (world s))"
  shows "\<exists>w'. coming w' = drop (nat (sint len)) (coming (world s))
    \<and> recv_body E fd len s = Some (if BUF_SIZE < nat (sint len) then Inl (UB Buffer_overflow)
        else Inr (Some (take (nat (sint len)) (coming (world s)))), s\<lparr>world := w'\<rparr>)"
proof -
  obtain w' where "my_recv E fd (sint len) False s
      = Some (Inr (sint len, take (nat (sint len)) (coming (world s))), s\<lparr>world := w'\<rparr>)"
    "coming w' = drop (nat (sint len)) (coming (world s))"
    using my_recv_loop_delivers [OF assms(1,3), of "[]"] assms(2,3) by (auto simp: my_recv_def)
  then show ?thesis using assms(2,3) recv_ok_sint [of len] by (auto simp: recv_body_def bnd_def)
qed

text \<open>What a task does to its connection in the end.\<close>

definition task_end :: "int \<Rightarrow> call list \<Rightarrow> bool" where
  "task_end fd cs \<longleftrightarrow> cs = [] \<or> cs = [Watch fd True] \<or> cs = [Unwatch fd, Close (Fd fd)]"

definition ended :: "int \<Rightarrow> bool \<Rightarrow> 'w server \<Rightarrow> 'w server \<Rightarrow> bool" where
  "ended fd stop s s' \<longleftrightarrow> others (Fd fd) s' = others (Fd fd) s \<and> (\<exists>cs ds. calls s' = calls s @ cs @ ds
    \<and> (\<forall>c \<in> set cs. request_call (Fd fd) c) \<and> task_end fd ds \<and> (ds \<noteq> [] \<longrightarrow> stop))"

lemma endedI:
  "others (Fd fd) s' = others (Fd fd) s \<Longrightarrow> calls s' = calls s @ cs @ ds \<Longrightarrow> \<forall>c \<in> set cs. request_call (Fd fd) c
    \<Longrightarrow> task_end fd ds \<Longrightarrow> ds \<noteq> [] \<longrightarrow> stop \<Longrightarrow> ended fd stop s s'"
  unfolding ended_def by blast

lemma ended_confined:
  assumes "confined (Fd fd) s s'"
  shows "ended fd stop s s'"
proof -
  obtain cs where "calls s' = calls s @ cs" "\<forall>c \<in> set cs. request_call (Fd fd) c"
    using assms by (auto simp: confined_def only_calls_def)
  with assms show ?thesis by (intro endedI [of _ _ _ cs "[]"]) (simp_all add: confined_def task_end_def)
qed

lemma ended_now: "others (Fd fd) s' = others (Fd fd) s \<Longrightarrow> calls s' = calls s @ ds \<Longrightarrow> task_end fd ds \<Longrightarrow> ended fd True s s'"
  by (rule endedI [of _ _ _ "[]" ds]) simp_all

lemma ended_trans:
  assumes "ended fd False s t" and "ended fd stop t u"
  shows "ended fd stop s u"
proof -
  obtain cs where "calls t = calls s @ cs" "\<forall>c \<in> set cs. request_call (Fd fd) c"
    using assms(1) by (auto simp: ended_def)
  moreover obtain cs2 ds where "calls u = calls t @ cs2 @ ds" "\<forall>c \<in> set cs2. request_call (Fd fd) c"
    "task_end fd ds" "ds \<noteq> [] \<longrightarrow> stop"
    using assms(2) by (auto simp: ended_def)
  moreover have "others (Fd fd) u = others (Fd fd) s" using assms by (simp add: ended_def)
  ultimately show ?thesis by (intro endedI [of _ _ _ "cs @ cs2" ds]) auto
qed

lemma recv_confined:
  "keeps (confined p) (recv_body E fd len)"
  "(\<And>buf. keeps (confined p) (handler buf)) \<Longrightarrow> keeps (confined p) (with_recv E fd len handler)"
  by (auto simp: recv_body_def with_recv_def intro!: confined_rules)

lemma request_confined: "keeps (confined (Fd fd)) (processSingleRequest E fd h)"
  unfolding processSingleRequest_def Let_def request_Register_def request_Login_def request_Chat_def request_SendFile_def
  by (auto intro!: recv_confined confined_rules fd_handlers_confined send_file_confined chat_confined
      split: option.split Purpose.split)

lemma disconnect_end:
  "disconnect E fd s = Some (r, s') \<Longrightarrow> confined (Fd fd) s s' \<or> r = Inr () \<and> ended fd True s s'"
  by (auto simp: disconnect_def bnd_def get_ip_fd_def get_userId_fd_def table_op_defs live_remove_def deleteFd_def
      close_fd_def log_call_def others_def map_at_def confined_def only_calls_def split: option.splits
      intro!: ended_now [where ds = "[Unwatch fd, Close (Fd fd)]"] simp: task_end_def)

lemma round_end:
  assumes "client_round E fd s = Some (r, s')"
  shows "ended fd (r = Inr False) s s'"
proof -
  obtain r1 got s1 where rcv: "my_recv E fd (int header_size) True s = Some (Inr (r1, got), s1)"
    using assms by (auto simp: client_round_def bnd_def my_recv_def split: option.splits prod.splits)
  then have s1: "confined (Fd fd) s s1" using keepsD [OF confined_calls(7)] by blast
  have round: "client_round E fd s = (if 0 < r1 then
       if r1 \<noteq> int header_size then ret False
       else bnd (processSingleRequest E fd (header_of_bytes got)) (\<lambda>_. ret True)
     else if r1 = - 1 then bnd (addFd E fd True) (\<lambda>_. ret False)
     else bnd (disconnect E fd) (\<lambda>_. ret False)) s1"
    by (simp add: client_round_def bnd_def rcv)
  have "ended fd (r = Inr False) s1 s'"
  proof (cases "0 < r1")
    case True
    then show ?thesis using assms unfolding round
      by (auto elim!: bnd_SomeE split: if_splits intro!: ended_confined
          dest: keepsD [OF request_confined] simp: conf.frame_refl)
  next
    case False
    show ?thesis
    proof (cases "r1 = - 1")
      case True
      then show ?thesis using assms unfolding round
        by (auto simp: bnd_def addFd_def log_call_def others_def task_end_def intro!: ended_now [where ds = "[Watch fd True]"])
    next
      case rest: False
      then show ?thesis using assms False unfolding round
        by (auto elim!: bnd_SomeE dest!: disconnect_end intro: ended_confined)
    qed
  qed
  with s1 show ?thesis by (blast intro: ended_trans ended_confined)
qed

lemma task_end_run:
  assumes "processClientRequest E fd s = Some (r, s')"
  shows "ended fd (r = Inr ()) s s'"
proof -
  let ?P = "\<lambda>E fd s y. ended fd (fst y = Inr ()) s (snd y)"
  have "?P E fd s (r, s')"
  proof (rule processClientRequest.raw_induct [of ?P, OF _ assms])
    fix f :: "'a ext \<Rightarrow> int \<Rightarrow> 'a server \<Rightarrow> ((exn + unit) \<times> 'a server) option" and E fd s y
    assume IH: "\<And>E fd s y. f E fd s = Some y \<Longrightarrow> ?P E fd s y"
      and run: "(case client_round E fd s of None \<Rightarrow> None | Some (Inl e, s') \<Rightarrow> Some (Inl e, s')
        | Some (Inr again, s') \<Rightarrow> if again then f E fd s' else Some (Inr (), s')) = Some y"
    then obtain x t where x: "client_round E fd s = Some (x, t)" by (auto split: option.splits)
    note e = round_end [OF x]
    show "?P E fd s y"
    proof (cases x)
      case (Inl e')
      with run x e show ?thesis by auto
    next
      case (Inr again)
      with run x e IH [of E fd t y] show ?thesis by (cases again) (auto intro: ended_trans)
    qed
  qed
  then show ?thesis by simp
qed

section \<open>Properties\<close>

text \<open>
  C26: Requests that arrive together are taken apart.  With at least a header pending, a round
  consumes exactly the header's bytes, runs the request they announce on the rest of the stream,
  and goes on with the next request, unless the request ended in an exception.
\<close>

theorem requests_unpacked:
  assumes "delivers E fd True coming delay" and "coming (world s) = header_bytes h @ rest"
  shows "\<exists>w'. coming w' = rest \<and> processClientRequest E fd s
    = bnd (processSingleRequest E fd h) (\<lambda>_. processClientRequest E fd) (s\<lparr>world := w'\<rparr>)"
proof -
  obtain w' where w': "my_recv E fd (int header_size) True s = Some (Inr (int header_size, header_bytes h), s\<lparr>world := w'\<rparr>)"
    "coming w' = rest"
    using my_recv_loop_delivers [OF assms(1), of header_size "world s" "[]"] assms(2) by (auto simp: my_recv_def)
  have "client_round E fd s = bnd (processSingleRequest E fd h) (\<lambda>_. ret True) (s\<lparr>world := w'\<rparr>)"
    using header_roundtrip [of h "[]"] by (simp add: client_round_def bnd_def w'(1))
  then have "processClientRequest E fd s
      = bnd (processSingleRequest E fd h) (\<lambda>_. processClientRequest E fd) (s\<lparr>world := w'\<rparr>)"
    by (simp add: processClientRequest_step [of E fd s] bnd_def split: option.split sum.split)
  then show ?thesis using w'(2) by blast
qed

theorem requests_unpacked_witness:
  "\<exists>w'. inbox w' = header_bytes \<lparr>purpose = 9, data_size = 0\<rparr>
    \<and> processClientRequest sample_ext 4 (sample_server\<lparr>world := sample_world\<lparr>inbox :=
          header_bytes \<lparr>purpose = 0, data_size = 0\<rparr> @ header_bytes \<lparr>purpose = 9, data_size = 0\<rparr>\<rparr>\<rparr>)
      = bnd (processSingleRequest sample_ext 4 \<lparr>purpose = 0, data_size = 0\<rparr>) (\<lambda>_. processClientRequest sample_ext 4)
          (sample_server\<lparr>world := w'\<rparr>)"
  using requests_unpacked [OF sample_delivers, of "sample_server\<lparr>world := sample_world\<lparr>inbox :=
      header_bytes \<lparr>purpose = 0, data_size = 0\<rparr> @ header_bytes \<lparr>purpose = 9, data_size = 0\<rparr>\<rparr>\<rparr>"
      "\<lparr>purpose = 0, data_size = 0\<rparr>" "header_bytes \<lparr>purpose = 9, data_size = 0\<rparr>" 4]
  by simp

text \<open>
  C35: The stack can be overwritten from the network.  A request (other than an upload or a
  heartbeat) that announces more than \<open>BUF_SIZE\<close> bytes, as a positive \<open>int\<close>, and delivers them, makes
  \<open>my_recv\<close> write past the end of the array before any check.
\<close>

theorem request_overflow:
  assumes "delivers E fd False coming delay"
    and "purpose_of (purpose h) \<in> {Some Register, Some Login, Some GetFile, Some GetInfo, Some ModifyInfo, Some Chat}"
    and "int BUF_SIZE < sint (data_size h)" and "nat (sint (data_size h)) \<le> length (coming (world s))"
  shows "\<exists>w'. processSingleRequest E fd h s = Some (Inl (UB Buffer_overflow), s\<lparr>world := w'\<rparr>)"
proof -
  have "0 < sint (data_size h)" using assms(3) by linarith
  moreover have "BUF_SIZE < nat (sint (data_size h))" using assms(3) by linarith
  ultimately obtain w' where "recv_body E fd (data_size h) s = Some (Inl (UB Buffer_overflow), s\<lparr>world := w'\<rparr>)"
    using recv_body_delivers [OF assms(1) _ assms(4)] by auto
  then show ?thesis using assms(2)
    by (auto simp: processSingleRequest_def request_Register_def request_Login_def request_Chat_def with_recv_def bnd_InlI)
qed

theorem request_overflow_witness:
  "\<exists>w'. processSingleRequest sample_ext 4 \<lparr>purpose = 5, data_size = 10241\<rparr>
      (sample_server\<lparr>world := sample_world\<lparr>inbox := replicate 10241 CHR ''x''\<rparr>\<rparr>)
    = Some (Inl (UB Buffer_overflow), (sample_server\<lparr>world := sample_world\<lparr>inbox := replicate 10241 CHR ''x''\<rparr>\<rparr>)\<lparr>world := w'\<rparr>)"
proof -
  let ?s = "sample_server\<lparr>world := sample_world\<lparr>inbox := replicate 10241 CHR ''x''\<rparr>\<rparr>"
  let ?h = "\<lparr>purpose = 5, data_size = 10241\<rparr> :: NetPacketHeader"
  have p: "purpose_of (purpose ?h) = Some GetInfo" using purpose_of_int [of GetInfo] by simp
  have len: "sint (data_size ?h) = 10241" by simp
  show ?thesis
    by (rule request_overflow [OF sample_delivers]) (use p in \<open>simp_all add: len BUF_SIZE_def\<close>)
qed

text \<open>
  A header that is not there completely is lost.  When only a piece of a header has arrived, the
  piece is consumed, the connection goes back to epoll, and nothing of the piece is kept: what
  comes next is read as the start of a header.
\<close>

theorem partial_header_lost:
  assumes "sys_recv E fd header_size True (world s) = (Received piece, w1)"
    and "piece \<noteq> []" and "length piece < header_size"
    and "sys_recv E fd (header_size - length piece) True w1 = (Recv_error, w2)"
  shows "processClientRequest E fd s
    = Some (Inr (), s\<lparr>world := epoll_add E fd True w2, calls := calls s @ [Watch fd True]\<rparr>)"
proof -
  have "my_recv_loop E fd True header_size [] (world s) = Some (False, piece, w2)"
    using assms by (simp add: my_recv_loop.simps [of _ _ _ header_size] my_recv_loop.simps [of _ _ _ "header_size - length piece"])
  then have "my_recv E fd (int header_size) True s = Some (Inr (- 1, piece), s\<lparr>world := w2\<rparr>)"
    by (simp add: my_recv_def)
  then show ?thesis
    by (simp add: processClientRequest_step [of E fd s] client_round_def bnd_def addFd_def log_call_def)
qed

theorem partial_header_lost_witness:
  "processClientRequest sample_ext 4 (sample_server\<lparr>world := sample_world\<lparr>inbox := ''abc''\<rparr>\<rparr>)
    = Some (Inr (), sample_server\<lparr>calls := [Watch 4 True]\<rparr>)"
  using partial_header_lost [of sample_ext 4 "sample_server\<lparr>world := sample_world\<lparr>inbox := ''abc''\<rparr>\<rparr>" "''abc''"
      sample_world sample_world]
  by (simp add: sample_ext_def sample_server_def sample_world_def header_size_def)

text \<open>
  A disconnect cleans up.  When the peer has closed, the connection's entry and the live stream
  of its user are removed and no others, the socket is taken off epoll and closed, in this
  order, and the task ends.
\<close>

theorem disconnect_cleanup:
  assumes "sys_recv E fd header_size True (world s) = (Received [], w)" and "m_map s fd = Some i"
  shows "\<exists>w'. processClientRequest E fd s = Some (Inr (), s\<lparr>world := w', calls := calls s @ [Unwatch fd, Close (Fd fd)],
      m_map := (m_map s)(fd := None), m_liveList := (m_liveList s)(userId i := None)\<rparr>)"
proof -
  have "my_recv_loop E fd True header_size [] (world s) = Some (True, [], w)"
    using assms(1) by (simp add: my_recv_loop.simps [of _ _ _ header_size])
  then have "my_recv E fd (int header_size) True s = Some (Inr (0, []), s\<lparr>world := w\<rparr>)"
    by (simp add: my_recv_def)
  then show ?thesis using assms(2)
    by (simp add: processClientRequest_step [of E fd s] client_round_def disconnect_def bnd_def table_op_defs
        get_ip_fd_def get_userId_fd_def live_remove_def deleteFd_def close_fd_def log_call_def)
      (intro exI [of _ "sys_close E fd (epoll_del E fd w)"], simp)
qed

theorem disconnect_cleanup_witness:
  "\<exists>s'. processClientRequest (sample_ext\<lparr>sys_recv := (\<lambda>fd n dontwait w. (Received [], w))\<rparr>) 4
      (sample_server\<lparr>m_map := [4 \<mapsto> (fresh_info [])\<lparr>userId := ''7''\<rparr>, 5 \<mapsto> fresh_info []],
        m_liveList := [''7'' \<mapsto> ''u'', ''8'' \<mapsto> ''v'']\<rparr>) = Some (Inr (), s')
    \<and> dom (m_map s') = {5} \<and> dom (m_liveList s') = {''8''} \<and> calls s' = [Unwatch 4, Close (Fd 4)]"
  using disconnect_cleanup [of "sample_ext\<lparr>sys_recv := (\<lambda>fd n dontwait w. (Received [], w))\<rparr>" 4
      "sample_server\<lparr>m_map := [4 \<mapsto> (fresh_info [])\<lparr>userId := ''7''\<rparr>, 5 \<mapsto> fresh_info []],
        m_liveList := [''7'' \<mapsto> ''u'', ''8'' \<mapsto> ''v'']\<rparr>" sample_world "(fresh_info [])\<lparr>userId := ''7''\<rparr>"]
  by (auto simp: sample_server_def)

text \<open>
  Isolation of tasks.  Whatever a connection sends, its task changes no entry of another
  connection and sends to no other connection.  A task that returns has, as its last calls, put its
  connection back on epoll, or taken it off and closed it, or done neither; one that ends in an
  exception has done neither.
\<close>

theorem task_isolation:
  assumes "processClientRequest E fd s = Some (r, s')"
  shows "m_map_boost s' = m_map_boost s \<and> (\<forall>fd'. fd' \<noteq> fd \<longrightarrow> m_map s' fd' = m_map s fd')
    \<and> (\<exists>cs ds. calls s' = calls s @ cs @ ds \<and> (\<forall>c \<in> set cs. request_call (Fd fd) c)
      \<and> task_end fd ds \<and> (ds \<noteq> [] \<longrightarrow> r = Inr ()))"
proof -
  have q: "ended fd (r = Inr ()) s s'" by (rule task_end_run [OF assms])
  have "m_map s' fd' = m_map s fd'" if "fd' \<noteq> fd" for fd'
    using q that by (auto simp: ended_def others_def fun_upd_def fun_eq_iff dest: spec [of _ fd'])
  then show ?thesis using q by (auto simp: ended_def others_def)
qed

theorem task_isolation_witness:
  "\<exists>s' cs ds. processClientRequest sample_ext 4 (sample_server\<lparr>m_map := [4 \<mapsto> fresh_info [], 5 \<mapsto> fresh_info []]\<rparr>)
      = Some (Inr (), s') \<and> m_map s' 5 = Some (fresh_info []) \<and> calls s' = cs @ ds \<and> task_end 4 ds"
proof -
  let ?s = "sample_server\<lparr>m_map := [4 \<mapsto> fresh_info [], 5 \<mapsto> fresh_info []]\<rparr>"
  have "my_recv_loop sample_ext 4 True header_size [] (world ?s) = Some (False, [], world ?s)"
    by (simp add: my_recv_loop.simps [of _ _ _ header_size] sample_defs)
  then obtain s' where s': "processClientRequest sample_ext 4 ?s = Some (Inr (), s')"
    by (simp add: processClientRequest_step [of _ _ ?s] client_round_def my_recv_def bnd_def addFd_def)
  from task_isolation [OF this] have "m_map s' 5 = Some (fresh_info [])" by simp
  moreover obtain cs ds where "calls s' = cs @ ds" "task_end 4 ds"
    using task_isolation [OF s'] by (auto simp: sample_server_def)
  ultimately show ?thesis using s' by blast
qed

end
