(* ===== verification/Transports.thy ===== *)
theory Transports
  imports MyServer
begin

text \<open>
  The two servers side by side.  Most operations exist twice, for a file descriptor and for a Boost
  socket.  Here a run of one is coupled with a run of the other: for a surrounding in which the
  descriptor and the socket behave alike, the same request on both has the same result, the same
  calls but for the name of the connection, and the same effect on the tables.
\<close>

section \<open>Coupled programs\<close>

text \<open>From related states both return, with the same value or exception and in related states, or neither does.\<close>

definition sims :: "('s \<Rightarrow> 't \<Rightarrow> bool) \<Rightarrow> ('e, 's, 'a) prog \<Rightarrow> ('e, 't, 'a) prog \<Rightarrow> bool" where
  "sims R m n \<longleftrightarrow> (\<forall>s t. R s t \<longrightarrow> (case m s of
     None \<Rightarrow> n t = None
   | Some (r, s') \<Rightarrow> (\<exists>t'. n t = Some (r, t') \<and> R s' t')))"

lemma simsI:
  assumes "\<And>s t. R s t \<Longrightarrow> case m s of None \<Rightarrow> n t = None | Some (r, s') \<Rightarrow> \<exists>t'. n t = Some (r, t') \<and> R s' t'"
  shows "sims R m n"
  using assms by (simp add: sims_def)

lemma simsD:
  assumes "sims R m n" and "R s t"
  shows "m s = None \<Longrightarrow> n t = None" and "m s = Some (r, s') \<Longrightarrow> \<exists>t'. n t = Some (r, t') \<and> R s' t'"
  using assms unfolding sims_def by (fastforce split: option.splits)+

lemma sims_ret: "sims R (ret a) (ret a)"
  by (simp add: sims_def)

lemma sims_throw: "sims R (throw e) (throw e)"
  by (simp add: sims_def)

lemma sims_lift_sum: "sims R (lift_sum x) (lift_sum x)"
  by (simp add: sims_def)

lemma sims_get_st: "(\<And>s t. R s t \<Longrightarrow> f s = g t) \<Longrightarrow> sims R (get_st f) (get_st g)"
  by (simp add: sims_def)

lemma sims_bnd:
  assumes m: "sims R m n" and f: "\<And>a. sims R (f a) (g a)"
  shows "sims R (bnd m f) (bnd n g)"
proof (rule simsI)
  fix s t assume R: "R s t"
  show "case bnd m f s of None \<Rightarrow> bnd n g t = None | Some (r, s') \<Rightarrow> \<exists>t'. bnd n g t = Some (r, t') \<and> R s' t'"
  proof (cases "m s")
    case None
    then show ?thesis using simsD(1) [OF m R] by (simp add: bnd_NoneI)
  next
    case (Some x)
    obtain r s' where x: "x = (r, s')" by (cases x)
    then obtain t' where t': "n t = Some (r, t')" "R s' t'" using simsD(2) [OF m R] Some by blast
    show ?thesis
    proof (cases r)
      case (Inl e)
      then show ?thesis using Some x t' by (simp add: bnd_def)
    next
      case (Inr a)
      have eq: "bnd m f s = f a s'" "bnd n g t = g a t'" using Some x t' Inr by (simp_all add: bnd_def)
      show ?thesis unfolding eq using f [of a] t'(2) by (simp add: sims_def)
    qed
  qed
qed

lemma sims_for_each: "(\<And>x. sims R (f x) (g x)) \<Longrightarrow> sims R (for_each xs f) (for_each xs g)"
  by (induction xs) (simp_all add: sims_ret sims_bnd)

lemma sims_map_each: "(\<And>x. sims R (f x) (g x)) \<Longrightarrow> sims R (map_each f xs) (map_each g xs)"
  by (induction xs) (simp_all add: sims_ret sims_bnd)

lemma sims_if: "(b \<Longrightarrow> sims R m n) \<Longrightarrow> (\<not> b \<Longrightarrow> sims R m' n') \<Longrightarrow> sims R (if b then m else m') (if b then n else n')"
  by simp

lemma sims_case_option: "sims R m n \<Longrightarrow> (\<And>x. sims R (f x) (g x)) \<Longrightarrow>
    sims R (case v of None \<Rightarrow> m | Some x \<Rightarrow> f x) (case v of None \<Rightarrow> n | Some x \<Rightarrow> g x)"
  by (cases v) auto

lemma sims_case_list: "sims R m n \<Longrightarrow> (\<And>x xs. sims R (f x xs) (g x xs)) \<Longrightarrow>
    sims R (case v of [] \<Rightarrow> m | x # xs \<Rightarrow> f x xs) (case v of [] \<Rightarrow> n | x # xs \<Rightarrow> g x xs)"
  by (cases v) auto

lemmas sims_rules = sims_ret sims_throw sims_lift_sum sims_bnd sims_for_each sims_map_each sims_if
  sims_case_option sims_case_list

section \<open>A descriptor and a socket that behave alike\<close>

text \<open>
  \<open>W\<close> relates the outside worlds of the two runs.  The database, the files, the clock and fresh
  memory answer alike in related worlds, and bytes written to the descriptor, in as many pieces as
  it takes, and to the socket arrive completely.
\<close>

definition agree :: "('w \<Rightarrow> 'w \<Rightarrow> bool) \<Rightarrow> ('w \<Rightarrow> 'a \<times> 'w) \<Rightarrow> bool" where
  "agree W f \<longleftrightarrow> (\<forall>v w. W v w \<longrightarrow> fst (f v) = fst (f w) \<and> W (snd (f v)) (snd (f w)))"

definition couples :: "'w ext \<Rightarrow> int \<Rightarrow> nat \<Rightarrow> ('w \<Rightarrow> 'w \<Rightarrow> bool) \<Rightarrow> bool" where
  "couples E fd k W \<longleftrightarrow> (\<forall>c. agree W (mysql_execute E c)) \<and> (\<forall>c. agree W (mysql_store E c))
   \<and> (\<forall>p. agree W (file_remove E p)) \<and> agree W (clock_ms E)
   \<and> (\<forall>v w p bs. W v w \<longrightarrow> W (file_write E p bs v) (file_write E p bs w))
   \<and> (\<forall>v w. W v w \<longrightarrow> (\<forall>p. file_stat E p v = file_stat E p w \<and> file_is_open E p v = file_is_open E p w)
        \<and> (\<forall>p n. file_read E p n v = file_read E p n w) \<and> (\<forall>n. fresh_heap E n v = fresh_heap E n w)
        \<and> (\<forall>bs. \<exists>v' w'. my_send_loop E fd bs [] v = Some (True, bs, v')
             \<and> asio_write E k bs w = (Some (length bs), w') \<and> W v' w'))"

lemma agreeD: "agree W f \<Longrightarrow> W v w \<Longrightarrow> f v = (x, v') \<Longrightarrow> \<exists>w'. f w = (x, w') \<and> W v' w'"
  by (cases "f w") (fastforce simp: agree_def)

text \<open>The two processes: equal but for the name of the connection.\<close>

definition rename_peer :: "int \<Rightarrow> nat \<Rightarrow> peer \<Rightarrow> peer" where
  "rename_peer fd k p = (if p = Fd fd then Sock k else p)"

fun rename_call :: "int \<Rightarrow> nat \<Rightarrow> call \<Rightarrow> call" where
  "rename_call fd k (Sent p bs) = Sent (rename_peer fd k p) bs"
| "rename_call fd k (Close p) = Close (rename_peer fd k p)"
| "rename_call fd k c = c"

definition same_client :: "Info option \<Rightarrow> Info option \<Rightarrow> bool" where
  "same_client x y \<longleftrightarrow> map_option (\<lambda>i. (userId i, num i)) x = map_option (\<lambda>i. (userId i, num i)) y"

definition alike :: "('w \<Rightarrow> 'w \<Rightarrow> bool) \<Rightarrow> int \<Rightarrow> nat \<Rightarrow> 'w server \<Rightarrow> 'w server \<Rightarrow> bool" where
  "alike W fd k s t \<longleftrightarrow> W (world s) (world t) \<and> calls t = map (rename_call fd k) (calls s)
     \<and> m_liveList s = m_liveList t \<and> worker s = worker t \<and> same_client (m_map s fd) (m_map_boost t k)"

lemma alike_log:
  "alike W fd k s t \<Longrightarrow> W v w \<Longrightarrow> d = rename_call fd k c
    \<Longrightarrow> alike W fd k (log_call c (s\<lparr>world := v\<rparr>)) (log_call d (t\<lparr>world := w\<rparr>))"
  by (simp add: alike_def log_call_def)

lemma sims_world:
  assumes "agree W f" and "\<And>s. m s = (case f (world s) of (x, w) \<Rightarrow> Some (Inr x, log_call c (s\<lparr>world := w\<rparr>)))"
    and "rename_call fd k c = c"
  shows "sims (alike W fd k) m m"
proof (rule simsI)
  fix s t assume a: "alike W fd k s t"
  obtain x v where v: "f (world s) = (x, v)" by fastforce
  obtain w where w: "f (world t) = (x, w)" "W v w"
    using agreeD [OF assms(1) _ v] a by (auto simp: alike_def)
  show "case m s of None \<Rightarrow> m t = None | Some (r, s') \<Rightarrow> \<exists>t'. m t = Some (r, t') \<and> alike W fd k s' t'"
    using alike_log [OF a w(2), of c c] assms(3) by (simp add: assms(2) v w(1))
qed

lemma sims_queries:
  assumes "couples E fd k W"
  shows "sims (alike W fd k) (query_execute E c) (query_execute E c)"
    and "sims (alike W fd k) (query_store E c) (query_store E c)"
    and "sims (alike W fd k) (remove_file E p) (remove_file E p)"
proof -
  have a: "agree W (mysql_execute E c)" "agree W (mysql_store E c)" "agree W (file_remove E p)"
    using assms by (simp_all add: couples_def)
  show "sims (alike W fd k) (query_execute E c) (query_execute E c)"
    by (rule sims_world [OF a(1), where c = "Execute c"]) (simp_all add: query_execute_def)
  show "sims (alike W fd k) (query_store E c) (query_store E c)"
    by (rule sims_world [OF a(2), where c = "Store c"]) (simp_all add: query_store_def)
  show "sims (alike W fd k) (remove_file E p) (remove_file E p)"
    by (rule sims_world [OF a(3), where c = "Remove_file p"]) (simp_all add: remove_file_def)
qed

text \<open>Drawing an id, with its wait for the clock.\<close>

lemma agree_converse: "agree W f \<Longrightarrow> agree (\<lambda>v w. W w v) f"
  by (simp add: agree_def)

lemma tilNextMillis_agree:
  assumes "agree W clk" and "tilNextMillis clk l v = Some x" and "W v w"
  shows "\<exists>w'. tilNextMillis clk l w = Some (fst x, w') \<and> W (snd x) w'"
proof -
  let ?P = "\<lambda>clk l v x. agree W clk \<longrightarrow> (\<forall>w. W v w \<longrightarrow> (\<exists>w'. tilNextMillis clk l w = Some (fst x, w') \<and> W (snd x) w'))"
  have "?P clk l v x"
  proof (rule tilNextMillis.raw_induct [of ?P, OF _ assms(2)], intro allI impI)
    fix f :: "('a \<Rightarrow> 64 word \<times> 'a) \<Rightarrow> 64 word \<Rightarrow> 'a \<Rightarrow> (64 word \<times> 'a) option"
      and clk :: "'a \<Rightarrow> 64 word \<times> 'a" and l v x w
    assume IH: "\<And>clk l v x. f clk l v = Some x \<Longrightarrow> ?P clk l v x"
      and run: "(case clk v of (ts, v') \<Rightarrow> if ts \<le> l then f clk l v' else Some (ts, v')) = Some x"
      and a: "agree W clk" and W: "W v w"
    obtain ts v' where v': "clk v = (ts, v')" by fastforce
    obtain w' where w': "clk w = (ts, w')" "W v' w'" using agreeD [OF a W v'] by blast
    show "\<exists>w'. tilNextMillis clk l w = Some (fst x, w') \<and> W (snd x) w'"
    proof (cases "ts \<le> l")
      case True
      then have "f clk l v' = Some x" using run v' by simp
      from IH [OF this, rule_format, OF a w'(2)] show ?thesis
        using w'(1) True by (subst tilNextMillis.simps) simp
    next
      case False
      then show ?thesis using run v' w' by (subst tilNextMillis.simps) auto
    qed
  qed
  with assms(1,3) show ?thesis by blast
qed

lemma tilNextMillis_None:
  assumes "agree W clk" and "tilNextMillis clk l v = None" and "W v w"
  shows "tilNextMillis clk l w = None"
proof (cases "tilNextMillis clk l w")
  case (Some x)
  then show ?thesis using tilNextMillis_agree [OF agree_converse [OF assms(1)] Some assms(3)] assms(2) by auto
qed simp

lemma sims_next_id:
  assumes "couples E fd k W"
  shows "sims (alike W fd k) (next_id E) (next_id E)"
proof (rule simsI)
  fix s t assume a: "alike W fd k s t"
  have clk: "agree W (clock_ms E)" using assms by (simp add: couples_def)
  obtain ts v where v: "clock_ms E (world s) = (ts, v)" by fastforce
  obtain w where w: "clock_ms E (world t) = (ts, w)" "W v w"
    using agreeD [OF clk _ v] a by (auto simp: alike_def)
  show "case next_id E s of None \<Rightarrow> next_id E t = None | Some (r, s') \<Rightarrow> \<exists>t'. next_id E t = Some (r, t') \<and> alike W fd k s' t'"
  proof (cases "tilNextMillis (clock_ms E) (lastTimestamp (worker s)) v")
    case None
    then show ?thesis using tilNextMillis_None [OF clk None w(2)] a w(2)
      by (auto simp: next_id_def nextId_def v w(1) Let_def alike_def)
  next
    case (Some x)
    then obtain w' where "tilNextMillis (clock_ms E) (lastTimestamp (worker s)) w = Some (fst x, w')" "W (snd x) w'"
      using tilNextMillis_agree [OF clk Some w(2)] by blast
    then show ?thesis using Some a w(2)
      by (cases x) (auto simp: next_id_def nextId_def v w(1) Let_def alike_def)
  qed
qed

text \<open>Sending a packet or a run of bytes.\<close>

lemma couples_send:
  assumes "couples E fd k W" and "alike W fd k s t"
  shows "\<exists>s' t'. my_send E fd bs s = Some (Inr (int (length bs)), s') \<and> boost_write E k bs t = Some (Inr (length bs), t')
    \<and> alike W fd k s' t'"
proof -
  have "W (world s) (world t)" using assms(2) by (simp add: alike_def)
  then have sent: "\<exists>v w. my_send_loop E fd bs [] (world s) = Some (True, bs, v)
      \<and> asio_write E k bs (world t) = (Some (length bs), w) \<and> W v w"
    using assms(1) by (simp add: couples_def)
  obtain v w where "my_send_loop E fd bs [] (world s) = Some (True, bs, v)" "asio_write E k bs (world t) = (Some (length bs), w)"
    "W v w" using sent by blast
  then show ?thesis using alike_log [OF assms(2), of v w "Sent (Sock k) bs" "Sent (Fd fd) bs"]
    by (simp add: my_send_def boost_write_def rename_peer_def)
qed

lemma sims_send:
  assumes "couples E fd k W"
  shows "sims (alike W fd k) (send_fd E fd p) (send_sock E k p)"
    and "sims (alike W fd k) (send_bytes_fd E fd bs) (send_bytes_sock E k bs)"
proof -
  show "sims (alike W fd k) (send_fd E fd p) (send_sock E k p)"
  proof (rule simsI)
    fix s t assume "alike W fd k s t"
    from couples_send [OF assms this, of "packet_bytes p"]
    show "case send_fd E fd p s of None \<Rightarrow> send_sock E k p t = None
      | Some (r, s') \<Rightarrow> \<exists>t'. send_sock E k p t = Some (r, t') \<and> alike W fd k s' t'"
      by (auto simp: send_fd_def send_sock_def bnd_def)
  qed
  show "sims (alike W fd k) (send_bytes_fd E fd bs) (send_bytes_sock E k bs)"
  proof (rule simsI)
    fix s t assume "alike W fd k s t"
    from couples_send [OF assms this, of bs]
    show "case send_bytes_fd E fd bs s of None \<Rightarrow> send_bytes_sock E k bs t = None
      | Some (r, s') \<Rightarrow> \<exists>t'. send_bytes_sock E k bs t = Some (r, t') \<and> alike W fd k s' t'"
      by (auto simp: send_bytes_fd_def send_bytes_sock_def bnd_def)
  qed
qed

text \<open>The tables.\<close>

lemma sims_tables:
  "sims (alike W fd k) (live_add u x) (live_add u x)" "sims (alike W fd k) (live_remove u) (live_remove u)"
  "sims (alike W fd k) getLiveList getLiveList"
  by (auto intro!: simsI simp: live_add_def live_remove_def getLiveList_def alike_def)

lemma sims_connection:
  "sims (alike W fd k) (set_0_fd fd) (set_0_sock k)" "sims (alike W fd k) (add_userId_fd fd u) (add_userId_sock k u)"
proof -
  have entry: "case m_map s fd of None \<Rightarrow> m_map_boost t k = None
      | Some i \<Rightarrow> \<exists>j. m_map_boost t k = Some j \<and> userId j = userId i \<and> num j = num i"
    if "alike W fd k s t" for s t
    using that by (cases "m_map s fd"; cases "m_map_boost t k") (auto simp: alike_def same_client_def)
  show "sims (alike W fd k) (set_0_fd fd) (set_0_sock k)"
  proof (rule simsI)
    fix s t assume "alike W fd k s t"
    then show "case set_0_fd fd s of None \<Rightarrow> set_0_sock k t = None
      | Some (r, s') \<Rightarrow> \<exists>t'. set_0_sock k t = Some (r, t') \<and> alike W fd k s' t'"
      using entry [of s t] by (cases "m_map s fd") (auto simp: table_op_defs bnd_def alike_def same_client_def)
  qed
  show "sims (alike W fd k) (add_userId_fd fd u) (add_userId_sock k u)"
  proof (rule simsI)
    fix s t assume "alike W fd k s t"
    then show "case add_userId_fd fd u s of None \<Rightarrow> add_userId_sock k u t = None
      | Some (r, s') \<Rightarrow> \<exists>t'. add_userId_sock k u t = Some (r, t') \<and> alike W fd k s' t'"
      using entry [of s t] by (cases "m_map s fd") (auto simp: table_op_defs bnd_def alike_def same_client_def)
  qed
qed

section \<open>The handlers\<close>

lemma sims_steps:
  "sims R (field j key) (field j key)" "sims R (cell row i) (cell row i)" "sims R (filetype_is j ft) (filetype_is j ft)"
  "sims R (first_cell res i) (first_cell res i)"
  by (auto simp: field_def cell_def filetype_is_def first_cell_def intro!: sims_rules)

lemma sims_reply: "(\<And>p. sims R (m p) (n p)) \<Longrightarrow> sims R (reply m p) (reply n p)"
  by (auto simp: reply_def intro!: sims_rules)

lemma sims_run_sql: "couples E fd k W \<Longrightarrow> sims (alike W fd k) (run_sql E c) (run_sql E c)"
  by (auto simp: run_sql_def intro!: sims_rules sims_queries)

lemmas sims_all = sims_rules sims_steps sims_queries sims_run_sql sims_reply sims_send sims_tables sims_connection sims_next_id

lemma sims_credentials:
  assumes "couples E fd k W"
  shows "sims (alike W fd k) (do_register E buf) (do_register E buf)"
    and "sims (alike W fd k) (do_login_fd E fd buf) (do_login_sock E k buf)"
  unfolding do_register_def do_login_fd_def do_login_sock_def login_with_def
  by (intro sims_all assms)+

lemma sims_modify:
  assumes "couples E fd k W"
  shows "sims (alike W fd k) (modify_info_fd E fd buf) (modify_info_sock E k buf)"
proof -
  have "sims (alike W fd k) (modify_case E (send_fd E fd) j x) (modify_case E (send_sock E k) j x)" for j x
    unfolding modify_case_def modify_Comment_def modify_Video_def modify_VideoLike_def modify_CommentLike_def
      modify_Follow_def toggle_def modify_LiveList_def modify_NickName_def modify_VideoProfile_def
    by (auto intro!: sims_all assms split: option.split InfoType.split)
  then show ?thesis unfolding modify_info_fd_def modify_info_sock_def modify_with_def by (intro sims_all)
qed

lemma sims_packet_file:
  assumes "couples E fd k W"
  shows "sims (alike W fd k) (send_packet_file E (send_bytes_fd E fd) j p) (send_packet_file E (send_bytes_sock E k) j p)"
proof -
  have look: "file_stat E p v = file_stat E p w" "file_is_open E p v = file_is_open E p w"
    "file_read E p n v = file_read E p n w" "fresh_heap E n v = fresh_heap E n w" if "W v w" for p n v w
    using assms that by (auto simp: couples_def)
  have w: "W (world s) (world t)" if "alike W fd k s t" for s t
    using that by (simp add: alike_def)
  show ?thesis unfolding send_packet_file_def getFileSize_def Let_def
    by (auto intro!: sims_rules sims_get_st sims_send assms simp: look [OF w] split: prod.split)
qed

lemma sims_download:
  assumes "couples E fd k W"
  shows "sims (alike W fd k) (send_file_fd E fd buf) (send_file_sock E k buf)"
  unfolding send_file_fd_def send_file_sock_def send_file_with_def send_ProfilePicture_def send_Video_def send_ChatImg_def
    send_VideoPreviewImg_def send_pfile_fd_def send_pfile_sock_def send_vfile_fd_def send_vfile_sock_def
  by (intro sims_all sims_packet_file assms)

lemma sims_answer:
  assumes "couples E fd k W" and "\<And>rows. sims (alike W fd k) (render rows) (render rows)"
  shows "sims (alike W fd k) (answer E (send_fd E fd) c render p) (answer E (send_sock E k) c render p)"
  unfolding answer_def by (intro sims_all assms)

lemma sims_render:
  "(\<And>row. sims R (f row) (f row)) \<Longrightarrow> sims R (all_rows f rows) (all_rows f rows)"
  "(\<And>row. sims R (f row) (f row)) \<Longrightarrow> sims R (first_row f rows) (first_row f rows)"
  by (auto simp: all_rows_def first_row_def intro!: sims_rules)

lemma sims_push_videos:
  assumes "couples E fd k W"
  shows "sims (alike W fd k) (push_videos E v rows) (push_videos E v rows)"
  by (induction rows arbitrary: v) (auto simp: set_publisher_def intro!: sims_all assms)

text \<open>
  The information requests print the same, but for the list of videos, where the epoll server
  gives the public address of the video host and the Boost server the local one.
\<close>

definition same_info :: "string \<Rightarrow> bool" where
  "same_info buf \<longleftrightarrow> (\<forall>j i. json_parse buf = Inr j \<longrightarrow> enum_field j ''infotype'' = Inr i \<longrightarrow> infotype_of i \<noteq> Some InfoType.VodList)"

lemma sims_rows:
  "sims R (row_Comment row) (row_Comment row)" "sims R (row_VideoLike E row) (row_VideoLike E row)"
  "sims R (row_Follow row) (row_Follow row)" "sims R (row_Fans row) (row_Fans row)"
  "sims R (row_NickName uid row) (row_NickName uid row)" "sims R (row_UserVideo row) (row_UserVideo row)"
  "sims R (row_Message row) (row_Message row)"
  unfolding row_Comment_def row_VideoLike_def row_Follow_def row_Fans_def row_NickName_def row_UserVideo_def row_Message_def
  by (intro sims_rules sims_steps)+

lemma sims_info_case:
  assumes "couples E fd k W" and "x \<noteq> Some InfoType.VodList"
  shows "sims (alike W fd k) (info_case E (send_fd E fd) h1 j x) (info_case E (send_sock E k) h2 j x)"
proof -
  note go = sims_all sims_rows sims_answer sims_render sims_push_videos assms(1)
  show ?thesis unfolding info_case_def using assms(2)
    by (auto simp: info_Comment_def info_VideoLike_def info_Follow_def info_Fans_def info_LiveList_def
        info_NickName_def info_UserVideo_def info_UserVideoLike_def info_Message_def info_VideoPush_def
        intro!: go split: option.split InfoType.split)
qed

lemma sims_lift_bnd:
  "(\<And>a. x = Inr a \<Longrightarrow> sims R (f a) (g a)) \<Longrightarrow> sims R (bnd (lift_sum x) f) (bnd (lift_sum x) g)"
  by (cases x) (simp_all add: sims_throw)

lemma sims_info:
  assumes "couples E fd k W" and "same_info buf"
  shows "sims (alike W fd k) (send_info_fd E fd buf) (send_info_sock E k buf)"
  unfolding send_info_fd_def send_info_sock_def send_info_with_def
  using assms by (intro sims_lift_bnd sims_info_case) (auto simp: same_info_def)

text \<open>
  The uploads do the same, but for a profile picture, whose update command quotes the id only on the epoll
  server.
\<close>

definition same_upload :: "string \<Rightarrow> bool" where
  "same_upload buf \<longleftrightarrow> (\<forall>j v. json_parse buf = Inr j \<longrightarrow> json_index j ''filetype'' = Inr v
     \<longrightarrow> \<not> json_eq_enum v (filetype_int FileType.ProfilePicture))"

lemma sims_write:
  assumes "couples E fd k W"
  shows "sims (alike W fd k) (write_file E p bs) (write_file E p bs)"
proof (rule simsI)
  fix s t assume a: "alike W fd k s t"
  then have "W (file_write E p bs (world s)) (file_write E p bs (world t))"
    using assms by (simp add: couples_def alike_def)
  then show "case write_file E p bs s of None \<Rightarrow> write_file E p bs t = None
      | Some (r, s') \<Rightarrow> \<exists>t'. write_file E p bs t = Some (r, t') \<and> alike W fd k s' t'"
    using alike_log [OF a, of _ _ "Write_file p bs" "Write_file p bs"] by (simp add: write_file_def)
qed

lemma sims_upload:
  assumes "couples E fd k W" and "same_upload buf"
  shows "sims (alike W fd k) (receive_file_fd E fd buf bs) (receive_file_sock E k buf bs)"
proof -
  have case_same: "sims (alike W fd k) (receive_case E (send_fd E fd) sql_picture_fd j) (receive_case E (send_sock E k) sql_picture_sock j)"
    if j: "json_parse buf = Inr j" for j
  proof (cases "json_index j ''filetype''")
    case (Inl e)
    then show ?thesis by (simp add: receive_case_def filetype_is_def sims_throw)
  next
    case (Inr v)
    then have first: "filetype_is j FileType.ProfilePicture = ret False"
      using assms(2) j unfolding filetype_is_def same_upload_def by (simp add: bnd_ret del: ret_app)
    show ?thesis unfolding receive_case_def first bnd_ret if_False receive_ChatImg_def receive_VideoPreviewImg_def receive_Video_def
      by (intro sims_all assms)
  qed
  have push: "sims (alike W fd k) (push_video E j vid) (push_video E j vid)" for j vid
    unfolding push_video_def by (intro sims_all assms)
  show ?thesis unfolding receive_file_fd_def receive_file_sock_def receive_with_def
    by (rule sims_lift_bnd) (intro sims_all sims_write case_same push assms)
qed

lemma sims_chat:
  assumes "couples E fd k W"
  shows "sims (alike W fd k) (chat E j) (chat E j)"
  unfolding chat_def by (intro sims_all assms)

section \<open>A request and its body\<close>

text \<open>The body, announced with its true size and small enough for the array, comes in completely on both connections.\<close>

definition arrives :: "'w ext \<Rightarrow> int \<Rightarrow> nat \<Rightarrow> ('w \<Rightarrow> 'w \<Rightarrow> bool) \<Rightarrow> 32 word \<Rightarrow> string \<Rightarrow> 'w \<Rightarrow> 'w \<Rightarrow> bool" where
  "arrives E fd k W len body v w \<longleftrightarrow> len = word_of_nat (length body) \<and> 0 < length body \<and> length body < BUF_SIZE
     \<and> (\<exists>v' w'. my_recv_loop E fd False (length body) [] v = Some (True, body, v')
          \<and> asio_read E k (length body) w = (Some body, w') \<and> W v' w')"

lemma arrives_bodies:
  assumes "arrives E fd k W len body (world s) (world t)" and "alike W fd k s t"
  shows "\<exists>s' t'. recv_body E fd len s = Some (Inr (Some body), s') \<and> read_body E k len t = Some (Inr (Some body), t')
    \<and> alike W fd k s' t'"
proof -
  obtain v w where len: "len = word_of_nat (length body)" and n: "0 < length body" "length body < BUF_SIZE"
    and v: "my_recv_loop E fd False (length body) [] (world s) = Some (True, body, v)"
    and w: "asio_read E k (length body) (world t) = (Some body, w)" and W: "W v w"
    using assms(1) by (auto simp: arrives_def)
  have u: "unat len = length body" unfolding len by (rule BUF_SIZE_word [OF n(2)])
  have sint: "sint len = int (length body)"
    using n(2) unfolding len by (simp add: signed_of_nat signed_take_bit_int_eq_self BUF_SIZE_def)
  have ok: "recv_ok len (int (length body))" using recv_ok_sint [of len] n(1) sint by simp
  have ok2: "read_ok len body" unfolding len by (rule read_ok_whole [OF n])
  show ?thesis
  proof (intro exI conjI)
    show "recv_body E fd len s = Some (Inr (Some body), s\<lparr>world := v\<rparr>)"
      using v n ok by (simp add: recv_body_def my_recv_def bnd_def sint)
    show "read_body E k len t = Some (Inr (Some body), t\<lparr>world := w\<rparr>)"
      using w n u ok2 by (simp add: read_body_def boost_read_def bnd_def)
    show "alike W fd k (s\<lparr>world := v\<rparr>) (t\<lparr>world := w\<rparr>)" using assms(2) W by (simp add: alike_def)
  qed
qed

definition follows :: "('s \<Rightarrow> 't \<Rightarrow> bool) \<Rightarrow> ('e, 's, 'a) prog \<Rightarrow> ('e, 't, 'a) prog \<Rightarrow> 's \<Rightarrow> 't \<Rightarrow> bool" where
  "follows R m n s t \<longleftrightarrow> (case m s of None \<Rightarrow> n t = None | Some (r, s') \<Rightarrow> \<exists>t'. n t = Some (r, t') \<and> R s' t')"

lemma follows_sims: "sims R m n \<Longrightarrow> R s t \<Longrightarrow> follows R m n s t"
  by (simp add: sims_def follows_def)

lemma follows_eq:
  assumes "m s = m' s'" and "n t = n' t'" and "sims R m' n'" and "R s' t'"
  shows "follows R m n s t"
  using follows_sims [OF assms(3,4)] unfolding follows_def assms(1,2) .

lemma follows_bodies:
  assumes "arrives E fd k W len body (world s) (world t)" and "alike W fd k s t"
    and "\<And>x. sims (alike W fd k) (f x) (g x)"
  shows "follows (alike W fd k) (bnd (recv_body E fd len) f) (bnd (read_body E k len) g) s t"
proof -
  obtain s1 t1 where b: "recv_body E fd len s = Some (Inr (Some body), s1)"
    "read_body E k len t = Some (Inr (Some body), t1)" "alike W fd k s1 t1"
    using arrives_bodies [OF assms(1,2)] by blast
  have "bnd (recv_body E fd len) f s = f (Some body) s1" "bnd (read_body E k len) g t = g (Some body) t1"
    using b(1,2) by (simp_all add: bnd_def)
  then show ?thesis by (rule follows_eq [OF _ _ assms(3) b(3)])
qed

lemma follows_with:
  assumes "arrives E fd k W len body (world s) (world t)" and "alike W fd k s t"
    and "\<And>x. buf_string body = Inr x \<Longrightarrow> sims (alike W fd k) (f x) (g x)"
  shows "follows (alike W fd k) (with_recv E fd len f) (with_body E k len g) s t"
proof -
  obtain s1 t1 where b: "recv_body E fd len s = Some (Inr (Some body), s1)"
    "read_body E k len t = Some (Inr (Some body), t1)" "alike W fd k s1 t1"
    using arrives_bodies [OF assms(1,2)] by blast
  have "with_recv E fd len f s = bnd (lift_sum (buf_string body)) f s1"
    "with_body E k len g t = bnd (lift_sum (buf_string body)) g t1"
    using b(1,2) by (simp_all add: with_recv_def with_body_def bnd_def)
  then show ?thesis by (rule follows_eq [OF _ _ sims_lift_bnd [OF assms(3)] b(3)])
qed

text \<open>
  An upload: a block of \<open>BUF_SIZE\<close> bytes with the description in front, and a file whose size, which is
  announced, is positive as a signed number.
\<close>

definition arrives_upload :: "'w ext \<Rightarrow> int \<Rightarrow> nat \<Rightarrow> ('w \<Rightarrow> 'w \<Rightarrow> bool) \<Rightarrow> 32 word \<Rightarrow> string \<Rightarrow> string \<Rightarrow> 'w \<Rightarrow> 'w \<Rightarrow> bool" where
  "arrives_upload E fd k W len info file v w \<longleftrightarrow> length info = BUF_SIZE
     \<and> len = word_of_nat (length file) \<and> 0 < length file \<and> length file < 2 ^ 31
     \<and> (\<exists>v1 w1 v2 w2. my_recv_loop E fd False BUF_SIZE [] v = Some (True, info, v1)
          \<and> asio_read E k BUF_SIZE w = (Some info, w1)
          \<and> my_recv_loop E fd False (length file) [] v1 = Some (True, file, v2)
          \<and> asio_read E k (length file) w1 = (Some file, w2) \<and> W v2 w2)"

lemma upload_size:
  assumes "0 < n" and "n < 2 ^ 31"
  shows "unat (word_of_nat n :: 32 word) = n" and "sint (word_of_nat n :: 32 word) = int n"
    and "recv_ok (word_of_nat n) (int n)" and "length bs = n \<Longrightarrow> read_ok (word_of_nat n) bs"
    and "\<not> unat ((word_of_nat n :: 32 word) + 1) < n"
proof -
  let ?n = "word_of_nat n :: 32 word"
  show u: "unat ?n = n" using assms(2) by (simp add: unat_of_nat take_bit_nat_eq_self)
  show s: "sint ?n = int n" using assms(2) by (simp add: signed_of_nat signed_take_bit_int_eq_self)
  show "recv_ok ?n (int n)" using recv_ok_sint [of ?n] s assms(1) by simp
  have "?n \<noteq> 0" "?n \<noteq> - 1" using s assms(1) by fastforce+
  then show "length bs = n \<Longrightarrow> read_ok ?n bs" by (simp add: read_ok_def Let_def)
  show "\<not> unat (?n + 1) < n" using u \<open>?n \<noteq> - 1\<close> assms(2) by (simp add: unat_word_ariths)
qed

lemma follows_upload:
  assumes "couples E fd k W" and "same_upload (c_str info)"
    and a: "arrives_upload E fd k W len info file (world s) (world t)" and al: "alike W fd k s t"
  shows "follows (alike W fd k) (request_SendFile E fd len) (session_SendFile E k len) s t"
proof -
  obtain v1 w1 v2 w2 where len: "length info = BUF_SIZE" "len = word_of_nat (length file)"
    and n: "0 < length file" "length file < 2 ^ 31"
    and in1: "my_recv_loop E fd False BUF_SIZE [] (world s) = Some (True, info, v1)" "asio_read E k BUF_SIZE (world t) = (Some info, w1)"
    and in2: "my_recv_loop E fd False (length file) [] v1 = Some (True, file, v2)" "asio_read E k (length file) w1 = (Some file, w2)"
    and W: "W v2 w2" using a unfolding arrives_upload_def by blast
  note size = upload_size [OF n, folded len(2)]
  have full: "read_ok (word_of_nat BUF_SIZE) info" by (rule upload_size(4)) (simp_all add: len(1) BUF_SIZE_def)
  let ?f = "if NUL \<notin> set info then throw (UB Missing_terminator) else bnd (receive_file_fd E fd (c_str info) file) (\<lambda>_. ret ())"
  let ?g = "bnd (lift_sum (buf_string info)) (\<lambda>fileInfo. bnd (receive_file_sock E k fileInfo file) (\<lambda>_. ret ()))"
  show ?thesis
  proof (rule follows_eq)
    show "request_SendFile E fd len s = ?f (s\<lparr>world := v2\<rparr>)"
      using in1(1) in2(1) size(2,3) len(1) by (simp add: request_SendFile_def my_recv_def bnd_def)
    show "session_SendFile E k len t = ?g (t\<lparr>world := w2\<rparr>)"
      using in1(2) in2(2) size(1,4,5) full by (simp add: session_SendFile_def boost_read_def bnd_def)
    show "alike W fd k (s\<lparr>world := v2\<rparr>) (t\<lparr>world := w2\<rparr>)" using al W by (simp add: alike_def)
    have "m_buf info = info" using len(1) by (simp add: m_buf_def)
    then show "sims (alike W fd k) ?f ?g"
      by (simp add: buf_string_def sims_throw) (intro impI sims_rules sims_upload [OF assms(1,2)])
  qed
qed

section \<open>Properties\<close>

text \<open>
  C7: The two servers do the same.  For a descriptor and a socket that behave alike and have the
  same entry in their tables, any request whose body (for an upload: description and file) comes in completely
  on both runs on the epoll server exactly when it runs on the Boost server, with the same result or
  exception, the same SQL commands, file accesses and packets in the same order, and the same
  effect on the live streams, the ids drawn and the client's entry.  Only the list of videos is
  excepted, which names a different host, and the upload of a profile picture, whose command differs.
\<close>

theorem servers_agree:
  assumes "couples E fd k W" and "alike W fd k s t"
    and "purpose_of (purpose h) \<notin> {None, Some Heart, Some SendFile} \<longrightarrow> arrives E fd k W (data_size h) body (world s) (world t)"
    and "purpose_of (purpose h) = Some SendFile \<longrightarrow> arrives_upload E fd k W (data_size h) info file (world s) (world t)
      \<and> same_upload (c_str info)"
    and "purpose_of (purpose h) = Some GetInfo \<longrightarrow> same_info (c_str (m_buf body))"
  shows "case processSingleRequest E fd h s of
      None \<Rightarrow> session_request E k h t = None
    | Some (r, s') \<Rightarrow> \<exists>t'. session_request E k h t = Some (r, t') \<and> alike W fd k s' t'"
proof (cases "purpose_of (purpose h) \<in> {None, Some Heart}")
  case True
  have "sims (alike W fd k) (processSingleRequest E fd h) (session_request E k h)"
    using True by (auto simp: processSingleRequest_def session_request_def intro: sims_ret sims_connection)
  with assms(2) show ?thesis by (simp add: sims_def)
next
  case False
  then obtain p where p: "purpose_of (purpose h) = Some p" "p \<noteq> Heart" by auto
  have "follows (alike W fd k) (processSingleRequest E fd h) (session_request E k h) s t"
  proof (cases "p = SendFile")
    case True
    with p assms(4) have "arrives_upload E fd k W (data_size h) info file (world s) (world t)" "same_upload (c_str info)"
      by simp_all
    from follows_upload [OF assms(1) this(2,1) assms(2)] show ?thesis
      using p True by (simp add: processSingleRequest_def session_request_def Let_def)
  next
    case other: False
    with p assms(3) have a: "arrives E fd k W (data_size h) body (world s) (world t)" by simp
    note go = follows_bodies [OF a assms(2)] follows_with [OF a assms(2)] sims_case_option sims_lift_sum sims_ret sims_bnd
      sims_reply sims_send [OF assms(1)] sims_credentials [OF assms(1)] sims_modify [OF assms(1)] sims_download [OF assms(1)]
      sims_chat [OF assms(1)]
    show ?thesis
      using p(2) other assms(5) unfolding processSingleRequest_def session_request_def Let_def p(1) request_Register_def
        request_Login_def request_Chat_def session_Register_def session_Login_def session_Chat_def
      by (cases p) (auto intro!: go sims_info [OF assms(1)] simp: buf_string_def p(1) split: if_splits)
  qed
  then show ?thesis by (simp add: follows_def)
qed

text \<open>The exception: the ids of the two commands are quoted differently.\<close>

lemma picture_commands_differ: "sql_picture_fd suffix uid \<noteq> sql_picture_sock suffix uid"
  by (simp add: sql_picture_fd_def sql_picture_sock_def quoted_def)

lemma sample_couples: "couples sample_ext fd k (=)"
proof -
  have "my_send_loop sample_ext fd bs [] w = Some (True, bs, w)" for bs w
    by (cases "bs = []") (simp_all add: my_send_loop.simps sample_ext_def)
  then show ?thesis by (auto simp: couples_def agree_def sample_ext_def)
qed

lemma sample_arrives:
  assumes "0 < length body" and "length body < BUF_SIZE"
  shows "arrives sample_ext fd k (=) (word_of_nat (length body)) body (w\<lparr>inbox := body\<rparr>) (w\<lparr>inbox := body\<rparr>)"
  using assms unfolding arrives_def by (simp add: my_recv_loop.simps sample_ext_def)

theorem servers_agree_witness:
  "\<exists>s t h r s' t'. processSingleRequest sample_ext 4 h s = Some (r, s') \<and> session_request sample_ext 1 h t = Some (r, t')
    \<and> m_map s 4 \<noteq> None \<and> alike (=) 4 1 s' t' \<and> Execute (sql_add_user ''7'' ''x'') \<in> set (calls t')"
proof -
  obtain body where body: "dump (login_request ''7'' ''x'') = Inr body" "0 < length body" "length body < BUF_SIZE"
    using login_request_example by blast
  let ?h = "\<lparr>purpose = word_of_nat (purpose_int Register), data_size = word_of_nat (length body)\<rparr> :: NetPacketHeader"
  let ?s = "sample_server\<lparr>world := sample_world\<lparr>inbox := body\<rparr>, m_map := [4 \<mapsto> fresh_info ''a'']\<rparr>"
  let ?t = "sample_server\<lparr>world := sample_world\<lparr>inbox := body\<rparr>, m_map_boost := [1 \<mapsto> fresh_info []]\<rparr>"
  have p: "purpose_of (purpose ?h) = Some Register" using purpose_of_int [of Register] by simp
  have al: "alike (=) 4 1 ?s ?t" by (simp add: alike_def same_client_def fresh_info_def sample_server_def)
  have "\<exists>np. register_P True = Inr np"
    by (simp add: register_P_def make_packet_def json_object_def strcpy_data_def BUF_SIZE_def dump_eval)
  then obtain np where np: "register_P True = Inr np" by blast
  let ?u = "?t\<lparr>world := sample_world, calls := [Store (sql_find_user ''7''), Execute (sql_add_user ''7'' ''x'')]\<rparr>"
  have "do_register sample_ext body (?t\<lparr>world := sample_world\<rparr>) = Some (Inr True, ?u)"
    using credentials_request [OF body(1)]
    by (simp add: do_register_eq query_store_def query_execute_def log_call_def bnd_def sample_ext_def sample_world_def sample_server_def)
  moreover have "reply (send_sock sample_ext 1) (register_P True) ?u = Some (Inr (), ?u\<lparr>calls := calls ?u @ [Sent (Sock 1) (packet_bytes np)]\<rparr>)"
    using reply_sock_app [OF np, of sample_ext 1 ?u] by (simp add: sample_ext_def)
  moreover have "session_request sample_ext 1 ?h ?t = bnd (do_register sample_ext body)
      (\<lambda>success. reply (send_sock sample_ext 1) (register_P success)) (?t\<lparr>world := sample_world\<rparr>)"
    using with_body_app [of sample_ext 1 body ?t sample_world] body(2,3) dump_no_nul [OF body(1)] p
    by (simp add: session_request_def session_Register_def sample_ext_def sample_world_def)
  ultimately have sock: "\<exists>t'. session_request sample_ext 1 ?h ?t = Some (Inr (), t') \<and> Execute (sql_add_user ''7'' ''x'') \<in> set (calls t')"
    by (simp add: bnd_def)
  have arr: "arrives sample_ext 4 1 (=) (data_size ?h) body (world ?s) (world ?t)"
    using sample_arrives [OF body(2,3), of 4 1 sample_world] by simp
  have run: "case processSingleRequest sample_ext 4 ?h ?s of None \<Rightarrow> session_request sample_ext 1 ?h ?t = None
    | Some (r, s') \<Rightarrow> \<exists>t'. session_request sample_ext 1 ?h ?t = Some (r, t') \<and> alike (=) 4 1 s' t'"
    by (rule servers_agree [OF sample_couples al]) (use p arr in simp_all)
  show ?thesis
  proof (cases "processSingleRequest sample_ext 4 ?h ?s")
    case None
    then show ?thesis using run sock by simp
  next
    case (Some x)
    obtain r s' where x: "x = (r, s')" by (cases x)
    have "\<exists>t'. session_request sample_ext 1 ?h ?t = Some (r, t') \<and> alike (=) 4 1 s' t'"
      using run unfolding Some x option.case prod.case .
    with sock have "\<exists>t'. session_request sample_ext 1 ?h ?t = Some (r, t') \<and> alike (=) 4 1 s' t'
        \<and> Execute (sql_add_user ''7'' ''x'') \<in> set (calls t')" by (metis option.inject prod.inject)
    moreover have "m_map ?s 4 \<noteq> None" by simp
    ultimately show ?thesis using Some unfolding x by blast
  qed
qed

end
