(* ===== verification/ThreadPool.thy ===== *)
theory ThreadPool
  imports Config
begin

text \<open>
  \<^verbatim>\<open>threadpool.cpp\<close>.  Every access to the pool's members is under \<open>poll_mutex\<close>, so a step of the
  model is one critical section: from taking the lock to releasing it, by unlocking or by
  \<^verbatim>\<open>wait\<close>.  A worker is at one of the places where it does not hold the lock; a slot of
  \<open>worker_threads\<close> without a thread is \<^term>\<open>None\<close> (\<^verbatim>\<open>get_id() == thread::id()\<close>).
\<close>

section \<open>State\<close>

text \<open>
  Before locking at the top of the loop, asleep in \<^verbatim>\<open>wait\<close>, woken but without the lock, running a
  task, returned.
\<close>

datatype 't thread_place = At_top | Waiting | Notified | Busy 't | Returned

text \<open>The destructor: not started, waiting for the manager, waiting for the workers.\<close>

datatype destructor_place = Not_called | Joining_manager | Joining_workers

record 't pool =
  taskQ :: "'t list"
  worker_threads :: "'t thread_place option list"
  min_num :: int
  max_num :: int
  live_num :: int
  busy_num :: int
  destroy_num :: int
  shutdown :: bool
  manager_alive :: bool
  destructor :: destructor_place

section \<open>The operations\<close>

text \<open>
  The constructor, for a machine with \<open>cores\<close> cores: the vector has a slot per core, and the
  first \<open>MIN_THREAD_NUMBER\<close> slots are filled whether they exist or not.
\<close>

definition new_pool :: "nat \<Rightarrow> exn + 't pool" where
  "new_pool cores =
     (if cores < MIN_THREAD_NUMBER then Inl (UB Heap_overflow)
      else Inr \<lparr>taskQ = [],
        worker_threads = replicate MIN_THREAD_NUMBER (Some At_top) @ replicate (cores - MIN_THREAD_NUMBER) None,
        min_num = int MIN_THREAD_NUMBER, max_num = int cores, live_num = int MIN_THREAD_NUMBER,
        busy_num = 0, destroy_num = 0, shutdown = False, manager_alive = True, destructor = Not_called\<rparr>)"

definition thread_at :: "'t pool \<Rightarrow> nat \<Rightarrow> 't thread_place option" where
  "thread_at p i = (if i < length (worker_threads p) then worker_threads p ! i else None)"

definition set_thread :: "nat \<Rightarrow> 't thread_place option \<Rightarrow> 't pool \<Rightarrow> 't pool" where
  "set_thread i t p = p\<lparr>worker_threads := (worker_threads p)[i := t]\<rparr>"

fun wake :: "'t thread_place \<Rightarrow> 't thread_place" where
  "wake Waiting = Notified"
| "wake t = t"

definition notify_all :: "'t pool \<Rightarrow> 't pool" where
  "notify_all p = p\<lparr>worker_threads := map (map_option wake) (worker_threads p)\<rparr>"

text \<open>\<^verbatim>\<open>notify_one\<close> wakes some waiting thread, if there is one.\<close>

definition notify_one :: "nat option \<Rightarrow> 't pool \<Rightarrow> 't pool" where
  "notify_one choice p = (case choice of None \<Rightarrow> p | Some i \<Rightarrow> set_thread i (Some Notified) p)"

definition may_notify :: "nat option \<Rightarrow> 't pool \<Rightarrow> bool" where
  "may_notify choice p \<longleftrightarrow> (case choice of
     None \<Rightarrow> (\<forall>t \<in> set (worker_threads p). t \<noteq> Some Waiting)
   | Some i \<Rightarrow> thread_at p i = Some Waiting)"

definition add_task :: "'t \<Rightarrow> nat option \<Rightarrow> 't pool \<Rightarrow> 't pool" where
  "add_task t choice p = (if shutdown p then p else notify_one choice (p\<lparr>taskQ := taskQ p @ [t]\<rparr>))"

text \<open>The overload of \<^verbatim>\<open>threadpool.h\<close> that binds its arguments wakes everybody.\<close>

definition add_bound_task :: "'t \<Rightarrow> 't pool \<Rightarrow> 't pool" where
  "add_bound_task t p = (if shutdown p then p else notify_all (p\<lparr>taskQ := taskQ p @ [t]\<rparr>))"

text \<open>
  \<^verbatim>\<open>worker_execute\<close> with the lock held at the head of the inner loop: sleep, return, or take a task
  and release the lock.
\<close>

definition loop_head :: "nat \<Rightarrow> 't pool \<Rightarrow> 't pool" where
  "loop_head i p =
     (if taskQ p = [] \<and> \<not> shutdown p then set_thread i (Some Waiting) p
      else if shutdown p then set_thread i (Some Returned) p
      else set_thread i (Some (Busy (hd (taskQ p)))) (p\<lparr>taskQ := tl (taskQ p), busy_num := busy_num p + 1\<rparr>))"

text \<open>\<^verbatim>\<open>detach_cur_thread\<close>: the slot is free again.\<close>

definition detach_cur_thread :: "nat \<Rightarrow> 't pool \<Rightarrow> 't pool" where
  "detach_cur_thread i p = set_thread i None p"

text \<open>After \<^verbatim>\<open>wait\<close> returned, with the lock held again.\<close>

definition woken :: "nat \<Rightarrow> 't pool \<Rightarrow> 't pool" where
  "woken i p =
     (if 0 < destroy_num p
      then let p = p\<lparr>destroy_num := destroy_num p - 1\<rparr> in
        if min_num p < live_num p
        then detach_cur_thread i (p\<lparr>live_num := live_num p - 1\<rparr>)
        else loop_head i p
      else loop_head i p)"

definition task_done :: "nat \<Rightarrow> 't pool \<Rightarrow> 't pool" where
  "task_done i p = set_thread i (Some At_top) (p\<lparr>busy_num := busy_num p - 1\<rparr>)"

text \<open>The loop of the manager that adds threads: new slots, threads added, threads alive.\<close>

fun add_threads :: "nat \<Rightarrow> int \<Rightarrow> int \<Rightarrow> 't thread_place option list \<Rightarrow> 't thread_place option list \<times> int" where
  "add_threads cnt live mx [] = ([], live)"
| "add_threads cnt live mx (t # ts) =
     (if cnt < CHANGE_THREAD_NUMBER \<and> live < mx then (case t of
        None \<Rightarrow> (case add_threads (cnt + 1) (live + 1) mx ts of (ts', live') \<Rightarrow> (Some At_top # ts', live'))
      | Some _ \<Rightarrow> (case add_threads cnt live mx ts of (ts', live') \<Rightarrow> (t # ts', live')))
      else (t # ts, live))"

definition grow :: "'t pool \<Rightarrow> 't pool" where
  "grow p =
     (if live_num p < int (length (taskQ p)) \<and> live_num p < max_num p
      then case add_threads 0 (live_num p) (max_num p) (worker_threads p) of
        (ts, live) \<Rightarrow> p\<lparr>worker_threads := ts, live_num := live\<rparr>
      else p)"

definition shrink :: "'t pool \<Rightarrow> 't pool" where
  "shrink p =
     (if busy_num p * 2 < live_num p \<and> min_num p < live_num p
      then notify_all (p\<lparr>destroy_num := int CHANGE_THREAD_NUMBER\<rparr>)
      else p)"

text \<open>One round of \<^verbatim>\<open>manager_execute\<close>.\<close>

definition manage :: "'t pool \<Rightarrow> 't pool" where
  "manage p = (if shutdown p then p\<lparr>manager_alive := False\<rparr> else shrink (grow p))"

text \<open>The destructor up to joining the manager, and from there to joining the workers.\<close>

definition begin_shutdown :: "'t pool \<Rightarrow> 't pool" where
  "begin_shutdown p = p\<lparr>shutdown := True, destroy_num := 0, destructor := Joining_manager\<rparr>"

definition wake_for_shutdown :: "'t pool \<Rightarrow> 't pool" where
  "wake_for_shutdown p = notify_all (p\<lparr>destructor := Joining_workers\<rparr>)"

section \<open>Steps\<close>

datatype 't action = Add 't "nat option" | Add_bound 't | Enter nat | Spurious nat | Resume nat | Finish nat
  | Manage | Shut | Notify_workers

definition act :: "'t action \<Rightarrow> 't pool \<Rightarrow> 't pool option" where
  "act a p = (case a of
     Add t choice \<Rightarrow> if may_notify choice p then Some (add_task t choice p) else None
   | Add_bound t \<Rightarrow> Some (add_bound_task t p)
   | Enter i \<Rightarrow> if thread_at p i = Some At_top then Some (loop_head i p) else None
   | Spurious i \<Rightarrow> if thread_at p i = Some Waiting then Some (set_thread i (Some Notified) p) else None
   | Resume i \<Rightarrow> if thread_at p i = Some Notified then Some (woken i p) else None
   | Finish i \<Rightarrow> (case thread_at p i of Some (Busy t) \<Rightarrow> Some (task_done i p) | _ \<Rightarrow> None)
   | Manage \<Rightarrow> if manager_alive p then Some (manage p) else None
   | Shut \<Rightarrow> if destructor p = Not_called then Some (begin_shutdown p) else None
   | Notify_workers \<Rightarrow> if destructor p = Joining_manager \<and> \<not> manager_alive p
       then Some (wake_for_shutdown p) else None)"

text \<open>The task a step puts into the queue, and the one it starts.\<close>

definition taken_in :: "'t action \<Rightarrow> 't pool \<Rightarrow> 't list" where
  "taken_in a p = (case a of Add t _ \<Rightarrow> if shutdown p then [] else [t]
     | Add_bound t \<Rightarrow> if shutdown p then [] else [t] | _ \<Rightarrow> [])"

definition running_at :: "'t pool \<Rightarrow> nat \<Rightarrow> 't list" where
  "running_at p i = (case thread_at p i of Some (Busy t) \<Rightarrow> [t] | _ \<Rightarrow> [])"

definition started_by :: "'t action \<Rightarrow> 't pool \<Rightarrow> 't list" where
  "started_by a q = (case a of Enter i \<Rightarrow> running_at q i | Resume i \<Rightarrow> running_at q i | _ \<Rightarrow> [])"

text \<open>An execution with the tasks taken in and the tasks started, both in order.\<close>

inductive pool_run :: "'t pool \<Rightarrow> 't list \<Rightarrow> 't list \<Rightarrow> 't pool \<Rightarrow> bool" for p where
  run_start: "pool_run p [] [] p"
| run_step: "pool_run p ins outs q \<Longrightarrow> act a q = Some r
    \<Longrightarrow> pool_run p (ins @ taken_in a q) (outs @ started_by a r) r"

text \<open>The same, computed for a given schedule.\<close>

fun run_actions :: "'t action list \<Rightarrow> 't pool \<Rightarrow> ('t list \<times> 't list \<times> 't pool) option" where
  "run_actions [] p = Some ([], [], p)"
| "run_actions (a # as) p = (case act a p of None \<Rightarrow> None
     | Some q \<Rightarrow> (case run_actions as q of None \<Rightarrow> None
       | Some (ins, outs, r) \<Rightarrow> Some (taken_in a p @ ins, started_by a q @ outs, r)))"

lemma run_actions_run:
  "run_actions as q = Some (ins', outs', r) \<Longrightarrow> pool_run p ins outs q \<Longrightarrow> pool_run p (ins @ ins') (outs @ outs') r"
proof (induction as arbitrary: q ins outs ins' outs')
  case (Cons a as)
  then obtain q' ins2 outs2 where q': "act a q = Some q'" "run_actions as q' = Some (ins2, outs2, r)"
    "ins' = taken_in a q @ ins2" "outs' = started_by a q' @ outs2"
    by (auto split: option.splits)
  from Cons.IH [OF q'(2) run_step [OF Cons.prems(2) q'(1)]] q'(3,4) show ?case by simp
qed auto

lemmas run_actionsI = run_actions_run [OF _ run_start, simplified]

section \<open>Counting threads\<close>

fun tally :: "('a \<Rightarrow> bool) \<Rightarrow> 'a list \<Rightarrow> int" where
  "tally P [] = 0"
| "tally P (x # xs) = (if P x then 1 else 0) + tally P xs"

lemma tally_update: "i < length xs \<Longrightarrow>
    tally P (xs[i := x]) = tally P xs - (if P (xs ! i) then 1 else 0) + (if P x then 1 else 0)"
proof (induction xs arbitrary: i)
  case (Cons y ys)
  then show ?case by (cases i) auto
qed simp

lemma tally_append [simp]: "tally P (xs @ ys) = tally P xs + tally P ys"
  by (induction xs) auto

lemma tally_replicate [simp]: "tally P (replicate n x) = (if P x then int n else 0)"
  by (induction n) auto

lemma tally_bounds: "0 \<le> tally P xs" "tally P xs \<le> int (length xs)"
  by (induction xs) auto

lemma tally_mono: "(\<And>x. P x \<Longrightarrow> Q x) \<Longrightarrow> tally P xs \<le> tally Q xs"
  by (induction xs) auto

lemma tally_map: "tally P (map f xs) = tally (\<lambda>x. P (f x)) xs"
  by (induction xs) auto

fun is_busy :: "'t thread_place option \<Rightarrow> bool" where
  "is_busy (Some (Busy t)) \<longleftrightarrow> True"
| "is_busy t \<longleftrightarrow> False"

definition alive :: "'t thread_place option \<Rightarrow> bool" where
  "alive t \<longleftrightarrow> t \<noteq> None"

lemma alive_simps [simp]: "alive (Some t)" "\<not> alive None"
  by (simp_all add: alive_def)

lemma wake_keeps [simp]: "is_busy (map_option wake t) = is_busy t" "alive (map_option wake t) = alive t"
  by (cases t; cases "the t"; simp)+

lemma thread_atD: "thread_at p i = Some t \<Longrightarrow> i < length (worker_threads p) \<and> worker_threads p ! i = Some t"
  by (simp add: thread_at_def split: if_splits)

lemma thread_at_set: "Some t \<in> set (worker_threads p) \<longleftrightarrow> (\<exists>i. thread_at p i = Some t)"
  by (auto simp: thread_at_def in_set_conv_nth split: if_splits)

lemma thread_at_simps [simp]:
  "thread_at (p\<lparr>taskQ := q\<rparr>) i = thread_at p i" "thread_at (p\<lparr>destroy_num := d\<rparr>) i = thread_at p i"
  "thread_at (p\<lparr>destructor := e\<rparr>) i = thread_at p i"
  by (simp_all add: thread_at_def)

lemma thread_at_set_thread [simp]: "i < length (worker_threads p) \<Longrightarrow> thread_at (set_thread i t p) i = t"
  by (simp add: thread_at_def set_thread_def)

text \<open>The counters of the pool are exact, and the number of threads stays in its bounds.\<close>

definition pool_ok :: "'t pool \<Rightarrow> bool" where
  "pool_ok p \<longleftrightarrow> live_num p = tally alive (worker_threads p) \<and> busy_num p = tally is_busy (worker_threads p)
     \<and> min_num p \<le> live_num p \<and> live_num p \<le> max_num p \<and> max_num p = int (length (worker_threads p))
     \<and> min_num p = int MIN_THREAD_NUMBER"

lemma pool_ok_new: "new_pool cores = Inr p \<Longrightarrow> pool_ok p"
  by (auto simp: new_pool_def pool_ok_def MIN_THREAD_NUMBER_def split: if_splits)

lemma pool_ok_set: "pool_ok p \<Longrightarrow> thread_at p i = Some t \<Longrightarrow> is_busy (Some t) = is_busy (Some t')
    \<Longrightarrow> pool_ok (set_thread i (Some t') p)"
  by (auto dest!: thread_atD simp: pool_ok_def set_thread_def tally_update)

lemma pool_ok_notify_all: "pool_ok p \<Longrightarrow> pool_ok (notify_all p)"
  by (simp add: pool_ok_def notify_all_def tally_map)

lemma pool_ok_other:
  "pool_ok p \<Longrightarrow> pool_ok (p\<lparr>taskQ := q\<rparr>)" "pool_ok p \<Longrightarrow> pool_ok (p\<lparr>destroy_num := d\<rparr>)"
  "pool_ok p \<Longrightarrow> pool_ok (p\<lparr>shutdown := b\<rparr>)"
  "pool_ok p \<Longrightarrow> pool_ok (p\<lparr>destructor := e\<rparr>)" "pool_ok p \<Longrightarrow> pool_ok (p\<lparr>manager_alive := b\<rparr>)"
  by (simp_all add: pool_ok_def)

lemma pool_ok_loop_head:
  assumes "pool_ok p" and "thread_at p i = Some t" and "\<not> is_busy (Some t)"
  shows "pool_ok (loop_head i p)"
  using pool_ok_set [OF assms(1,2), of Waiting] pool_ok_set [OF assms(1,2), of Returned] assms
  by (auto dest!: thread_atD simp: loop_head_def pool_ok_def set_thread_def tally_update)

lemma pool_ok_woken:
  assumes "pool_ok p" and "thread_at p i = Some Notified"
  shows "pool_ok (woken i p)"
proof -
  have "pool_ok (loop_head i (p\<lparr>destroy_num := destroy_num p - 1\<rparr>))"
    by (rule pool_ok_loop_head [where t = Notified])
      (use assms in \<open>simp_all add: pool_ok_other\<close>)
  moreover have "pool_ok (loop_head i p)" by (rule pool_ok_loop_head [OF assms]) simp
  moreover have "min_num p < live_num p \<Longrightarrow>
      pool_ok (detach_cur_thread i (p\<lparr>destroy_num := destroy_num p - 1, live_num := live_num p - 1\<rparr>))"
    using assms by (auto dest!: thread_atD simp: detach_cur_thread_def pool_ok_def set_thread_def tally_update)
  ultimately show ?thesis by (simp add: woken_def Let_def)
qed

lemma pool_ok_done:
  assumes "pool_ok p" and "thread_at p i = Some (Busy t)"
  shows "pool_ok (task_done i p)"
  using assms by (auto dest!: thread_atD simp: task_done_def pool_ok_def set_thread_def tally_update)

lemma add_threads_spec:
  assumes "add_threads cnt live mx ts = (ts', live')" and "live \<le> mx"
  shows "length ts' = length ts \<and> live' - live = tally alive ts' - tally alive ts
    \<and> tally is_busy ts' = tally is_busy ts \<and> live \<le> live' \<and> live' \<le> mx"
  using assms
proof (induction ts arbitrary: cnt live ts' live')
  case (Cons t ts)
  show ?case
  proof (cases "cnt < CHANGE_THREAD_NUMBER \<and> live < mx")
    case True
    obtain us l where us: "add_threads (if t = None then cnt + 1 else cnt) (if t = None then live + 1 else live) mx ts = (us, l)"
      by fastforce
    have "(if t = None then live + 1 else live) \<le> mx" using True by simp
    from Cons.IH [OF us this] Cons.prems(1) True us show ?thesis by (cases t) auto
  qed (use Cons.prems in auto)
qed simp

lemma pool_ok_grow:
  assumes "pool_ok p"
  shows "pool_ok (grow p)"
proof -
  obtain ts l where ts: "add_threads 0 (live_num p) (max_num p) (worker_threads p) = (ts, l)" by fastforce
  have "live_num p \<le> max_num p" using assms by (simp add: pool_ok_def)
  from add_threads_spec [OF ts this] assms have "pool_ok (p\<lparr>worker_threads := ts, live_num := l\<rparr>)"
    unfolding pool_ok_def by simp
  then show ?thesis using assms ts by (simp add: grow_def)
qed

lemma pool_ok_manage: "pool_ok p \<Longrightarrow> pool_ok (manage p)"
  by (auto simp: manage_def shrink_def intro!: pool_ok_notify_all pool_ok_other pool_ok_grow)

lemma pool_ok_add: "pool_ok p \<Longrightarrow> may_notify choice p \<Longrightarrow> pool_ok (add_task t choice p)"
  by (auto simp: add_task_def notify_one_def may_notify_def split: option.splits
      intro!: pool_ok_other pool_ok_set [where t = Waiting])

lemma pool_ok_act: "pool_ok p \<Longrightarrow> act a p = Some q \<Longrightarrow> pool_ok q"
  unfolding act_def add_bound_task_def begin_shutdown_def wake_for_shutdown_def
  by (auto split: action.splits if_splits option.splits thread_place.splits
      intro!: pool_ok_other pool_ok_notify_all pool_ok_manage pool_ok_woken pool_ok_done pool_ok_add
        pool_ok_loop_head [where t = At_top] pool_ok_set [where t = Waiting])

lemma pool_ok_run: "pool_run p ins outs q \<Longrightarrow> pool_ok p \<Longrightarrow> pool_ok q"
  by (induction rule: pool_run.induct) (auto intro: pool_ok_act)

section \<open>Properties\<close>

text \<open>A first run: a task is added, taken and finished.\<close>

definition pool_5 :: "'t pool" where
  "pool_5 = \<lparr>taskQ = [], worker_threads = [Some At_top, Some At_top, Some At_top, None, None],
    min_num = 3, max_num = 5, live_num = 3, busy_num = 0, destroy_num = 0, shutdown = False,
    manager_alive = True, destructor = Not_called\<rparr>"

lemma new_pool_5: "new_pool 5 = Inr pool_5"
  by (simp add: new_pool_def pool_5_def MIN_THREAD_NUMBER_def numeral_eq_Suc)

lemmas pool_defs = act_def add_task_def add_bound_task_def may_notify_def notify_one_def notify_all_def loop_head_def
  woken_def Let_def detach_cur_thread_def task_done_def manage_def shrink_def grow_def begin_shutdown_def
  wake_for_shutdown_def set_thread_def thread_at_def taken_in_def started_by_def running_at_def

lemma run_example: "pool_run pool_5 [7 :: nat, 8] [7] (pool_5\<lparr>taskQ := [8],
    worker_threads := [Some (Busy 7), Some At_top, Some At_top, None, None], busy_num := 1\<rparr>)"
  by (rule run_actionsI [of "[Add 7 None, Add 8 None, Enter 0]"]) (simp add: pool_defs pool_5_def)

text \<open>
  C12: The pool's counters are exact at every moment: \<open>live_num\<close> is the number of threads, \<open>busy_num\<close>
  the number of those running a task, and the number of threads stays between the minimum and
  the number of cores, however additions, workers, manager and destructor interleave.
\<close>

theorem pool_counters:
  assumes "new_pool cores = Inr p" and "pool_run p ins outs q"
  shows "live_num q = tally alive (worker_threads q) \<and> busy_num q = tally is_busy (worker_threads q)
    \<and> int MIN_THREAD_NUMBER \<le> live_num q \<and> live_num q \<le> int cores \<and> busy_num q \<le> live_num q"
proof -
  have ok: "pool_ok q" by (rule pool_ok_run [OF assms(2) pool_ok_new [OF assms(1)]])
  have "max_num r = max_num p" if "act a p = Some r" for a and p r :: "'a pool"
    using that by (auto simp: act_def add_task_def add_bound_task_def notify_one_def notify_all_def set_thread_def loop_head_def
        woken_def Let_def detach_cur_thread_def task_done_def manage_def shrink_def grow_def begin_shutdown_def
        wake_for_shutdown_def split: action.splits if_splits option.splits thread_place.splits prod.splits)
  with assms(2) have "max_num q = max_num p" by (induction rule: pool_run.induct) auto
  moreover have "max_num p = int cores" using assms(1) by (auto simp: new_pool_def split: if_splits)
  moreover have "tally is_busy (worker_threads q) \<le> tally alive (worker_threads q)"
    by (rule tally_mono) (auto elim!: is_busy.elims)
  ultimately show ?thesis using ok by (simp add: pool_ok_def)
qed

theorem pool_counters_witness:
  "live_num ((pool_5 :: nat pool)\<lparr>taskQ := [8], worker_threads := [Some (Busy 7), Some At_top, Some At_top, None, None], busy_num := 1\<rparr>)
    = tally alive [Some (Busy (7 :: nat)), Some At_top, Some At_top, None, None]"
  using pool_counters [OF new_pool_5 run_example] by simp

lemma act_fifo: "act a p = Some q \<Longrightarrow> taskQ p @ taken_in a p = started_by a q @ taskQ q"
  by (auto simp: act_def taken_in_def started_by_def running_at_def add_task_def add_bound_task_def notify_one_def
      notify_all_def loop_head_def woken_def Let_def detach_cur_thread_def task_done_def manage_def shrink_def grow_def
      begin_shutdown_def wake_for_shutdown_def set_thread_def thread_at_def
      split: action.splits if_splits option.splits thread_place.splits prod.splits)

text \<open>
  C10: Tasks are started in the order they were added, each exactly once: at every moment the tasks
  taken in are the tasks started so far followed by the queue.
\<close>

theorem tasks_fifo:
  assumes "new_pool cores = Inr p" and "pool_run p ins outs q"
  shows "ins = outs @ taskQ q"
proof -
  have "taskQ p = []" using assms(1) by (auto simp: new_pool_def split: if_splits)
  with assms(2) show ?thesis
  proof (induction rule: pool_run.induct)
    case (run_step ins outs q a r)
    then have "ins = outs @ taskQ q" by simp
    then show ?case using act_fifo [OF run_step.hyps(2)] by simp
  qed simp
qed

theorem tasks_fifo_witness:
  "[7 :: nat, 8] = [7] @ taskQ (pool_5\<lparr>taskQ := [8], worker_threads := [Some (Busy 7), Some At_top, Some At_top, None, None], busy_num := 1\<rparr>)"
  by (rule tasks_fifo [OF new_pool_5 run_example])

text \<open>
  C39: A task can be left lying.  On a machine with five cores the pool reaches a state in which a
  task is queued, every thread is asleep, and none has been notified: the one notified worker
  returned instead, on the account of an earlier decision to shrink that no sleeping worker had
  been there to follow.
\<close>

theorem lost_wakeup:
  "\<exists>p ins outs q. new_pool 5 = Inr (p :: nat pool) \<and> pool_run p ins outs q \<and> \<not> shutdown q \<and> taskQ q \<noteq> []
    \<and> live_num q = 4 \<and> worker_threads q = [None, Some Waiting, Some Waiting, Some Waiting, Some Waiting]"
proof -
  let ?acts = "[Add 1 None, Add 2 None, Add 3 None, Add 4 None, Manage,
    Enter 0, Finish 0, Enter 0, Finish 0, Enter 0, Finish 0, Enter 0, Finish 0, Manage,
    Enter 0, Enter 1, Enter 2, Enter 3, Enter 4, Add 5 (Some 0), Resume 0] :: nat action list"
  let ?q = "pool_5\<lparr>taskQ := [5], worker_threads := [None, Some Waiting, Some Waiting, Some Waiting, Some Waiting],
    live_num := 4, destroy_num := 1\<rparr> :: nat pool"
  have "run_actions ?acts pool_5 = Some ([1 :: nat, 2, 3, 4, 5], [1, 2, 3, 4], ?q)"
    by (simp add: pool_defs pool_5_def CHANGE_THREAD_NUMBER_def)
  then have "pool_run pool_5 [1 :: nat, 2, 3, 4, 5] [1, 2, 3, 4] ?q" by (rule run_actionsI)
  moreover have "\<not> shutdown ?q" "taskQ ?q \<noteq> []" "live_num ?q = 4"
    "worker_threads ?q = [None, Some Waiting, Some Waiting, Some Waiting, Some Waiting]" by (simp_all add: pool_5_def)
  ultimately show ?thesis using new_pool_5 by blast
qed

section \<open>Shutting down\<close>

text \<open>
  Once the destructor waits for the workers nobody sleeps: the flag was set under the lock, and
  all sleepers have been woken since.
\<close>

definition closing_ok :: "'t pool \<Rightarrow> bool" where
  "closing_ok p \<longleftrightarrow> (destructor p \<noteq> Not_called \<longrightarrow> shutdown p)
     \<and> (destructor p = Joining_workers \<longrightarrow> Some Waiting \<notin> set (worker_threads p))"

lemma not_waiting_update: "Some Waiting \<notin> set ts \<Longrightarrow> t \<noteq> Some Waiting \<Longrightarrow> Some Waiting \<notin> set (ts[i := t])"
  using set_update_subset_insert [of ts i t] by auto

lemma wake_not_waiting [simp]: "map_option wake t \<noteq> Some Waiting" "Some Waiting \<noteq> map_option wake t"
  by (cases t; cases "the t"; simp)+

lemma not_waiting_wake: "Some Waiting \<notin> set (map (map_option wake) ts)"
  by auto

lemma closing_ok_act: "closing_ok p \<Longrightarrow> act a p = Some q \<Longrightarrow> closing_ok q"
  by (auto simp: closing_ok_def pool_defs not_waiting_wake [unfolded set_map] not_waiting_update
      split: action.splits if_splits option.splits thread_place.splits prod.splits)

lemma closing_ok_run:
  assumes "new_pool cores = Inr p" and "pool_run p ins outs q"
  shows "closing_ok q"
proof -
  have "closing_ok p" using assms(1) by (auto simp: closing_ok_def new_pool_def split: if_splits)
  with assms(2) show ?thesis by (induction rule: pool_run.induct) (auto intro: closing_ok_act)
qed

text \<open>How many critical sections a thread has before it at most, once the pool is shut down.\<close>

fun sections_left :: "'t thread_place option \<Rightarrow> nat" where
  "sections_left (Some (Busy t)) = 2"
| "sections_left (Some At_top) = 1"
| "sections_left (Some Notified) = 1"
| "sections_left t = 0"

definition to_go :: "'t pool \<Rightarrow> nat" where
  "to_go p = sum_list (map sections_left (worker_threads p))"

definition worker_action :: "'t action \<Rightarrow> bool" where
  "worker_action a \<longleftrightarrow> (case a of Enter _ \<Rightarrow> True | Resume _ \<Rightarrow> True | Finish _ \<Rightarrow> True | _ \<Rightarrow> False)"

lemma to_go_update:
  assumes "i < length ts"
  shows "sum_list (map sections_left (ts[i := t])) + sections_left (ts ! i)
    = sum_list (map sections_left ts) + sections_left t"
  using assms
proof (induction ts arbitrary: i)
  case (Cons u us)
  then show ?case by (cases i) auto
qed simp

lemma to_go_set_thread:
  "thread_at p i = Some t \<Longrightarrow> to_go (set_thread i u p) + sections_left (Some t) = to_go p + sections_left u"
  using to_go_update [of i "worker_threads p" u] by (auto dest!: thread_atD simp: to_go_def set_thread_def)

lemma to_go_other [simp]: "to_go (p\<lparr>busy_num := b\<rparr>) = to_go p" "to_go (p\<lparr>destroy_num := d\<rparr>) = to_go p"
  "to_go (p\<lparr>live_num := l\<rparr>) = to_go p" "to_go (p\<lparr>manager_alive := m\<rparr>) = to_go p"
  by (simp_all add: to_go_def)

lemma sections_left_zero: "sections_left u = 0 \<longleftrightarrow> u = None \<or> u = Some Waiting \<or> u = Some Returned"
  by (cases u rule: sections_left.cases) auto

lemma to_go_zero: "Some Waiting \<notin> set (worker_threads p) \<Longrightarrow>
    to_go p = 0 \<longleftrightarrow> (\<forall>i t. thread_at p i = Some t \<longrightarrow> t = Returned)"
proof -
  assume w: "Some Waiting \<notin> set (worker_threads p)"
  have "to_go p = 0 \<longleftrightarrow> (\<forall>u \<in> set (worker_threads p). sections_left u = 0)"
    by (auto simp: to_go_def sum_list_eq_0_iff)
  also have "\<dots> \<longleftrightarrow> (\<forall>t. Some t \<in> set (worker_threads p) \<longrightarrow> t = Returned)"
  proof
    assume r: "\<forall>t. Some t \<in> set (worker_threads p) \<longrightarrow> t = Returned"
    show "\<forall>u \<in> set (worker_threads p). sections_left u = 0"
    proof
      fix u assume u: "u \<in> set (worker_threads p)"
      show "sections_left u = 0"
      proof (cases u)
        case (Some t)
        with u r have "t = Returned" by blast
        with Some show ?thesis by simp
      qed simp
    qed
  qed (use w in \<open>force simp: sections_left_zero\<close>)
  also have "\<dots> \<longleftrightarrow> (\<forall>i t. thread_at p i = Some t \<longrightarrow> t = Returned)"
    by (auto simp: thread_at_set)
  finally show ?thesis .
qed

text \<open>The steps that are left once the workers are being joined.\<close>

lemma closing_step:
  assumes "shutdown p" and "destructor p = Joining_workers" and "Some Waiting \<notin> set (worker_threads p)"
    and "act a p = Some q"
  shows "to_go q \<le> to_go p \<and> (worker_action a \<longrightarrow> to_go q < to_go p)"
proof -
  have w: "thread_at p i \<noteq> Some Waiting" for i
    using assms(3) by (auto simp: thread_at_set)
  note up = to_go_set_thread [of p]
  have other: "to_go (set_thread i u (p\<lparr>busy_num := b\<rparr>)) = to_go (set_thread i u p)"
    "to_go (set_thread i u (p\<lparr>destroy_num := b\<rparr>)) = to_go (set_thread i u p)"
    "to_go (set_thread i u (p\<lparr>destroy_num := b, live_num := l\<rparr>)) = to_go (set_thread i u p)" for i u b l
    by (simp_all add: to_go_def set_thread_def)
  show ?thesis
  proof (cases a)
    case (Enter i)
    then show ?thesis using assms up [of i At_top "Some Returned"]
      by (auto simp: act_def loop_head_def worker_action_def split: if_splits)
  next
    case (Resume i)
    then show ?thesis using assms up [of i Notified "Some Returned"] up [of i Notified None]
      by (auto simp: act_def woken_def loop_head_def detach_cur_thread_def Let_def other worker_action_def split: if_splits)
  next
    case (Finish i)
    then show ?thesis using assms up [of i _ "Some At_top"]
      by (auto simp: act_def task_done_def other worker_action_def split: if_splits option.splits thread_place.splits)
  qed (use assms w in \<open>auto simp: act_def add_task_def add_bound_task_def manage_def worker_action_def split: if_splits\<close>)
qed

text \<open>
  C40: Shutting down ends.  Once the destructor waits for the workers, none of them is asleep, every
  step of a worker uses up one of finitely many critical sections and no other step adds one,
  some worker can step as long as a section is left, and when none is left all threads have
  returned.
\<close>

theorem shutdown_ends:
  assumes "new_pool cores = Inr p" and "pool_run p ins outs q" and "destructor q = Joining_workers"
  shows "(\<forall>i. thread_at q i \<noteq> Some Waiting)
    \<and> (\<forall>a r. act a q = Some r \<longrightarrow> to_go r \<le> to_go q \<and> (worker_action a \<longrightarrow> to_go r < to_go q))
    \<and> (0 < to_go q \<longrightarrow> (\<exists>a r. worker_action a \<and> act a q = Some r))
    \<and> (to_go q = 0 \<longleftrightarrow> (\<forall>i t. thread_at q i = Some t \<longrightarrow> t = Returned))"
proof -
  have "closing_ok q" by (rule closing_ok_run [OF assms(1,2)])
  with assms(3) have q: "shutdown q" "Some Waiting \<notin> set (worker_threads q)" by (auto simp: closing_ok_def)
  have w: "thread_at q i \<noteq> Some Waiting" for i
    using q(2) by (auto simp: thread_at_set)
  have "\<exists>a r. worker_action a \<and> act a q = Some r" if "0 < to_go q"
  proof -
    have "\<not> (\<forall>i t. thread_at q i = Some t \<longrightarrow> t = Returned)" using that to_go_zero [OF q(2)] by simp
    then obtain i t where i: "thread_at q i = Some t" "t \<noteq> Returned" by blast
    then have "\<exists>r. act (Enter i) q = Some r \<or> act (Resume i) q = Some r \<or> act (Finish i) q = Some r"
      using w [of i] by (cases t) (auto simp: act_def)
    moreover have "worker_action (Enter i)" "worker_action (Resume i)" "worker_action (Finish i)"
      by (simp_all add: worker_action_def)
    ultimately show ?thesis by blast
  qed
  then show ?thesis using closing_step [OF q(1) assms(3) q(2)] to_go_zero [OF q(2)] w by blast
qed

lemma shutdown_run: "pool_run (pool_5 :: nat pool) [] [] (pool_5\<lparr>
    worker_threads := [Some Notified, Some At_top, Some At_top, None, None],
    shutdown := True, manager_alive := False, destructor := Joining_workers\<rparr>)"
  by (rule run_actionsI [of "[Enter 0, Shut, Manage, Notify_workers]"]) (simp add: pool_defs pool_5_def)

theorem shutdown_ends_witness:
  "\<exists>a r. worker_action a \<and> act a ((pool_5 :: nat pool)\<lparr>
    worker_threads := [Some Notified, Some At_top, Some At_top, None, None],
    shutdown := True, manager_alive := False, destructor := Joining_workers\<rparr>) = Some r"
  using shutdown_ends [OF new_pool_5 shutdown_run] by (simp add: to_go_def)

end
