(* ===== verification/EpollServer.thy ===== *)
theory EpollServer
  imports MyServer ThreadPool
begin

text \<open>
  The epoll server as a whole: the event loop of \<^verbatim>\<open>MyServer::launch\<close>, the thread pool whose tasks are
  connections, and the checking thread of \<^verbatim>\<open>UserStatusEvaluator\<close>, interleaved at the granularity of
  one accept, one answer of epoll, one event, one critical section of the pool, one round of a task, one
  check.  The loop takes a connection off epoll before it hands it to the pool, and the task puts it back
  at its end; the question is whether a connection is ever with two workers.
\<close>

section \<open>What epoll watches and which descriptors are open\<close>

text \<open>
  The interest list after a sequence of calls (closing a descriptor takes it off the list), and
  the descriptors of clients that are open: a new connection is watched as soon as it is there.
\<close>

fun watch_step :: "call \<Rightarrow> int set \<Rightarrow> int set" where
  "watch_step (Watch fd edge) W = insert fd W"
| "watch_step (Unwatch fd) W = W - {fd}"
| "watch_step (Close (Fd fd)) W = W - {fd}"
| "watch_step c W = W"

fun open_step :: "call \<Rightarrow> int set \<Rightarrow> int set" where
  "open_step (Watch fd edge) W = insert fd W"
| "open_step (Close (Fd fd)) W = W - {fd}"
| "open_step c W = W"

definition watched :: "'w server \<Rightarrow> int set" where
  "watched s = fold watch_step (calls s) {}"

definition open_fds :: "'w server \<Rightarrow> int set" where
  "open_fds s = fold open_step (calls s) {}"

section \<open>Steps\<close>

text \<open>
  What a worker is busy with: the task of a connection, or nothing any more, from the return of the task
  (which may have put the connection back on epoll) to the critical section that ends its turn.
\<close>

datatype activity = Serving int | Returned

text \<open>
  One event of the loop, for a descriptor other than the listening one; the choice is the
  waiting worker that \<^verbatim>\<open>notify_one\<close> wakes.
\<close>

definition dispatch :: "'w ext \<Rightarrow> int \<Rightarrow> nat option \<Rightarrow> 'w server \<times> activity pool \<Rightarrow> ('w server \<times> activity pool) option" where
  "dispatch E fd choice sp = (case sp of (s, p) \<Rightarrow> (case deleteFd E fd s of
     Some (Inr _, s') \<Rightarrow> Some (s', add_task (Serving fd) choice p)
   | _ \<Rightarrow> None))"

text \<open>The steps of the pool that belong to neither the loop nor a running task.\<close>

fun internal :: "'t action \<Rightarrow> bool" where
  "internal (Add t choice) \<longleftrightarrow> False"
| "internal (Add_bound t) \<longleftrightarrow> False"
| "internal (Finish i) \<longleftrightarrow> False"
| "internal a \<longleftrightarrow> True"

text \<open>
  The state: the process, the pool, and the events that epoll has reported and the loop has not handled yet.
  A connection is at rest when none of them has it; it is evicted by a step that takes its entry out of the
  table.
\<close>

type_synonym 'w epoll_state = "'w server \<times> activity pool \<times> int list"

definition at_rest :: "int \<Rightarrow> activity pool \<Rightarrow> int list \<Rightarrow> bool" where
  "at_rest fd p evs \<longleftrightarrow> fd \<notin> set evs \<and> Serving fd \<notin> set (taskQ p) \<and> (\<forall>i. thread_at p i \<noteq> Some (Busy (Serving fd)))"

definition evicts :: "int \<Rightarrow> 'w server \<Rightarrow> 'w server \<Rightarrow> bool" where
  "evicts fd s s' \<longleftrightarrow> m_map s fd \<noteq> None \<and> m_map s' fd = None"

text \<open>
  A new connection has a descriptor that is not in use; epoll reports only descriptors it watches, each once
  (an event of the listening descriptor is \<open>accepted\<close>, as often as there are connections).
  The checking thread always runs; the flag says whether its checks may evict connections that are not at
  rest, as the code lets them.
\<close>

inductive epoll_step :: "'w ext \<Rightarrow> int \<Rightarrow> bool \<Rightarrow> 'w epoll_state \<Rightarrow> 'w epoll_state \<Rightarrow> bool"
  for E listen_fd reckless where
  accepted: "processSingleConnect E listen_fd s = Some (Inr fd, s') \<Longrightarrow> fd \<notin> open_fds s
    \<Longrightarrow> epoll_step E listen_fd reckless (s, p, evs) (s', p, evs)"
| reported: "sys_epoll_wait E MAX_EPOLL_EVENTS (world s) = (Some evs, w) \<Longrightarrow> distinct evs
    \<Longrightarrow> set evs \<subseteq> insert listen_fd (watched s)
    \<Longrightarrow> epoll_step E listen_fd reckless (s, p, []) (s\<lparr>world := w\<rparr>, p, filter (\<lambda>fd. fd \<noteq> listen_fd) evs)"
| event: "may_notify choice p \<Longrightarrow> dispatch E fd choice (s, p) = Some (s', p')
    \<Longrightarrow> epoll_step E listen_fd reckless (s, p, fd # evs) (s', p', evs)"
| pool: "internal a \<Longrightarrow> act a p = Some p' \<Longrightarrow> epoll_step E listen_fd reckless (s, p, evs) (s, p', evs)"
| round: "thread_at p i = Some (Busy (Serving fd)) \<Longrightarrow> client_round E fd s = Some (Inr again, s')
    \<Longrightarrow> epoll_step E listen_fd reckless (s, p, evs)
      (s', if again then p else set_thread i (Some (Busy Returned)) p, evs)"
| finish: "thread_at p i = Some (Busy Returned) \<Longrightarrow> epoll_step E listen_fd reckless (s, p, evs) (s, task_done i p, evs)"
| check: "check_fd E s = Some (Inr (), s') \<Longrightarrow> reckless \<or> (\<forall>fd. evicts fd s s' \<longrightarrow> at_rest fd p evs)
    \<Longrightarrow> epoll_step E listen_fd reckless (s, p, evs) (s', p, evs)"

inductive epoll_run :: "'w ext \<Rightarrow> int \<Rightarrow> bool \<Rightarrow> 'w epoll_state \<Rightarrow> 'w epoll_state \<Rightarrow> bool"
  for E listen_fd reckless x where
  run_refl: "epoll_run E listen_fd reckless x x"
| run_more: "epoll_run E listen_fd reckless x y \<Longrightarrow> epoll_step E listen_fd reckless y z \<Longrightarrow> epoll_run E listen_fd reckless x z"

section \<open>Owners of a connection\<close>

definition pool_owners :: "int \<Rightarrow> activity pool \<Rightarrow> int" where
  "pool_owners fd p = int (count_list (taskQ p) (Serving fd)) + tally (\<lambda>t. t = Some (Busy (Serving fd))) (worker_threads p)"

definition owners :: "int \<Rightarrow> 'w server \<Rightarrow> activity pool \<Rightarrow> int" where
  "owners fd s p = (if fd \<in> watched s then 1 else 0) + pool_owners fd p"

text \<open>The invariant: one owner, which is open; reported events are still watched, each once.\<close>

definition owned_once :: "'w server \<Rightarrow> activity pool \<Rightarrow> int list \<Rightarrow> bool" where
  "owned_once s p evs \<longleftrightarrow> (\<forall>fd. owners fd s p \<le> 1 \<and> (0 < owners fd s p \<longrightarrow> fd \<in> open_fds s))
    \<and> distinct evs \<and> set evs \<subseteq> watched s \<and> finite (dom (m_map s))"

lemma owned_onceI:
  assumes "\<And>x. (if x \<in> watched s then 1 else 0) + pool_owners x p \<le> 1
      \<and> (0 < (if x \<in> watched s then 1 else 0) + pool_owners x p \<longrightarrow> x \<in> open_fds s)"
    and "distinct evs" and "set evs \<subseteq> watched s" and "finite (dom (m_map s))"
  shows "owned_once s p evs"
  using assms by (simp add: owned_once_def owners_def)

lemma owned_onceD:
  assumes "owned_once s p evs"
  shows "(if x \<in> watched s then 1 else 0) + pool_owners x p \<le> 1
      \<and> (0 < (if x \<in> watched s then 1 else 0) + pool_owners x p \<longrightarrow> x \<in> open_fds s)"
    and "distinct evs" and "set evs \<subseteq> watched s" and "finite (dom (m_map s))"
  using assms by (auto simp: owned_once_def owners_def)

lemma count_hd_tl: "q \<noteq> [] \<Longrightarrow> int (count_list q x) = int (count_list (tl q) x) + (if hd q = x then 1 else 0)"
  by (cases q) auto

lemma pool_owners_nonneg: "0 \<le> pool_owners fd p"
  by (simp add: pool_owners_def tally_bounds)

lemma wake_busy: "map_option wake t = Some (Busy x) \<longleftrightarrow> t = Some (Busy x)"
  by (cases t; cases "the t") auto

lemma add_threads_busy:
  "add_threads cnt live mx ts = (ts', live') \<Longrightarrow> tally (\<lambda>t. t = Some (Busy a)) ts' = tally (\<lambda>t. t = Some (Busy a)) ts"
proof (induction cnt live mx ts arbitrary: ts' live' rule: add_threads.induct)
  case (2 cnt live mx t ts)
  then show ?case by (auto split: if_splits option.splits prod.splits)
qed simp

lemma pool_owners_loop_head:
  "thread_at p i = Some t \<Longrightarrow> t \<noteq> Busy (Serving fd) \<Longrightarrow> pool_owners fd (loop_head i p) = pool_owners fd p"
  by (auto dest!: thread_atD simp: loop_head_def pool_owners_def set_thread_def tally_update count_hd_tl)

lemma pool_owners_other [simp]: "pool_owners fd (p\<lparr>destroy_num := d\<rparr>) = pool_owners fd p"
  "pool_owners fd (p\<lparr>live_num := l\<rparr>) = pool_owners fd p" "pool_owners fd (notify_all p) = pool_owners fd p"
  by (simp_all add: pool_owners_def notify_all_def tally_map wake_busy del: map_option_eq_Some)

lemma pool_owners_set:
  "thread_at p i = Some t \<Longrightarrow> pool_owners fd (set_thread i u p) = pool_owners fd p
    - (if t = Busy (Serving fd) then 1 else 0) + (if u = Some (Busy (Serving fd)) then 1 else 0)"
  by (auto dest!: thread_atD simp: pool_owners_def set_thread_def tally_update)

lemma pool_owners_woken:
  assumes "thread_at p i = Some Notified"
  shows "pool_owners fd (woken i p) = pool_owners fd p"
proof -
  have d: "thread_at (p\<lparr>destroy_num := d\<rparr>) i = Some Notified" "thread_at (p\<lparr>destroy_num := d, live_num := l\<rparr>) i = Some Notified" for d l
    using assms by (simp_all add: thread_at_def split: if_splits)
  show ?thesis using assms d
    by (simp add: woken_def Let_def detach_cur_thread_def pool_owners_loop_head [where t = Notified]
        pool_owners_set [where t = Notified])
qed

lemma pool_owners_manage: "pool_owners fd (manage p) = pool_owners fd p"
proof -
  have "pool_owners fd (grow p) = pool_owners fd p"
    by (auto simp: grow_def pool_owners_def add_threads_busy split: prod.split)
  moreover have "pool_owners fd (p\<lparr>manager_alive := b\<rparr>) = pool_owners fd p" for b by (simp add: pool_owners_def)
  ultimately show ?thesis by (simp add: manage_def shrink_def)
qed

lemma pool_owners_internal:
  assumes "internal a" and "act a p = Some q"
  shows "pool_owners fd q = pool_owners fd p"
proof -
  have "pool_owners fd (p\<lparr>shutdown := b, destroy_num := n, destructor := d\<rparr>) = pool_owners fd p"
    "pool_owners fd (p\<lparr>destructor := d\<rparr>) = pool_owners fd p" for b n d by (simp_all add: pool_owners_def)
  with assms show ?thesis
    by (cases a) (auto simp: act_def pool_owners_woken pool_owners_manage pool_owners_loop_head [where t = At_top]
        pool_owners_set [where t = Waiting] begin_shutdown_def wake_for_shutdown_def split: if_splits)
qed

lemma pool_owners_add:
  assumes "may_notify choice p"
  shows "pool_owners fd (add_task t choice p) \<le> pool_owners fd p + (if t = Serving fd then 1 else 0)"
  using assms pool_owners_set [of "p\<lparr>taskQ := taskQ p @ [t]\<rparr>" _ Waiting fd "Some Notified"]
  by (auto simp: add_task_def notify_one_def may_notify_def split: option.splits) (auto simp: pool_owners_def)

lemma pool_owners_done:
  assumes "thread_at p i = Some (Busy Returned)"
  shows "pool_owners x (task_done i p) = pool_owners x p"
proof -
  have "pool_owners x (p\<lparr>busy_num := b\<rparr>) = pool_owners x p" "thread_at (p\<lparr>busy_num := b\<rparr>) i = thread_at p i" for b
    by (simp_all add: pool_owners_def thread_at_def)
  then show ?thesis using pool_owners_set [of "p\<lparr>busy_num := busy_num p - 1\<rparr>" i "Busy Returned" x "Some At_top"] assms
    by (auto simp: task_done_def)
qed

lemma busy_owner: "thread_at p i = Some (Busy (Serving fd)) \<Longrightarrow> 1 \<le> pool_owners fd p"
  using pool_owners_set [of p i "Busy (Serving fd)" fd "Some (Busy Returned)"]
    pool_owners_nonneg [of fd "set_thread i (Some (Busy Returned)) p"] by simp

lemma tally_none: "(\<And>x. x \<in> set xs \<Longrightarrow> \<not> P x) \<Longrightarrow> tally P xs = 0"
  by (induction xs) auto

lemma no_owner:
  assumes "\<And>i. thread_at p i \<noteq> Some (Busy (Serving fd))" and "Serving fd \<notin> set (taskQ p)"
  shows "pool_owners fd p = 0"
proof -
  have "tally (\<lambda>t. t = Some (Busy (Serving fd))) (worker_threads p) = 0"
  proof (rule tally_none)
    fix t assume "t \<in> set (worker_threads p)"
    then obtain i where "i < length (worker_threads p)" "worker_threads p ! i = t" by (auto simp: in_set_conv_nth)
    with assms(1) [of i] show "t \<noteq> Some (Busy (Serving fd))" by (auto simp: thread_at_def)
  qed
  then show ?thesis using assms(2) by (simp add: pool_owners_def)
qed

text \<open>What calls do to the two sets.\<close>

lemma sets_append: "calls s' = calls s @ cs \<Longrightarrow> watched s' = fold watch_step cs (watched s)
    \<and> open_fds s' = fold open_step cs (open_fds s)"
  by (simp add: watched_def open_fds_def)

lemma request_sets: "\<forall>c \<in> set cs. request_call p c \<Longrightarrow> fold watch_step cs W = W \<and> fold open_step cs W = W"
proof (induction cs arbitrary: W)
  case (Cons c cs)
  then show ?case by (cases c) (auto simp: request_call_def)
qed simp

lemma round_sets:
  assumes "client_round E fd s = Some (Inr again, s')"
  shows "(watched s' = watched s \<and> open_fds s' = open_fds s)
    \<or> \<not> again \<and> (watched s' = insert fd (watched s) \<and> open_fds s' = insert fd (open_fds s)
      \<or> watched s' = watched s - {fd} \<and> open_fds s' = open_fds s - {fd})"
proof -
  obtain cs ds where c: "calls s' = calls s @ cs @ ds" "\<forall>c \<in> set cs. request_call (Fd fd) c" "task_end fd ds"
    "ds \<noteq> [] \<longrightarrow> \<not> again"
    using round_end [OF assms] by (auto simp: ended_def)
  then show ?thesis using sets_append [OF c(1)] request_sets [OF c(2)] by (auto simp: task_end_def)
qed

text \<open>A check takes the connections it evicts off both sets.\<close>

lemma check_sets:
  "fold watch_step (concat (map check_calls_fd es)) W = W - {fd. \<exists>i. (fd, i) \<in> set es \<and> num i = 3}"
  "fold open_step (concat (map check_calls_fd es)) W = W - {fd. \<exists>i. (fd, i) \<in> set es \<and> num i = 3}"
  by (induction es arbitrary: W) (auto simp: check_calls_fd_def)

lemma check_effect:
  assumes "walks (fd_order E)" and "finite (dom (m_map s))" and "check_fd E s = Some (Inr (), s')"
  shows "watched s' = watched s - {fd. evicts fd s s'}" and "open_fds s' = open_fds s - {fd. evicts fd s s'}"
    and "finite (dom (m_map s'))"
proof -
  obtain t where t: "check_fd E s = Some (Inr (), t)" "\<forall>k. m_map t k = Option.bind (m_map s k) tick_info"
    "calls t = calls s @ concat (map check_calls_fd (fd_order E (m_map s)))"
    using check_fd_spec [OF assms(1,2)] by blast
  have eq: "t = s'" using assms(3) t(1) by simp
  have en: "enumerates (fd_order E (m_map s)) (m_map s)" using walksD [OF assms(1,2)] .
  have "evicts fd s s' \<longleftrightarrow> (\<exists>i. m_map s fd = Some i \<and> num i = 3)" for fd
    using t(2) unfolding eq evicts_def by (cases "m_map s fd") (auto simp: tick_info_def tick_def)
  moreover have "(fd, i) \<in> set (fd_order E (m_map s)) \<longleftrightarrow> m_map s fd = Some i" for fd i
    using en map_of_eq_Some_iff [of "fd_order E (m_map s)" fd i] by (simp add: enumerates_def)
  ultimately show "watched s' = watched s - {fd. evicts fd s s'}" "open_fds s' = open_fds s - {fd. evicts fd s s'}"
    using sets_append [OF t(3)] unfolding eq check_sets by simp_all
  have "dom (m_map s') \<subseteq> dom (m_map s)" using t(2) unfolding eq by (auto split: bind_splits)
  then show "finite (dom (m_map s'))" using assms(2) by (rule finite_subset)
qed

lemma dispatch_app: "dispatch E fd choice (s, p) = Some
    (s\<lparr>world := epoll_del E fd (world s), calls := calls s @ [Unwatch fd]\<rparr>, add_task (Serving fd) choice p)"
  by (simp add: dispatch_def deleteFd_def log_call_def)

lemma round_table:
  assumes "client_round E fd s = Some (r, s')" and "finite (dom (m_map s))"
  shows "finite (dom (m_map s'))"
proof -
  have "(m_map s')(fd := None) = (m_map s)(fd := None)" using round_end [OF assms(1)] by (simp add: ended_def others_def)
  then have "dom (m_map s') \<subseteq> insert fd (dom (m_map s))" by (auto simp: fun_upd_def fun_eq_iff split: if_splits)
  then show ?thesis using assms(2) by (meson finite_insert finite_subset)
qed

lemma accept_effect:
  assumes "processSingleConnect E listen_fd s = Some (Inr fd, s')"
  shows "watched s' = watched s \<and> open_fds s' = open_fds s
      \<or> watched s' = insert fd (watched s) \<and> open_fds s' = insert fd (open_fds s)"
    and "dom (m_map s') \<subseteq> insert fd (dom (m_map s))"
proof -
  have "(calls s' = calls s \<or> calls s' = calls s @ [Watch fd True]) \<and> dom (m_map s') \<subseteq> insert fd (dom (m_map s))"
    using assms by (auto simp: processSingleConnect_def sys_accept_srv_def add_fd_def addFd_def log_call_def bnd_def map_insert_def
        split: prod.splits accept_result.splits if_splits option.splits)
  then show "watched s' = watched s \<and> open_fds s' = open_fds s
      \<or> watched s' = insert fd (watched s) \<and> open_fds s' = insert fd (open_fds s)"
    and "dom (m_map s') \<subseteq> insert fd (dom (m_map s))" by (auto simp: watched_def open_fds_def)
qed

lemma owned_once_step:
  assumes "epoll_step E listen_fd False (s, p, evs) (s', p', evs')" and o: "owned_once s p evs" and walks: "walks (fd_order E)"
  shows "owned_once s' p' evs'"
  using assms(1)
proof cases
  case (accepted fd)
  note sets = accept_effect(1) [OF accepted(3)]
  have fd: "fd \<notin> watched s" "pool_owners fd p = 0"
    using owned_onceD(1) [OF o, of fd] accepted(4) pool_owners_nonneg [of fd p] by (auto split: if_splits)
  have one: "(if x \<in> watched s' then 1 else 0) + pool_owners x p \<le> 1
      \<and> (0 < (if x \<in> watched s' then 1 else 0) + pool_owners x p \<longrightarrow> x \<in> open_fds s')" for x
  proof (cases "x = fd")
    case True
    then show ?thesis using sets fd by (elim disjE conjE) simp_all
  next
    case False
    then have "x \<in> watched s' \<longleftrightarrow> x \<in> watched s" "x \<in> open_fds s' \<longleftrightarrow> x \<in> open_fds s" using sets by (elim disjE conjE; simp)+
    then show ?thesis using owned_onceD(1) [OF o, of x] by simp
  qed
  have "watched s \<subseteq> watched s'" using sets by (elim disjE conjE) blast+
  then have evs: "set evs \<subseteq> watched s'" using owned_onceD(3) [OF o] by (rule order_trans [rotated])
  have "finite (dom (m_map s'))" by (rule finite_subset [OF accept_effect(2) [OF accepted(3)]]) (simp add: owned_onceD(4) [OF o])
  with one owned_onceD(2) [OF o] evs show ?thesis unfolding accepted(1,2) by (rule owned_onceI)
next
  case (reported ready w)
  have "watched s' = watched s" "open_fds s' = open_fds s" "m_map s' = m_map s"
    using reported by (simp_all add: watched_def open_fds_def)
  then show ?thesis using owned_onceD [OF o] reported by (intro owned_onceI) auto
next
  case (event choice fd)
  have "calls s' = calls s @ [Unwatch fd] \<and> p' = add_task (Serving fd) choice p \<and> m_map s' = m_map s"
    using event(3) unfolding dispatch_app option.inject prod.inject by (elim conjE) (hypsubst, simp)
  then have s': "watched s' = watched s - {fd}" "open_fds s' = open_fds s" "p' = add_task (Serving fd) choice p" "m_map s' = m_map s"
    using sets_append [of s' s "[Unwatch fd]"] by simp_all
  have "fd \<in> watched s" using owned_onceD(3) [OF o] event(1) by simp
  then have z: "pool_owners fd p \<le> 0" "fd \<in> open_fds s"
    using owned_onceD(1) [OF o, of fd] pool_owners_nonneg [of fd p] by auto
  have "(if x \<in> watched s' then 1 else 0) + pool_owners x p' \<le> 1
      \<and> (0 < (if x \<in> watched s' then 1 else 0) + pool_owners x p' \<longrightarrow> x \<in> open_fds s')" for x
    using owned_onceD(1) [OF o, of x] pool_owners_add [OF event(2), of x "Serving fd"] z
    by (cases "x = fd") (auto simp: s' split: if_splits)
  then show ?thesis using owned_onceD(2-4) [OF o] event(1) s' by (intro owned_onceI) auto
next
  case (pool a)
  then show ?thesis using o by (simp add: owned_once_def owners_def pool_owners_internal)
next
  case (round i fd again)
  have b: "1 \<le> pool_owners fd p" by (rule busy_owner [OF round(3)])
  have fd: "fd \<notin> watched s" "pool_owners fd p = 1" "fd \<in> open_fds s"
    using owned_onceD(1) [OF o, of fd] b by (auto split: if_splits)
  have "pool_owners x p' = pool_owners x p - (if x = fd \<and> \<not> again then 1 else 0)" for x
    using pool_owners_set [OF round(3), of x "Some (Busy Returned)"] round(1) by auto
  then have "(if x \<in> watched s' then 1 else 0) + pool_owners x p' \<le> 1
      \<and> (0 < (if x \<in> watched s' then 1 else 0) + pool_owners x p' \<longrightarrow> x \<in> open_fds s')" for x
    using owned_onceD(1) [OF o, of x] round_sets [OF round(4)] fd by (cases "x = fd") (auto split: if_splits)
  then show ?thesis using owned_onceD(2-4) [OF o] round_table [OF round(4)] round_sets [OF round(4)] round(2) fd
    by (intro owned_onceI) auto
next
  case (finish i)
  then show ?thesis using o by (simp add: owned_once_def owners_def pool_owners_done)
next
  case check
  note eff = check_effect [OF walks owned_onceD(4) [OF o] check(3)]
  have rest: "pool_owners fd p = 0 \<and> fd \<notin> set evs" if "evicts fd s s'" for fd
    using check(4) that no_owner [of p fd] by (auto simp: at_rest_def)
  have "(if x \<in> watched s' then 1 else 0) + pool_owners x p \<le> 1
      \<and> (0 < (if x \<in> watched s' then 1 else 0) + pool_owners x p \<longrightarrow> x \<in> open_fds s')" for x
    using owned_onceD(1) [OF o, of x] rest [of x] unfolding eff(1,2) by auto
  then show ?thesis using owned_onceD(2,3) [OF o] eff rest check(1,2) by (intro owned_onceI) auto
qed

lemma owned_once_run:
  assumes "epoll_run E listen_fd False x y" and "walks (fd_order E)"
  shows "owned_once (fst x) (fst (snd x)) (snd (snd x)) \<Longrightarrow> owned_once (fst y) (fst (snd y)) (snd (snd y))"
  using assms(1)
proof (induction rule: epoll_run.induct)
  case (run_more y z)
  then show ?case using owned_once_step [OF _ _ assms(2)] by (cases y; cases z) auto
qed

section \<open>Properties\<close>

text \<open>
  C14: One worker per connection.  In every run of event loop, pool, tasks and checking thread in which the
  checks evict only connections at rest -- neither reported by epoll, nor queued, nor served -- every
  connection is in one place only: watched by epoll, or once in the queue, or with one worker whose task has
  not returned; and a connection that is queued or served is open.
\<close>

theorem one_worker_per_connection:
  assumes "new_pool cores = Inr p" and "watched s \<subseteq> open_fds s" and "finite (dom (m_map s))" and "walks (fd_order E)"
    and "epoll_run E listen_fd False (s, p, []) (s', p', evs)"
  shows "(if fd \<in> watched s' then 1 else 0) + int (count_list (taskQ p') (Serving fd))
      + tally (\<lambda>t. t = Some (Busy (Serving fd))) (worker_threads p') \<le> 1
    \<and> (Serving fd \<in> set (taskQ p') \<or> thread_at p' i = Some (Busy (Serving fd)) \<longrightarrow> fd \<in> open_fds s')"
proof -
  have "pool_owners x p = 0" for x
    using assms(1) by (auto simp: new_pool_def pool_owners_def split: if_splits)
  then have "owned_once s p []" using assms(2,3) by (auto intro!: owned_onceI split: if_splits)
  then have o: "owned_once s' p' evs" using owned_once_run [OF assms(5,4)] by simp
  moreover have "1 \<le> pool_owners fd p'" if "Serving fd \<in> set (taskQ p')"
  proof -
    have "count_list (taskQ p') (Serving fd) \<noteq> 0" using that by (simp add: count_list_0_iff)
    then show ?thesis using tally_bounds(1) [of "\<lambda>t. t = Some (Busy (Serving fd))" "worker_threads p'"] by (simp add: pool_owners_def)
  qed
  then have "fd \<in> open_fds s'" if "Serving fd \<in> set (taskQ p') \<or> thread_at p' i = Some (Busy (Serving fd))"
    using owned_onceD(1) [OF o, of fd] busy_owner [of p' i fd] that by (auto split: if_splits)
  ultimately show ?thesis using owned_onceD(1) [OF o, of fd] by (simp add: pool_owners_def algebra_simps)
qed

text \<open>A surrounding in which descriptor 4 is the next free one, and is the one that is ready.\<close>

definition accepting_ext :: "sample ext" where
  "accepting_ext = sample_ext\<lparr>sys_accept := (\<lambda>fd w. (New_connection 4 ''a'', w)), sys_epoll_wait := (\<lambda>n w. (Some [4], w))\<rparr>"

lemma accept_example: "m_map s = Map.empty \<Longrightarrow> processSingleConnect accepting_ext 3 s
    = Some (Inr 4, s\<lparr>m_map := [4 \<mapsto> fresh_info ''a''], calls := calls s @ [Watch 4 True]\<rparr>)"
  by (simp add: processSingleConnect_def sys_accept_srv_def bnd_def accepting_ext_def sample_ext_def add_fd_def addFd_def
      map_insert_def log_call_def)

lemma dispatch_example: "dispatch accepting_ext 4 None (s, p) = Some (s\<lparr>calls := calls s @ [Unwatch 4]\<rparr>, add_task (Serving 4) None p)"
  by (simp add: dispatch_app accepting_ext_def sample_ext_def)

lemma check_example:
  "m_map s = [4 \<mapsto> i] \<Longrightarrow> 0 \<le> num i \<Longrightarrow> num i < 3 \<Longrightarrow>
    check_fd accepting_ext s = Some (Inr (), s\<lparr>m_map := [4 \<mapsto> i\<lparr>num := num i + 1\<rparr>]\<rparr>)"
  "m_map s = [4 \<mapsto> i] \<Longrightarrow> num i = 3 \<Longrightarrow>
    check_fd accepting_ext s = Some (Inr (), s\<lparr>m_map := Map.empty, calls := calls s @ [Unwatch 4, Close (Fd 4)]\<rparr>)"
  by (simp_all add: check_fd_def check_entry_fd_def bnd_def accepting_ext_def sample_ext_def sorted_entries_def
      table_op_defs deleteFd_def close_fd_def log_call_def)

text \<open>One step of each kind in these surroundings; a report and its event are taken together.\<close>

lemma accept_more:
  "epoll_run accepting_ext 3 c x (s, p, []) \<Longrightarrow> m_map s = Map.empty \<Longrightarrow> 4 \<notin> open_fds s
    \<Longrightarrow> epoll_run accepting_ext 3 c x (s\<lparr>m_map := [4 \<mapsto> fresh_info ''a''], calls := calls s @ [Watch 4 True]\<rparr>, p, [])"
  by (blast intro: run_more accepted accept_example)

lemma event_more:
  assumes "epoll_run accepting_ext 3 c x (s, p, [])" and "4 \<in> watched s" and "may_notify None p"
  shows "epoll_run accepting_ext 3 c x (s\<lparr>calls := calls s @ [Unwatch 4]\<rparr>, add_task (Serving 4) None p, [])"
proof -
  have "sys_epoll_wait accepting_ext MAX_EPOLL_EVENTS (world s) = (Some [4], world s)" by (simp add: accepting_ext_def)
  from reported [OF this, of 3 c p] have "epoll_step accepting_ext 3 c (s, p, []) (s, p, [4])" using assms(2) by simp
  with assms(1) have "epoll_run accepting_ext 3 c x (s, p, [4])" by (rule run_more)
  then show ?thesis by (rule run_more) (rule event [OF assms(3) dispatch_example])
qed

lemma check_more:
  "epoll_run accepting_ext 3 c x (s, p, []) \<Longrightarrow> m_map s = [4 \<mapsto> i] \<Longrightarrow> 0 \<le> num i \<Longrightarrow> num i < 3
    \<Longrightarrow> epoll_run accepting_ext 3 c x (s\<lparr>m_map := [4 \<mapsto> i\<lparr>num := num i + 1\<rparr>]\<rparr>, p, [])"
  "epoll_run accepting_ext 3 True x (s, p, []) \<Longrightarrow> m_map s = [4 \<mapsto> i] \<Longrightarrow> num i = 3
    \<Longrightarrow> epoll_run accepting_ext 3 True x (s\<lparr>m_map := Map.empty, calls := calls s @ [Unwatch 4, Close (Fd 4)]\<rparr>, p, [])"
proof -
  assume run: "epoll_run accepting_ext 3 c x (s, p, [])" and m: "m_map s = [4 \<mapsto> i]" and n: "0 \<le> num i" "num i < 3"
  have "\<not> evicts fd s (s\<lparr>m_map := [4 \<mapsto> i\<lparr>num := num i + 1\<rparr>]\<rparr>)" for fd using m by (simp add: evicts_def)
  then show "epoll_run accepting_ext 3 c x (s\<lparr>m_map := [4 \<mapsto> i\<lparr>num := num i + 1\<rparr>]\<rparr>, p, [])"
    using run_more [OF run check [OF check_example(1) [OF m n]]] by blast
qed (blast intro: run_more check check_example(2))

lemma enter_more:
  "epoll_run E l c x (s, p, evs) \<Longrightarrow> thread_at p i = Some At_top \<Longrightarrow> epoll_run E l c x (s, loop_head i p, evs)"
  by (rule run_more, assumption, rule pool [where a = "Enter i"]) (simp_all add: act_def)

theorem one_worker_per_connection_witness:
  "\<exists>s' p'. epoll_run accepting_ext 3 False (sample_server, pool_5, []) (s', p', [])
    \<and> thread_at p' 0 = Some (Busy (Serving 4)) \<and> 4 \<in> open_fds s' \<and> 4 \<notin> watched s'"
proof -
  let ?x = "(sample_server, pool_5 :: activity pool, [] :: int list)"
  let ?i = "(fresh_info ''a'')" and ?p = "pool_5\<lparr>taskQ := [Serving 4]\<rparr> :: activity pool"
  let ?s = "\<lambda>i cs. \<lparr>world = sample_world, calls = cs, m_map = [4 \<mapsto> i], m_map_boost = Map.empty,
    m_liveList = Map.empty, worker = new_IdWorker\<rparr>"
  have idle: "may_notify None (pool_5 :: activity pool)" "\<not> shutdown (pool_5 :: activity pool)"
    by (simp_all add: may_notify_def pool_5_def)
  have "epoll_run accepting_ext 3 False ?x (?s ?i [Watch 4 True], pool_5, [])"
    using accept_more [OF run_refl, of sample_server False pool_5] by (simp add: open_fds_def sample_server_def)
  from check_more(1) [OF this, of ?i]
  have "epoll_run accepting_ext 3 False ?x (?s (?i\<lparr>num := 1\<rparr>) [Watch 4 True], pool_5, [])" by (simp add: fresh_info_def)
  from event_more [OF this _ idle(1)]
  have "epoll_run accepting_ext 3 False ?x (?s (?i\<lparr>num := 1\<rparr>) [Watch 4 True, Unwatch 4], ?p, [])"
    by (simp add: watched_def add_task_def notify_one_def idle, simp add: pool_5_def)
  from enter_more [OF this, of 0] obtain p' where run: "epoll_run accepting_ext 3 False ?x
      (?s (?i\<lparr>num := 1\<rparr>) [Watch 4 True, Unwatch 4], p', [])" and busy: "thread_at p' 0 = Some (Busy (Serving 4))"
    by (simp add: thread_at_def loop_head_def set_thread_def pool_5_def)
  have start: "watched sample_server \<subseteq> open_fds sample_server" "finite (dom (m_map sample_server))" "walks (fd_order accepting_ext)"
    using sample_walks(2) by (simp_all add: watched_def sample_server_def accepting_ext_def)
  from one_worker_per_connection [OF new_pool_5 start run, of 4 0] busy run
  show ?thesis by (intro exI [of _ "?s (?i\<lparr>num := 1\<rparr>) [Watch 4 True, Unwatch 4]"] exI [of _ p']) (simp add: watched_def)
qed

text \<open>
  C38: The checking thread breaks this.  It closes a silent connection without regard to the worker it
  is with; the next client gets the same descriptor, and two workers serve it at once.
\<close>

theorem eviction_two_workers:
  "\<exists>E p s' p'. new_pool 5 = Inr p \<and> epoll_run E 3 True (sample_server, p, []) (s', p', [])
    \<and> thread_at p' 0 = Some (Busy (Serving 4)) \<and> thread_at p' 1 = Some (Busy (Serving 4))"
proof -
  let ?x = "(sample_server, pool_5 :: activity pool, [] :: int list)"
  let ?i = "\<lambda>n. (fresh_info ''a'')\<lparr>num := n\<rparr>"
  let ?s = "\<lambda>m cs. \<lparr>world = sample_world, calls = cs, m_map = m, m_map_boost = Map.empty,
    m_liveList = Map.empty, worker = new_IdWorker\<rparr>"
  let ?p = "pool_5\<lparr>taskQ := [Serving 4]\<rparr> :: activity pool" and ?q = "pool_5\<lparr>taskQ := [Serving 4, Serving 4]\<rparr> :: activity pool"
  let ?cs = "[Watch 4 True, Unwatch 4]"
  have fresh: "?i 0 = fresh_info ''a''" by (simp add: fresh_info_def)
  have idle: "may_notify None (pool_5 :: activity pool)" "may_notify None ?p" "\<not> shutdown (pool_5 :: activity pool)"
    by (simp_all add: may_notify_def pool_5_def)
  have "epoll_run accepting_ext 3 True ?x (?s [4 \<mapsto> ?i 0] [Watch 4 True], pool_5, [])"
    using accept_more [OF run_refl, of sample_server True pool_5]
    by (simp add: open_fds_def sample_server_def fresh)
  from event_more [OF this _ idle(1)]
  have "epoll_run accepting_ext 3 True ?x (?s [4 \<mapsto> ?i 0] ?cs, ?p, [])"
    by (simp add: watched_def add_task_def notify_one_def idle, simp add: pool_5_def)
  from check_more(1) [OF this, of "?i 0"]
  have "epoll_run accepting_ext 3 True ?x (?s [4 \<mapsto> ?i 1] ?cs, ?p, [])" by simp
  from check_more(1) [OF this, of "?i 1"]
  have "epoll_run accepting_ext 3 True ?x (?s [4 \<mapsto> ?i 2] ?cs, ?p, [])" by simp
  from check_more(1) [OF this, of "?i 2"]
  have "epoll_run accepting_ext 3 True ?x (?s [4 \<mapsto> ?i 3] ?cs, ?p, [])" by simp
  from check_more(2) [OF this, of "?i 3"]
  have "epoll_run accepting_ext 3 True ?x (?s Map.empty (?cs @ [Unwatch 4, Close (Fd 4)]), ?p, [])" by simp
  from accept_more [OF this]
  have "epoll_run accepting_ext 3 True ?x (?s [4 \<mapsto> ?i 0] (?cs @ [Unwatch 4, Close (Fd 4), Watch 4 True]), ?p, [])"
    by (simp add: open_fds_def fresh)
  from event_more [OF this _ idle(2)]
  have "\<exists>s'. epoll_run accepting_ext 3 True ?x (s', ?q, [])"
    by (simp add: watched_def add_task_def notify_one_def idle) (auto simp: pool_5_def)
  then obtain s' where "epoll_run accepting_ext 3 True ?x (s', ?q, [])" by blast
  from enter_more [OF enter_more [OF this, of 0], of 1]
  have "epoll_run accepting_ext 3 True ?x (s', loop_head 1 (loop_head 0 ?q), [])"
    by (simp add: thread_at_def loop_head_def set_thread_def pool_5_def)
  moreover have "thread_at (loop_head 1 (loop_head 0 ?q)) 0 = Some (Busy (Serving 4))" "thread_at (loop_head 1 (loop_head 0 ?q)) 1 = Some (Busy (Serving 4))"
    by (simp_all add: thread_at_def loop_head_def set_thread_def pool_5_def)
  ultimately show ?thesis using new_pool_5 by blast
qed

end
