(* ===== verification/Startup.thy ===== *)
theory Startup
  imports BoostServer EpollServer
begin

text \<open>
  How the process starts: \<^verbatim>\<open>main.cpp\<close>, the constructors of the singletons that can fail
  (\<^verbatim>\<open>DbBroker\<close>, \<^verbatim>\<open>EpollOperator\<close>) and of the two servers, and the set-up and one turn of the event
  loop of \<^verbatim>\<open>MyServer::launch\<close>.  A singleton is constructed when it is first asked for, so the order
  of the calls below is the order of the first uses.  \<^verbatim>\<open>exit(n)\<close> is the failure \<^term>\<open>Exit n\<close>.
\<close>

section \<open>main\<close>

definition create_directory :: "'w ext \<Rightarrow> string \<Rightarrow> ('w, unit) srv" where
  "create_directory E path s = (case make_directory E path (world s) of (ok, w) \<Rightarrow>
     Some (if ok then Inr () else Inl Filesystem_error, log_call (Make_dir path) (s\<lparr>world := w\<rparr>)))"

definition cache_directories :: "string list" where
  "cache_directories = [PROFILE_PICTURE_URL, CHAT_PICTURE_URL, PREVIEW_PICTURE_URL, VIDEO_URL]"

text \<open>The \<open>try\<close> block: the first failure skips the directories after it and is reported.\<close>

definition create_directories :: "'w ext \<Rightarrow> ('w, unit) srv" where
  "create_directories E s = (case for_each cache_directories (create_directory E) s of
     Some (Inl e, s') \<Rightarrow> Some (if e = Filesystem_error then Inr () else Inl e, s')
   | r \<Rightarrow> r)"

text \<open>The constructor of \<open>DbBroker\<close> connects to the database or ends the process.\<close>

definition new_DbBroker :: "'w ext \<Rightarrow> ('w, unit) srv" where
  "new_DbBroker E s = (case mysql_connect E (world s) of (ok, w) \<Rightarrow>
     Some (if ok then Inr () else Inl (Exit 1), log_call Db_connect (s\<lparr>world := w\<rparr>)))"

text \<open>The constructor of \<open>BoostServer\<close> opens the acceptor; it throws when the port is taken.\<close>

definition new_BoostServer :: "'w ext \<Rightarrow> ('w, unit) srv" where
  "new_BoostServer E s = (case asio_listen E LISTEN_PORT (world s) of (ok, w) \<Rightarrow>
     Some (if ok then Inr () else Inl Socket_error, log_call (Open_port LISTEN_PORT) (s\<lparr>world := w\<rparr>)))"

text \<open>\<open>main\<close> up to the call of \<open>launch\<close>.\<close>

definition main_start :: "'w ext \<Rightarrow> ('w, unit) srv" where
  "main_start E =
     bnd (create_directories E) (\<lambda>_.
     bnd (new_DbBroker E) (\<lambda>_.
     bnd (initDataBase E) (\<lambda>_.
     new_BoostServer E)))"

section \<open>The epoll server\<close>

definition new_EpollOperator :: "'w ext \<Rightarrow> ('w, int) srv" where
  "new_EpollOperator E s = (case sys_epoll_create E (world s) of (epfd, w) \<Rightarrow>
     Some (if epfd = - 1 then Inl (Exit 1) else Inr epfd, s\<lparr>world := w\<rparr>))"

text \<open>\<open>EpollOperator::listen\<close>: \<^term>\<open>None\<close> is -1; no timeout is set.\<close>

definition epoll_listen :: "'w ext \<Rightarrow> nat \<Rightarrow> ('w, int list option) srv" where
  "epoll_listen E maxevents s = (case sys_epoll_wait E maxevents (world s) of (evs, w) \<Rightarrow>
     Some (Inr evs, s\<lparr>world := w\<rparr>))"

definition socket_srv :: "'w ext \<Rightarrow> ('w, int) srv" where
  "socket_srv E s = (case sys_socket E (world s) of (fd, w) \<Rightarrow> Some (Inr fd, s\<lparr>world := w\<rparr>))"

definition bind_srv :: "'w ext \<Rightarrow> int \<Rightarrow> nat \<Rightarrow> ('w, bool) srv" where
  "bind_srv E fd port s = (case sys_bind E fd port (world s) of (ok, w) \<Rightarrow> Some (Inr ok, s\<lparr>world := w\<rparr>))"

definition listen_srv :: "'w ext \<Rightarrow> int \<Rightarrow> nat \<Rightarrow> ('w, bool) srv" where
  "listen_srv E fd backlog s = (case sys_listen E fd backlog (world s) of (ok, w) \<Rightarrow> Some (Inr ok, s\<lparr>world := w\<rparr>))"

text \<open>The listening socket of \<open>launch\<close>; \<^term>\<open>None\<close>: \<open>launch\<close> returns.\<close>

definition open_listener :: "'w ext \<Rightarrow> ('w, int option) srv" where
  "open_listener E =
     bnd (socket_srv E) (\<lambda>listen_fd.
     if listen_fd = - 1 then ret None
     else bnd (bind_srv E listen_fd LISTEN_PORT) (\<lambda>ok.
       if \<not> ok then ret None
       else bnd (listen_srv E listen_fd LISTEN_BACKLOG) (\<lambda>ok.
         if \<not> ok then ret None
         else bnd (addFd E listen_fd False) (\<lambda>_. ret (Some listen_fd)))))"

text \<open>The constructor of \<open>MyServer\<close>: the pool, then epoll.  The other singletons cannot fail.\<close>

definition new_MyServer :: "'w ext \<Rightarrow> nat \<Rightarrow> ('w, int pool) srv" where
  "new_MyServer E cores =
     bnd (lift_sum (new_pool cores)) (\<lambda>p. bnd (new_EpollOperator E) (\<lambda>_. ret p))"

text \<open>The \<open>for\<close> loop over the reported events; with each goes the worker that \<open>notify_one\<close> wakes.\<close>

fun launch_events :: "'w ext \<Rightarrow> int \<Rightarrow> (int \<times> nat option) list \<Rightarrow> 'w server \<times> activity pool \<Rightarrow> ('w server \<times> activity pool) option" where
  "launch_events E listen_fd [] sp = Some sp"
| "launch_events E listen_fd ((fd, choice) # evs) (s, p) =
     (if fd = listen_fd
      then (case processConnect E listen_fd s of
              Some (Inr _, s') \<Rightarrow> launch_events E listen_fd evs (s', p)
            | _ \<Rightarrow> None)
      else if may_notify choice p
      then (case dispatch E fd choice (s, p) of
              None \<Rightarrow> None
            | Some sp' \<Rightarrow> launch_events E listen_fd evs sp')
      else None)"

text \<open>One turn of the loop.  The flag is false when \<open>launch\<close> returns, on any error of \<^verbatim>\<open>epoll_wait\<close>.\<close>

definition launch_turn :: "'w ext \<Rightarrow> int \<Rightarrow> nat option list \<Rightarrow> 'w server \<times> activity pool \<Rightarrow> (bool \<times> 'w server \<times> activity pool) option" where
  "launch_turn E listen_fd choices sp = (case sp of (s, p) \<Rightarrow> (case epoll_listen E MAX_EPOLL_EVENTS s of
     Some (Inr (Some evs), s') \<Rightarrow> map_option (Pair True) (launch_events E listen_fd (zip evs choices) (s', p))
   | Some (Inr None, s') \<Rightarrow> Some (False, s', p)
   | _ \<Rightarrow> None))"

section \<open>Lemmas\<close>

text \<open>The directories that are attempted, when making \<open>p\<close> succeeds exactly if \<open>dir_ok p\<close>.\<close>

definition attempted :: "(string \<Rightarrow> bool) \<Rightarrow> string list \<Rightarrow> string list" where
  "attempted dir_ok ds = takeWhile dir_ok ds @ take 1 (dropWhile dir_ok ds)"

lemma create_loop:
  assumes "\<And>p w. fst (make_directory E p w) = dir_ok p"
  shows "\<exists>w. for_each ds (create_directory E) s = Some (if list_all dir_ok ds then Inr () else Inl Filesystem_error,
      s\<lparr>world := w, calls := calls s @ map Make_dir (attempted dir_ok ds)\<rparr>)"
proof (induction ds arbitrary: s)
  case Nil
  then show ?case by (intro exI [of _ "world s"]) (simp add: attempted_def)
next
  case (Cons d ds)
  obtain w where d: "make_directory E d (world s) = (dir_ok d, w)" using assms [of d "world s"] by (cases "make_directory E d (world s)") auto
  let ?s = "s\<lparr>world := w, calls := calls s @ [Make_dir d]\<rparr>"
  have step: "create_directory E d s = Some (if dir_ok d then Inr () else Inl Filesystem_error, ?s)"
    using d by (simp add: create_directory_def log_call_def)
  obtain w' where "for_each ds (create_directory E) ?s = Some (if list_all dir_ok ds then Inr () else Inl Filesystem_error,
      ?s\<lparr>world := w', calls := calls ?s @ map Make_dir (attempted dir_ok ds)\<rparr>)"
    using Cons [of ?s] by blast
  then show ?case using step
    by (cases "dir_ok d") (auto simp: bnd_def attempted_def intro: exI [of _ w] exI [of _ w'])
qed

lemma create_directories_runs:
  assumes "\<And>p w. fst (make_directory E p w) = dir_ok p"
  shows "\<exists>w. create_directories E s
    = Some (Inr (), s\<lparr>world := w, calls := calls s @ map Make_dir (attempted dir_ok cache_directories)\<rparr>)"
proof -
  obtain w where "for_each cache_directories (create_directory E) s
      = Some (if list_all dir_ok cache_directories then Inr () else Inl Filesystem_error,
        s\<lparr>world := w, calls := calls s @ map Make_dir (attempted dir_ok cache_directories)\<rparr>)"
    using create_loop [OF assms] by blast
  then show ?thesis by (intro exI [of _ w]) (simp add: create_directories_def)
qed

section \<open>Properties\<close>

text \<open>
  C20: Start-up, for every combination of answers.  The directories are attempted in order, up to and with the
  first that cannot be made, and a failure does not stop the start.  Then the database is connected; if that
  fails, the process exits with status 1, having sent no command and opened no port.  Otherwise all eight schema
  commands are sent, and only then the port is opened; the server is launched exactly when that succeeds, and
  the process ends with the exception of the acceptor when it does not.
\<close>

theorem startup_outcome:
  assumes "\<And>p w. fst (make_directory E p w) = dir_ok p" and "\<And>w. fst (mysql_connect E w) = db_ok"
    and "\<And>w. fst (asio_listen E LISTEN_PORT w) = port_ok"
  shows "\<exists>w. main_start E s = Some (if \<not> db_ok then Inl (Exit 1) else if port_ok then Inr () else Inl Socket_error,
    s\<lparr>world := w, calls := calls s
        @ map Make_dir (takeWhile dir_ok cache_directories @ take 1 (dropWhile dir_ok cache_directories)) @ [Db_connect]
        @ (if db_ok then map Execute schema_commands @ [Open_port LISTEN_PORT] else [])\<rparr>)"
proof -
  obtain w where dirs: "create_directories E s
      = Some (Inr (), s\<lparr>world := w, calls := calls s @ map Make_dir (attempted dir_ok cache_directories)\<rparr>)"
    using create_directories_runs [OF assms(1)] by blast
  let ?s = "s\<lparr>world := w, calls := calls s @ map Make_dir (attempted dir_ok cache_directories)\<rparr>"
  obtain w1 where db: "mysql_connect E w = (db_ok, w1)" using assms(2) [of w] by (cases "mysql_connect E w") auto
  let ?t = "?s\<lparr>world := w1, calls := calls ?s @ [Db_connect]\<rparr>"
  have connect: "new_DbBroker E ?s = Some (if db_ok then Inr () else Inl (Exit 1), ?t)"
    using db by (simp add: new_DbBroker_def log_call_def)
  show ?thesis
  proof (cases db_ok)
    case False
    then show ?thesis using connect
      by (intro exI [of _ w1]) (simp add: main_start_def bnd_def dirs attempted_def)
  next
    case True
    obtain w2 where init: "initDataBase E ?t = Some (Inr (), ?t\<lparr>world := w2, calls := calls ?t @ map Execute schema_commands\<rparr>)"
      using for_each_execute [of schema_commands E ?t] by (auto simp: initDataBase_def)
    obtain w3 where port: "asio_listen E LISTEN_PORT w2 = (port_ok, w3)" using assms(3) [of w2] by (cases "asio_listen E LISTEN_PORT w2") auto
    show ?thesis using True connect init port
      by (intro exI [of _ w3]) (simp add: main_start_def bnd_def dirs new_BoostServer_def log_call_def attempted_def)
  qed
qed

text \<open>The second directory cannot be made, and the port is taken.\<close>

theorem startup_outcome_witness:
  "\<exists>E :: sample ext. \<exists>s'. main_start E sample_server = Some (Inl Socket_error, s')
    \<and> calls s' = [Make_dir PROFILE_PICTURE_URL, Make_dir CHAT_PICTURE_URL, Db_connect]
      @ map Execute schema_commands @ [Open_port LISTEN_PORT]"
proof -
  let ?E = "sample_ext\<lparr>make_directory := (\<lambda>p w. (p \<noteq> CHAT_PICTURE_URL, w)), asio_listen := (\<lambda>port w. (False, w))\<rparr>"
  have "PROFILE_PICTURE_URL \<noteq> CHAT_PICTURE_URL" by (simp add: PROFILE_PICTURE_URL_def CHAT_PICTURE_URL_def)
  then have "takeWhile (\<lambda>p. p \<noteq> CHAT_PICTURE_URL) cache_directories
      @ take 1 (dropWhile (\<lambda>p. p \<noteq> CHAT_PICTURE_URL) cache_directories) = [PROFILE_PICTURE_URL, CHAT_PICTURE_URL]"
    by (simp add: cache_directories_def)
  then show ?thesis
    using startup_outcome [of ?E "\<lambda>p. p \<noteq> CHAT_PICTURE_URL" True False sample_server]
    by (intro exI [of _ ?E]) (auto simp: sample_ext_def sample_server_def)
qed

text \<open>Handling reported events is a run in which the list of reported events shrinks.\<close>

lemma launch_events_run:
  assumes "launch_events E listen_fd evs (s, p) = Some (s', p')"
    and "listen_fd \<notin> fst ` set evs"
    and "epoll_run E listen_fd reckless x (s, p, map fst evs)" and "\<not> shutdown p"
  shows "epoll_run E listen_fd reckless x (s', p', [])
    \<and> calls s' = calls s @ map (\<lambda>e. Unwatch (fst e)) evs \<and> taskQ p' = taskQ p @ map (\<lambda>e. Serving (fst e)) evs"
  using assms
proof (induction evs arbitrary: s p)
  case (Cons ev evs)
  obtain fd choice where ev: "ev = (fd, choice)" by (cases ev)
  let ?s = "s\<lparr>world := epoll_del E fd (world s), calls := calls s @ [Unwatch fd]\<rparr>" and ?p = "add_task (Serving fd) choice p"
  have n: "may_notify choice p" and rest: "launch_events E listen_fd evs (?s, ?p) = Some (s', p')"
    using Cons.prems(1,2) ev by (auto simp: dispatch_app split: if_splits)
  have "epoll_run E listen_fd reckless x (?s, ?p, map fst evs)"
    using Cons.prems(3) ev by (intro run_more [OF Cons.prems(3)]) (simp add: event [OF n dispatch_app])
  moreover have "taskQ ?p = taskQ p @ [Serving fd]"
    using n Cons.prems(4) by (auto simp: add_task_def notify_one_def set_thread_def split: option.split)
  moreover have "\<not> shutdown ?p"
    using Cons.prems(4) by (auto simp: add_task_def notify_one_def set_thread_def split: option.split)
  ultimately show ?case using Cons.IH [OF rest] Cons.prems(2) ev by simp
qed simp

text \<open>
  C23: One turn of the event loop, while the pool is not shut down.  When epoll reports watched connections,
  each once, handling them is a run of the step relation of the epoll server: every one is taken off epoll and
  queued for a worker, in the order of the report.  An error of \<^verbatim>\<open>epoll_wait\<close> -- also the interruption by a
  signal -- makes \<open>launch\<close> return.
\<close>

theorem event_loop_turn:
  assumes "sys_epoll_wait E MAX_EPOLL_EVENTS (world s) = (reported, w)"
    and "launch_turn E listen_fd choices (s, p) = Some (again, s', p')"
    and "\<And>evs. reported = Some evs \<Longrightarrow> distinct evs \<and> listen_fd \<notin> set evs \<and> set evs \<subseteq> watched s \<and> length evs = length choices"
    and "\<not> shutdown p"
  shows "case reported of
      None \<Rightarrow> \<not> again \<and> s' = s\<lparr>world := w\<rparr> \<and> p' = p
    | Some evs \<Rightarrow> again \<and> epoll_run E listen_fd reckless (s, p, []) (s', p', [])
        \<and> calls s' = calls s @ map Unwatch evs \<and> taskQ p' = taskQ p @ map Serving evs"
proof (cases reported)
  case None
  then show ?thesis using assms(1,2) by (simp add: launch_turn_def epoll_listen_def)
next
  case (Some evs)
  note evs = assms(3) [OF Some]
  have ev: "launch_events E listen_fd (zip evs choices) (s\<lparr>world := w\<rparr>, p) = Some (s', p')" "again"
    using assms(1,2) Some by (auto simp: launch_turn_def epoll_listen_def)
  have z: "map fst (zip evs choices) = evs" using evs by simp
  then have z': "listen_fd \<notin> fst ` set (zip evs choices)" using evs by (metis set_map)
  have "filter (\<lambda>fd. fd \<noteq> listen_fd) evs = evs" using evs by (auto simp: filter_id_conv)
  then have "epoll_run E listen_fd reckless (s, p, []) (s\<lparr>world := w\<rparr>, p, map fst (zip evs choices))"
    using run_more [OF run_refl EpollServer.reported [OF assms(1) [unfolded Some], of listen_fd]] evs unfolding z by auto
  from launch_events_run [OF ev(1) z' this assms(4)]
  have "epoll_run E listen_fd reckless (s, p, []) (s', p', [])"
    and "calls s' = calls s @ map Unwatch (map fst (zip evs choices))"
    and "taskQ p' = taskQ p @ map Serving (map fst (zip evs choices))" by (simp_all add: comp_def)
  then show ?thesis unfolding z using ev(2) Some by simp
qed

text \<open>One readable connection, no worker asleep.\<close>

definition ready_ext :: "sample ext" where
  "ready_ext = sample_ext\<lparr>sys_epoll_wait := (\<lambda>n w. (Some [4], w))\<rparr>"

theorem event_loop_turn_witness:
  "\<exists>s' p'. launch_turn ready_ext 3 [None] (sample_server\<lparr>calls := [Watch 4 True]\<rparr>, pool_5) = Some (True, s', p')
    \<and> calls s' = [Watch 4 True, Unwatch 4] \<and> taskQ p' = [Serving 4]"
proof -
  let ?s = "sample_server\<lparr>calls := [Watch 4 True]\<rparr>"
  have w: "sys_epoll_wait ready_ext MAX_EPOLL_EVENTS (world ?s) = (Some [4], world ?s)" by (simp add: ready_ext_def)
  have "may_notify None (pool_5 :: activity pool)" "\<not> shutdown (pool_5 :: activity pool)" by (simp_all add: may_notify_def pool_5_def)
  then have "\<exists>s' p'. launch_turn ready_ext 3 [None] (?s, pool_5) = Some (True, s', p')"
    using w by (simp add: launch_turn_def epoll_listen_def dispatch_app)
  then obtain s' p' where t: "launch_turn ready_ext 3 [None] (?s, pool_5) = Some (True, s', p')" by blast
  have "watched ?s = {4}" by (simp add: watched_def)
  with event_loop_turn [OF w t] t show ?thesis by (simp add: pool_5_def)
qed

end
