(* ===== verification/Spec2Isabelle.thy ===== *)
theory Spec2Isabelle
  imports Prelude Config Snowflake Runtime Scenario UserStatus LiveList
    Json Json_Lexer Json_Parser Json_Dump Json_Utf8 Json_Roundtrip Json_Typing Json_Compare Json_Escape Json_Serializer
    NetPackets DbBroker InitControl RegisterRace ModifyInfo ReceiveFile SendFile SendInfo Comments PushRace Isolation
    Session BoostServer SharedLock Socket_Transfer MyServer Transports ThreadPool EpollServer Startup
begin

text \<open>
  A verification development for the video-sharing server under \<^verbatim>\<open>src/\<close>.

  \<^bold>\<open>The program.\<close>  Clients speak a binary protocol over TCP: a header of two 32-bit fields (purpose,
  size) and a body, a JSON object, or for an upload a JSON description padded to \<open>BUF_SIZE\<close> bytes
  and a file.  Two servers exist.  The Boost server (\<^verbatim>\<open>boostserver.cpp\<close>, \<^verbatim>\<open>session.cpp\<close>) is the one
  \<^verbatim>\<open>main.cpp\<close> launches; the epoll server (\<^verbatim>\<open>myserver.cpp\<close>, \<^verbatim>\<open>epolloperator.cpp\<close>, \<^verbatim>\<open>threadpool.cpp\<close>)
  is kept beside it, and most operations have one overload for each.  A request is dispatched by
  its purpose to a control class (\<^verbatim>\<open>initcontrol\<close>, \<^verbatim>\<open>modifyinfocontrol\<close>, \<^verbatim>\<open>receivefilecontrol\<close>,
  \<^verbatim>\<open>sendfilecontrol\<close>, \<^verbatim>\<open>sendinfocontrol\<close>), which reads its JSON, runs SQL commands through \<^verbatim>\<open>dbbroker\<close>,
  and answers with a packet from \<^verbatim>\<open>netpacketgenerator\<close>.  Three singletons hold state across requests: the
  connection table with missed heartbeats (\<^verbatim>\<open>userstatusevaluator\<close>), the list of live streams
  (\<^verbatim>\<open>livelistmonitor\<close>) and the id worker (\<^verbatim>\<open>snowflakeidworker\<close>).  JSON is read and written by the
  library under \<^verbatim>\<open>src/json\<close>.

  \<^bold>\<open>The model.\<close>  An operation is a state transformer (\<open>prog\<close> in \<^theory_text>\<open>Prelude\<close>): from a state it does not
  return (\<open>None\<close>), or it returns a new state with a value (\<open>Inr\<close>) or with the exception that left
  it (\<open>Inl\<close>).  Undefined behaviour (an overrun array or heap block, a missing terminator) is an
  exception of its own, so that a theorem must exclude it or show it.  The state (\<open>server\<close> in
  \<^theory_text>\<open>Runtime\<close>) has one field per singleton, the outside world, and the record \<open>calls\<close> of the visible
  calls made so far, which the program never reads.  Everything outside the repository (sockets,
  Boost.Asio, epoll, the database client, files, the clock, the contents of fresh memory, the
  order in which an \<^verbatim>\<open>unordered_map\<close> is walked) is a field of the record \<open>ext\<close>, a parameter of the
  definitions; documented behaviour a theorem needs is a named hypothesis (\<open>walks\<close>, \<open>delivers\<close>,
  \<open>accepts\<close>, a clock that does not run backwards), and \<^theory_text>\<open>Scenario\<close> is a concrete instance for which
  the hypotheses hold.  Overloads that differ in a few calls share a definition with those calls
  as parameters (\<open>login_with\<close>, \<open>modify_with\<close>, \<open>receive_with\<close>, \<open>send_file_with\<close>, \<open>send_info_with\<close>).

  \<^bold>\<open>The theories.\<close>
  \<^item> \<^theory_text>\<open>Prelude\<close>: the collections \<open>prog_simps\<close> and \<open>handler_simps\<close>, C strings, decimal printing, the monad,
    and the locale \<open>frame\<close> of the relations that all steps of a program respect.
  \<^item> \<^theory_text>\<open>Config\<close> (\<^verbatim>\<open>config.h\<close>): constants, enumerations, the wire structs as bytes and their round trip.
  \<^item> \<^theory_text>\<open>Snowflake\<close> (\<^verbatim>\<open>snowflakeidworker\<close>): ids on 64-bit words; they increase strictly on a clock that
    does not run backwards, their layout, and that drawing one returns.
  \<^item> \<^theory_text>\<open>Runtime\<close>, \<^theory_text>\<open>Scenario\<close>, \<^theory_text>\<open>Socket_Transfer\<close> (\<^verbatim>\<open>config.cpp\<close>): state and services; \<open>my_recv\<close> and \<open>my_send\<close>,
    which transfer exactly the bytes asked for however the kernel splits them.
  \<^item> \<^theory_text>\<open>UserStatus\<close> (\<^verbatim>\<open>userstatusevaluator\<close>): the table operations and one pass of the checking threads; the
    locale \<open>heartbeat\<close> derives from one check and one heartbeat who survives a schedule of them, and
    is interpreted on both overloads.
  \<^item> \<^theory_text>\<open>LiveList\<close> (\<^verbatim>\<open>livelistmonitor\<close>): the locale \<open>registry\<close> (a table filled by \<^verbatim>\<open>insert\<close>) and its
    interpretations on the live list and both connection tables.
  \<^item> \<^theory_text>\<open>Json\<close>, \<^theory_text>\<open>Json_Lexer\<close>, \<^theory_text>\<open>Json_Parser\<close>, \<^theory_text>\<open>Json_Dump\<close> (\<^verbatim>\<open>src/json\<close>): values and conversions, lexer, the
    parser with its explicit stack, the serializer.  \<^theory_text>\<open>Json_Utf8\<close> relates the UTF-8 automaton of the
    serializer to the byte ranges of the lexer; \<^theory_text>\<open>Json_Roundtrip\<close> shows that what \<open>dump\<close> prints is
    parsed back, that the two-digits-at-a-time printing of integers is decimal printing, and
    that escaping strings is undone by scanning.  \<^theory_text>\<open>Json_Typing\<close>: the type invariant of parsed values
    (valid UTF-8, sorted keys), under which printing does not throw; \<^theory_text>\<open>Json_Compare\<close>: \<open>operator==\<close>, up to
    which a printed value is parsed back.  \<^theory_text>\<open>Json_Escape\<close> and \<^theory_text>\<open>Json_Serializer\<close>: the serializer with all its
    options and buffers, of which \<^theory_text>\<open>Json_Dump\<close> is the case of the server; the string buffer cannot overrun, the
    indentation buffer can, and every layout is parsed back.
  \<^item> \<^theory_text>\<open>NetPackets\<close> (\<^verbatim>\<open>netpacketgenerator\<close>): packets as bytes, what the receiver decodes.
  \<^item> \<^theory_text>\<open>DbBroker\<close>, \<^theory_text>\<open>InitControl\<close>, \<^theory_text>\<open>ModifyInfo\<close>, \<^theory_text>\<open>ReceiveFile\<close>, \<^theory_text>\<open>SendFile\<close>, \<^theory_text>\<open>SendInfo\<close>: the commands sent to the
    database, the handlers, their effect and calls on every branch, and what they leave alone.  \<^theory_text>\<open>Comments\<close>: the
    exact size of the reply with all comments of a video, and the overrun of the packet above \<open>BUF_SIZE\<close>.
  \<^item> \<^theory_text>\<open>RegisterRace\<close>: \<open>do_register\<close> cut at its two commands, and two runs of it interleaved.  \<^theory_text>\<open>PushRace\<close>: the fetch of
    pushes cut before its deletion, with uploads at any time.
  \<^item> \<^theory_text>\<open>Isolation\<close>: what a request can reach; the locale \<open>client\<close> states what the handlers rely on in a
    transport and is interpreted on both, so that confinement is proved once for both servers.
  \<^item> \<^theory_text>\<open>Session\<close> (\<^verbatim>\<open>session.cpp\<close>): requests and rounds of a session; a client reaches no other client's entry or socket; a login from bytes to bytes.
  \<^item> \<^theory_text>\<open>BoostServer\<close> (\<^verbatim>\<open>boostserver.cpp\<close>): accepts, completion handlers of all sessions and checks as events in
    any order; an invariant of all runs, what happens to silent and to attentive connections, and
    how one packet ends the process.
  \<^item> \<^theory_text>\<open>SharedLock\<close>: the check of the table with other threads between its visits.
  \<^item> \<^theory_text>\<open>MyServer\<close> (\<^verbatim>\<open>myserver.cpp\<close>): the task of a worker of the epoll server.
  \<^item> \<^theory_text>\<open>Transports\<close>: a coupling of the two servers, which agree on every request but the upload of a profile
    picture and the list of videos.
  \<^item> \<^theory_text>\<open>ThreadPool\<close> (\<^verbatim>\<open>threadpool.cpp\<close>, \<^verbatim>\<open>threadpool.h\<close>): critical sections as steps, executions as the
    inductive relation \<open>pool_run\<close>; counters, order of tasks, a lost wake-up, the end of a shutdown.
  \<^item> \<^theory_text>\<open>EpollServer\<close> (\<^verbatim>\<open>MyServer::launch\<close>): event loop with the events epoll has reported, pool, tasks (a
    returned task still occupies its worker) and checking thread interleaved, as the inductive relations
    \<open>epoll_step\<close> and \<open>epoll_run\<close>; a connection has one owner as long as the checks evict only connections
    at rest, and how any other eviction breaks it.
  \<^item> \<^theory_text>\<open>Startup\<close> (\<^verbatim>\<open>main.cpp\<close>, the constructors, \<^verbatim>\<open>MyServer::launch\<close>): the outcome and the calls of starting
    for every answer of file system, database and network, the listening socket, and one turn of the event loop as a run of \<open>epoll_run\<close>.

  \<^bold>\<open>Loops and fuel.\<close>  No fuel is used.  Loops that may not end (waiting for the clock, \<open>my_recv\<close>, \<open>my_send\<close>,
  \<open>processConnect\<close>, \<open>processClientRequest\<close>) are partial functions into \<open>option\<close>; that they
  return is a theorem where the surroundings guarantee it (\<open>nextId_returns\<close>, \<open>my_recv_complete\<close>,
  \<open>my_send_complete\<close>, \<open>schedule_completes\<close>).  The parser's loop is shown to end by a measure on the input.

  \<^bold>\<open>Not modelled.\<close>  Console output.  The scheduling inside \<^verbatim>\<open>io_context\<close>: it picks the next event, and a
  handler runs as one step, except where \<open>RegisterRace\<close>, \<open>PushRace\<close> and \<open>SharedLock\<close> cut one into its
  commands or visits; what two unsynchronised accesses to one map do at the same moment is undefined in C++
  and has no model.  Exhaustion of memory.  Closing a Boost socket is taken to succeed (\<open>close_socket\<close>).
  Of the JSON library, the parts the server does not call
  (binary formats, pointers, patches, iterators, ordering, comments, error
  texts), and the printing of doubles, which is a failure of the model: the server prints none.

  \<^bold>\<open>Plan.\<close>  Next: the other pairs of handlers that race between their commands (uploads and deletions of
  a video).
\<close>

end
